(* ===== verification/AGUI_Prelude.thy ===== *)
theory AGUI_Prelude
  imports Main "HOL-Library.AList"
begin

section \<open>JavaScript values, ordered containers and stream stages\<close>

text \<open>
  The vocabulary every component of the development shares.

  \<^item> \<open>js\<close> is a JavaScript value as the client handles it: the JSON values and
    \<open>undefined\<close>. An object is an association list in property order (\<open>jobj\<close>), so
    that "absent", "present with the value undefined" and "present with the value null" stay the
    three different things the sources treat them as. Numbers are only carried, never computed
    with, so \<open>int\<close> stands for them.
  \<^item> A JavaScript \<open>Map\<close> is an association list in insertion order (\<open>AList.update\<close>
    overwrites in place and appends a new key, as \<open>Map.set\<close> does), a \<open>Set\<close> is a list
    without duplicates. Keys are primitive values, for which \<open>SameValueZero\<close> is equality.
  \<^item> An RxJS operator of the client is a step function from a state and an input to either an
    error (which ends the stream) or the outputs and the next state; \<open>run_stage\<close> feeds it a
    list of inputs and returns what was emitted, the error if there was one, and the state.
  \<^item> The locale \<open>js_map\<close> is the contract of a \<open>Map\<close>, \<open>invariant_stage\<close> and
    \<open>bracketed_stage\<close> are the contracts of an operator that keeps an invariant and of an
    operator that enforces the open/continue/close discipline of one kind of entity, and
    \<open>simulated_stage\<close> that of an operator that refines an abstract step function.
\<close>

subsection \<open>Values and objects\<close>

datatype js =
    JUndef
  | JNull
  | JBool bool
  | JNum int
  | JStr string
  | JArr "js list"
  | JObj "(string \<times> js) list"

type_synonym jobj = "(string \<times> js) list"

text \<open>Reading a property, \<open>o.k\<close>; an absent property reads as \<open>undefined\<close>.\<close>

definition oget :: "jobj \<Rightarrow> string \<Rightarrow> js" where
  "oget obj k = (case map_of obj k of None \<Rightarrow> JUndef | Some v \<Rightarrow> v)"

text \<open>\<open>Object.prototype.hasOwnProperty.call(o, k)\<close>.\<close>

definition has_own :: "jobj \<Rightarrow> string \<Rightarrow> bool" where
  "has_own obj k \<longleftrightarrow> map_of obj k \<noteq> None"

text \<open>Assignment \<open>o.k = v\<close> and \<open>delete o.k\<close>.\<close>

definition oset :: "string \<Rightarrow> js \<Rightarrow> jobj \<Rightarrow> jobj" where
  "oset k v obj = AList.update k v obj"

definition odel :: "string \<Rightarrow> jobj \<Rightarrow> jobj" where
  "odel k obj = AList.delete k obj"

text \<open>The object literal \<open>{...a, ...b}\<close>: the later write wins, the first position is kept.\<close>

definition spread :: "jobj \<Rightarrow> jobj \<Rightarrow> jobj" where
  "spread a b = fold (\<lambda>(k, v). oset k v) b a"

text \<open>The conditional spread \<open>...(v !== undefined && { k: v })\<close>.\<close>

definition opt_field :: "string \<Rightarrow> js \<Rightarrow> jobj" where
  "opt_field k v = (if v = JUndef then [] else [(k, v)])"

text \<open>
  Property access on a value, with the optional-chaining reading: \<open>v?.k\<close> is \<open>undefined\<close>
  when \<open>v\<close> is not an object that has the property.
\<close>

fun jprop :: "js \<Rightarrow> string \<Rightarrow> js" where
  "jprop (JObj obj) k = oget obj k"
| "jprop _ k = JUndef"

fun nullish :: "js \<Rightarrow> bool" where
  "nullish JUndef = True"
| "nullish JNull = True"
| "nullish _ = False"

fun truthy :: "js \<Rightarrow> bool" where
  "truthy JUndef = False"
| "truthy JNull = False"
| "truthy (JBool b) = b"
| "truthy (JNum n) = (n \<noteq> 0)"
| "truthy (JStr s) = (s \<noteq> [])"
| "truthy _ = True"

fun is_string :: "js \<Rightarrow> bool" where
  "is_string (JStr _) = True"
| "is_string _ = False"

fun is_array :: "js \<Rightarrow> bool" where
  "is_array (JArr _) = True"
| "is_array _ = False"

fun is_object :: "js \<Rightarrow> bool" where
  "is_object (JObj _) = True"
| "is_object _ = False"

text \<open>
  The elements a \<open>for ... of v ?? []\<close> visits. The schemas allow an array or nothing at every
  place the sources iterate, and those are the two shapes that contribute elements.
\<close>

fun elements :: "js \<Rightarrow> js list" where
  "elements (JArr xs) = xs"
| "elements _ = []"

text \<open>\<open>v ?? undefined\<close>: null reads as absent.\<close>

definition null_to_undef :: "js \<Rightarrow> js" where
  "null_to_undef v = (if v = JNull then JUndef else v)"

text \<open>\<open>String(n)\<close> for a natural number.\<close>

function digits :: "nat \<Rightarrow> string" where
  "digits n = (if n < 10 then [] else digits (n div 10)) @ [char_of (48 + n mod 10)]"
  by auto
termination by (relation "measure id") auto

declare digits.simps [simp del]

subsection \<open>Laws of objects\<close>

named_theorems js_simps \<open>evaluation of property reads, writes and spreads\<close>

lemma oget_Nil [simp, js_simps]: "oget [] k = JUndef"
  by (simp add: oget_def)

lemma oget_Cons [simp, js_simps]: "oget ((k', v) # obj) k = (if k = k' then v else oget obj k)"
  by (simp add: oget_def)

lemma oget_append: "oget (a @ b) k = (if has_own a k then oget a k else oget b k)"
  by (simp add: oget_def has_own_def map_add_def split: option.splits)

lemma has_own_Nil [simp, js_simps]: "\<not> has_own [] k"
  by (simp add: has_own_def)

lemma has_own_Cons [simp, js_simps]: "has_own ((k', v) # obj) k \<longleftrightarrow> k = k' \<or> has_own obj k"
  by (simp add: has_own_def)

lemma has_own_iff: "has_own obj k \<longleftrightarrow> k \<in> fst ` set obj"
  using map_of_eq_None_iff [of obj k] by (simp add: has_own_def)

lemma oget_absent [simp]: "\<not> has_own obj k \<Longrightarrow> oget obj k = JUndef"
  by (simp add: oget_def has_own_def)

lemma oget_defined_has_own: "oget obj k \<noteq> JUndef \<Longrightarrow> has_own obj k"
  using oget_absent [of obj k] by blast

lemma oget_oset [simp, js_simps]: "oget (oset k v obj) k' = (if k' = k then v else oget obj k')"
  by (simp add: oget_def oset_def update_conv')

lemma has_own_oset [simp, js_simps]: "has_own (oset k v obj) k' \<longleftrightarrow> k' = k \<or> has_own obj k'"
  by (simp add: has_own_def oset_def update_conv')

lemma oget_odel [simp, js_simps]: "oget (odel k obj) k' = (if k' = k then JUndef else oget obj k')"
  by (simp add: oget_def odel_def delete_conv')

lemma has_own_odel [simp, js_simps]: "has_own (odel k obj) k' \<longleftrightarrow> k' \<noteq> k \<and> has_own obj k'"
  by (simp add: has_own_def odel_def delete_conv')

lemma odel_absent: "\<not> has_own obj k \<Longrightarrow> odel k obj = obj"
  by (simp add: odel_def has_own_iff)

lemma oset_oset: "oset k v (oset k w m) = oset k v m"
  by (induction m) (auto simp: oset_def)

lemma oset_same: "map_of m k = Some v \<Longrightarrow> oset k v m = m"
  by (induction m) (auto simp: oset_def split: if_splits)

lemma oset_oget: "oget m k = v \<Longrightarrow> v \<noteq> JUndef \<Longrightarrow> oset k v m = m"
  by (rule oset_same) (auto simp: oget_def split: option.splits)

lemma spread_Nil [simp]: "spread a [] = a"
  by (simp add: spread_def)

lemma spread_Cons [simp]: "spread a ((k, v) # b) = spread (oset k v a) b"
  by (simp add: spread_def)

lemma spread_append: "spread a (b @ c) = spread (spread a b) c"
  by (simp add: spread_def)

lemma has_own_spread [simp, js_simps]: "has_own (spread a b) k \<longleftrightarrow> has_own a k \<or> has_own b k"
  by (induction b arbitrary: a) auto

lemma oget_spread_left: "\<not> has_own b k \<Longrightarrow> oget (spread a b) k = oget a k"
  by (induction b arbitrary: a) auto

lemma oget_spread_right:
  "distinct (map fst b) \<Longrightarrow> has_own b k \<Longrightarrow> oget (spread a b) k = oget b k"
proof (induction b arbitrary: a)
  case Nil
  then show ?case by simp
next
  case (Cons p b)
  obtain k' v where p: "p = (k', v)" by (cases p)
  show ?case
  proof (cases "has_own b k")
    case True
    with Cons.prems p have "k \<noteq> k'" by (auto simp: has_own_iff)
    with True Cons p show ?thesis by simp
  next
    case False
    with Cons.prems p have "k = k'" by simp
    with False p show ?thesis by (simp add: oget_spread_left)
  qed
qed

lemma distinct_oset [simp]: "distinct (map fst obj) \<Longrightarrow> distinct (map fst (oset k v obj))"
  by (simp add: oset_def distinct_update)

lemma distinct_odel [simp]: "distinct (map fst obj) \<Longrightarrow> distinct (map fst (odel k obj))"
  by (simp add: odel_def distinct_delete)

lemma distinct_spread [simp]: "distinct (map fst a) \<Longrightarrow> distinct (map fst (spread a b))"
  by (induction b arbitrary: a) auto

lemma oget_opt_field [simp, js_simps]: "oget (opt_field k v) k' = (if k' = k then v else JUndef)"
  by (simp add: opt_field_def)

lemma has_own_opt_field [simp, js_simps]: "has_own (opt_field k v) k' \<longleftrightarrow> k' = k \<and> v \<noteq> JUndef"
  by (simp add: opt_field_def)

lemma null_to_undef_simps [simp]:
  "null_to_undef JNull = JUndef"
  "null_to_undef JUndef = JUndef"
  "null_to_undef (JStr s) = JStr s"
  by (simp_all add: null_to_undef_def)

lemma null_to_undef_idem [simp]: "null_to_undef (null_to_undef v) = null_to_undef v"
  by (simp add: null_to_undef_def)

lemma nullish_iff: "nullish v \<longleftrightarrow> v = JUndef \<or> v = JNull"
  by (cases v) auto

subsection \<open>Maps and sets in insertion order\<close>

locale js_map =
  fixes get :: "'m \<Rightarrow> 'k \<Rightarrow> 'v option"
    and put :: "'k \<Rightarrow> 'v \<Rightarrow> 'm \<Rightarrow> 'm"
    and del :: "'k \<Rightarrow> 'm \<Rightarrow> 'm"
    and entries :: "'m \<Rightarrow> ('k \<times> 'v) list"
    and empty :: 'm
  assumes get_empty: "get empty k = None"
    and get_put: "get (put k v m) k' = (if k' = k then Some v else get m k')"
    and get_del: "get (del k m) k' = (if k' = k then None else get m k')"
    and get_entries: "distinct (map fst (entries m)) \<Longrightarrow> get m k = Some v \<longleftrightarrow> (k, v) \<in> set (entries m)"
    and distinct_put: "distinct (map fst (entries m)) \<Longrightarrow> distinct (map fst (entries (put k v m)))"
    and distinct_del: "distinct (map fst (entries m)) \<Longrightarrow> distinct (map fst (entries (del k m)))"
    and entries_put_new: "get m k = None \<Longrightarrow> entries (put k v m) = entries m @ [(k, v)]"
begin

lemma del_after_put: "get (del k (put k v m)) k' = get (del k m) k'"
  by (simp add: get_put get_del)

lemma put_twice: "get (put k v (put k w m)) k' = get (put k v m) k'"
  by (simp add: get_put)

lemma put_commute: "k \<noteq> l \<Longrightarrow> get (put k v (put l w m)) k' = get (put l w (put k v m)) k'"
  by (simp add: get_put)

lemma get_empty_iff_no_key:
  assumes "distinct (map fst (entries m))"
  shows "get m k = None \<longleftrightarrow> k \<notin> fst ` set (entries m)"
proof -
  have "(\<exists>v. get m k = Some v) \<longleftrightarrow> k \<in> fst ` set (entries m)"
    using get_entries [OF assms] by force
  then show ?thesis by auto
qed

end

lemma alist_update_new: "map_of m k = None \<Longrightarrow> AList.update k v m = m @ [(k, v)]"
  by (induction m) (auto split: if_splits)

interpretation jsmap: js_map map_of AList.update AList.delete "\<lambda>m. m" "[]"
proof unfold_locales
  fix m :: "('a \<times> 'b) list" and k v
  assume "distinct (map fst m)"
  then show "map_of m k = Some v \<longleftrightarrow> (k, v) \<in> set m" by simp
qed (simp_all add: update_conv' delete_conv' distinct_update distinct_delete alist_update_new)

definition sadd :: "'a \<Rightarrow> 'a list \<Rightarrow> 'a list" where
  "sadd x xs = (if x \<in> set xs then xs else xs @ [x])"

definition sdel :: "'a \<Rightarrow> 'a list \<Rightarrow> 'a list" where
  "sdel x xs = filter (\<lambda>y. y \<noteq> x) xs"

lemma set_sadd [simp]: "set (sadd x xs) = insert x (set xs)"
  by (auto simp: sadd_def)

lemma set_sdel [simp]: "set (sdel x xs) = set xs - {x}"
  by (auto simp: sdel_def)

lemma distinct_sadd [simp]: "distinct (sadd x xs) = distinct xs"
  by (auto simp: sadd_def)

lemma distinct_sdel [simp]: "distinct xs \<Longrightarrow> distinct (sdel x xs)"
  by (simp add: sdel_def)

lemma map_sum_Inr: "map_sum f g x = Inr y \<longleftrightarrow> (\<exists>z. x = Inr z \<and> y = g z)"
  by (cases x) auto

subsection \<open>Stream stages\<close>

text \<open>
  A stage in the client's pipeline. \<open>run_stage\<close> returns the emitted values, the error that
  ended the stream if one did, and the state after the last accepted input.
\<close>

type_synonym ('s, 'a, 'err, 'b) stage = "'s \<Rightarrow> 'a \<Rightarrow> 'err + ('b list \<times> 's)"

fun run_stage :: "('s, 'a, 'err, 'b) stage \<Rightarrow> 's \<Rightarrow> 'a list \<Rightarrow> 'b list \<times> 'err option \<times> 's" where
  "run_stage f s [] = ([], None, s)"
| "run_stage f s (x # xs) =
     (case f s x of
        Inl err \<Rightarrow> ([], Some err, s)
      | Inr (ys, s') \<Rightarrow> (let (zs, r, t) = run_stage f s' xs in (ys @ zs, r, t)))"

definition emitted :: "('s, 'a, 'err, 'b) stage \<Rightarrow> 's \<Rightarrow> 'a list \<Rightarrow> 'b list" where
  "emitted f s xs = fst (run_stage f s xs)"

definition failure :: "('s, 'a, 'err, 'b) stage \<Rightarrow> 's \<Rightarrow> 'a list \<Rightarrow> 'err option" where
  "failure f s xs = fst (snd (run_stage f s xs))"

definition final_state :: "('s, 'a, 'err, 'b) stage \<Rightarrow> 's \<Rightarrow> 'a list \<Rightarrow> 's" where
  "final_state f s xs = snd (snd (run_stage f s xs))"

definition accepts :: "('s, 'a, 'err, 'b) stage \<Rightarrow> 's \<Rightarrow> 'a list \<Rightarrow> bool" where
  "accepts f s xs \<longleftrightarrow> failure f s xs = None"

lemma stage_Nil [simp]:
  "emitted f s [] = []" "failure f s [] = None" "final_state f s [] = s" "accepts f s []"
  by (simp_all add: emitted_def failure_def final_state_def accepts_def)

lemma stage_Cons_Inl [simp]:
  assumes "f s x = Inl err"
  shows "emitted f s (x # xs) = []" "failure f s (x # xs) = Some err" "final_state f s (x # xs) = s"
    "\<not> accepts f s (x # xs)"
  using assms by (simp_all add: emitted_def failure_def final_state_def accepts_def)

lemma stage_Cons_Inr [simp]:
  assumes "f s x = Inr (ys, s')"
  shows "emitted f s (x # xs) = ys @ emitted f s' xs"
    "failure f s (x # xs) = failure f s' xs"
    "final_state f s (x # xs) = final_state f s' xs"
    "accepts f s (x # xs) \<longleftrightarrow> accepts f s' xs"
  using assms
  by (simp_all add: emitted_def failure_def final_state_def accepts_def split: prod.splits)

lemma accepts_Cons: "accepts f s (x # xs) \<longleftrightarrow> (\<exists>ys s'. f s x = Inr (ys, s') \<and> accepts f s' xs)"
  by (cases "f s x") auto

lemma accepts_append: "accepts f s (xs @ ys) \<longleftrightarrow> accepts f s xs \<and> accepts f (final_state f s xs) ys"
proof (induction xs arbitrary: s)
  case (Cons x xs)
  then show ?case by (cases "f s x") auto
qed simp

lemma final_state_append: "accepts f s xs \<Longrightarrow> final_state f s (xs @ ys) = final_state f (final_state f s xs) ys"
proof (induction xs arbitrary: s)
  case (Cons x xs)
  then show ?case by (cases "f s x") auto
qed simp

lemma emitted_append: "accepts f s xs \<Longrightarrow> emitted f s (xs @ ys) = emitted f s xs @ emitted f (final_state f s xs) ys"
proof (induction xs arbitrary: s)
  case (Cons x xs)
  then show ?case by (cases "f s x") auto
qed simp

lemma rejected_prefix_stays: "\<not> accepts f s xs \<Longrightarrow> emitted f s (xs @ ys) = emitted f s xs"
proof (induction xs arbitrary: s)
  case (Cons x xs)
  then show ?case by (cases "f s x") auto
qed simp

lemma accepts_split:
  assumes "accepts f s (pre @ x # rest)"
  obtains ys s' where "f (final_state f s pre) x = Inr (ys, s')" and "accepts f s' rest"
    and "s' = final_state f s (pre @ [x])"
proof -
  from assms have pre: "accepts f s pre" and "accepts f (final_state f s pre) (x # rest)"
    by (simp_all add: accepts_append)
  then obtain ys s' where r: "f (final_state f s pre) x = Inr (ys, s')" and "accepts f s' rest"
    by (auto simp: accepts_Cons)
  moreover from pre r have "s' = final_state f s (pre @ [x])" by (simp add: final_state_append)
  ultimately show thesis by (rule that)
qed

text \<open>An operator that keeps an invariant keeps it along every stream.\<close>

locale invariant_stage =
  fixes step :: "('s, 'a, 'err, 'b) stage"
    and inv :: "'s \<Rightarrow> bool"
  assumes step_inv: "inv s \<Longrightarrow> step s x = Inr (ys, s') \<Longrightarrow> inv s'"
begin

lemma run_inv: "inv s \<Longrightarrow> inv (final_state step s xs)"
proof (induction xs arbitrary: s)
  case (Cons x xs)
  then show ?case by (cases "step s x") (auto dest: step_inv)
qed simp

lemma emitted_all:
  assumes "\<And>s x ys s' y. inv s \<Longrightarrow> step s x = Inr (ys, s') \<Longrightarrow> y \<in> set ys \<Longrightarrow> P y"
    and "inv s"
  shows "\<forall>y \<in> set (emitted step s xs). P y"
  using assms(2)
proof (induction xs arbitrary: s)
  case (Cons x xs)
  show ?case
  proof (cases "step s x")
    case (Inr r)
    obtain ys s' where r: "step s x = Inr (ys, s')" using Inr by (cases r) auto
    with Cons.prems have "inv s'" by (auto intro: step_inv)
    with Cons.IH have "\<forall>y \<in> set (emitted step s' xs). P y" by blast
    with r assms(1) Cons.prems show ?thesis by auto
  qed simp
qed simp

end

text \<open>
  An operator that, on guarded inputs, does to the abstraction of its state what an abstract step
  does: the abstraction of a whole run is the run of the abstract steps.
\<close>

fun guarded :: "('a \<Rightarrow> 'c \<Rightarrow> bool) \<Rightarrow> ('a \<Rightarrow> 'c \<Rightarrow> 'c) \<Rightarrow> 'c \<Rightarrow> 'a list \<Rightarrow> bool" where
  "guarded guard advance c [] = True"
| "guarded guard advance c (x # xs) = (guard x c \<and> guarded guard advance (advance x c) xs)"

lemma guarded_all: "(\<And>x c. x \<in> set xs \<Longrightarrow> guard x c) \<Longrightarrow> guarded guard advance c xs"
  by (induction xs arbitrary: c) simp_all

locale simulated_stage =
  fixes step :: "('s, 'a, 'err, 'b) stage"
    and inv :: "'s \<Rightarrow> bool"
    and abs :: "'s \<Rightarrow> 'c"
    and advance :: "'a \<Rightarrow> 'c \<Rightarrow> 'c"
    and guard :: "'a \<Rightarrow> 'c \<Rightarrow> bool"
  assumes step_simulated: "inv s \<Longrightarrow> guard x (abs s) \<Longrightarrow> step s x = Inr (ys, s') \<Longrightarrow>
    abs s' = advance x (abs s) \<and> inv s'"
begin

lemma run_simulated:
  assumes "inv s" and "accepts step s xs" and "guarded guard advance (abs s) xs"
  shows "abs (final_state step s xs) = fold advance xs (abs s) \<and> inv (final_state step s xs)"
  using assms
proof (induction xs arbitrary: s)
  case (Cons x xs)
  then obtain ys s' where r: "step s x = Inr (ys, s')" and acc: "accepts step s' xs"
    by (auto simp: accepts_Cons)
  with Cons.prems step_simulated [OF Cons.prems(1) _ r] have "abs s' = advance x (abs s)" "inv s'" by simp_all
  with Cons.IH [OF \<open>inv s'\<close> acc] Cons.prems r show ?case by simp
qed simp

end

subsection \<open>The open / continue / close discipline\<close>

text \<open>
  The protocol's streaming pattern, as an automaton over one entity: it is opened when closed,
  continued and closed when open; a new run forgets it, and a run may only end while it is closed.
\<close>

datatype token = Open | Use | Close | Forget | Barrier | Other

fun token_step :: "bool \<Rightarrow> token \<Rightarrow> bool option" where
  "token_step is_open Open = (if is_open then None else Some True)"
| "token_step is_open Use = (if is_open then Some True else None)"
| "token_step is_open Close = (if is_open then Some False else None)"
| "token_step is_open Forget = Some False"
| "token_step is_open Barrier = (if is_open then None else Some False)"
| "token_step is_open Other = Some is_open"

fun token_run :: "bool \<Rightarrow> token list \<Rightarrow> bool option" where
  "token_run is_open [] = Some is_open"
| "token_run is_open (t # ts) =
     (case token_step is_open t of None \<Rightarrow> None | Some is_open' \<Rightarrow> token_run is_open' ts)"

locale bracketed_stage = invariant_stage step inv
  for step :: "('s, 'a, 'err, 'b) stage" and inv :: "'s \<Rightarrow> bool" +
  fixes opened :: "'s \<Rightarrow> 'k \<Rightarrow> bool"
    and tok :: "'k \<Rightarrow> 'a \<Rightarrow> token"
  assumes step_token: "inv s \<Longrightarrow> step s x = Inr (ys, s') \<Longrightarrow>
    token_step (opened s k) (tok k x) = Some (opened s' k)"
begin

lemma accepted_token_run:
  assumes "inv s" and "accepts step s xs"
  shows "token_run (opened s k) (map (tok k) xs) = Some (opened (final_state step s xs) k)"
  using assms
proof (induction xs arbitrary: s)
  case (Cons x xs)
  then obtain ys s' where r: "step s x = Inr (ys, s')" and acc: "accepts step s' xs"
    by (auto simp: accepts_Cons)
  with Cons.prems have "inv s'" by (auto intro: step_inv)
  with Cons.IH acc r step_token [OF Cons.prems(1) r, of k] show ?case by simp
qed simp

lemma accepted_closed_at_barrier:
  assumes "inv s" and "accepts step s (xs @ [x])" and "tok k x = Barrier"
  shows "\<not> opened (final_state step s xs) k"
proof
  assume open_k: "opened (final_state step s xs) k"
  from assms(2) obtain ys s' where r: "step (final_state step s xs) x = Inr (ys, s')"
    by (auto simp: accepts_append accepts_Cons)
  from step_token [OF run_inv [OF assms(1)] r, of k] assms(3) open_k show False by simp
qed

end

end
