(* ===== verification/AGUI_Events.thy ===== *)
theory AGUI_Events
  imports AGUI_Prelude
begin

section \<open>Events and metadata\<close>

text \<open>
  The event of \<^verbatim>\<open>@ag-ui/core\<close>: the discriminator \<open>type\<close> as an enumeration
  (\<^verbatim>\<open>core/src/generated/types.ts\<close>) and the remaining properties as an object.
  A type the enumeration does not have (a legacy or a future one) is \<open>OTHER_TYPE\<close> with its
  name. Also here: \<open>mergeMetadata\<close> of \<^verbatim>\<open>core/src/metadata.ts\<close> and the scope of an
  activity snapshot of \<^verbatim>\<open>client/src/activity-history.ts\<close>.
\<close>

datatype event_type =
    TEXT_MESSAGE_START | TEXT_MESSAGE_CONTENT | TEXT_MESSAGE_END | TEXT_MESSAGE_CHUNK
  | TOOL_CALL_START | TOOL_CALL_ARGS | TOOL_CALL_END | TOOL_CALL_CHUNK | TOOL_CALL_RESULT
  | STATE_SNAPSHOT | STATE_DELTA | MESSAGES_SNAPSHOT | ACTIVITY_SNAPSHOT | ACTIVITY_DELTA
  | RAW | CUSTOM | RUN_STARTED | RUN_FINISHED | RUN_ERROR | STEP_STARTED | STEP_FINISHED
  | REASONING_START | REASONING_MESSAGE_START | REASONING_MESSAGE_CONTENT
  | REASONING_MESSAGE_END | REASONING_MESSAGE_CHUNK | REASONING_END
  | REASONING_ENCRYPTED_VALUE | SUBAGENT_STARTED | SUBAGENT_FINISHED | SUBAGENT_ERROR
  | OTHER_TYPE string

datatype event = Event (etype: event_type) (props: jobj)

definition attr :: "event \<Rightarrow> string \<Rightarrow> js" where
  "attr e k = oget (props e) k"

lemma attr_Event [simp]: "attr (Event t obj) k = oget obj k"
  by (simp add: attr_def)

text \<open>\<open>{ ...event, k: v }\<close> and the event without a property.\<close>

definition with_prop :: "string \<Rightarrow> js \<Rightarrow> event \<Rightarrow> event" where
  "with_prop k v e = Event (etype e) (oset k v (props e))"

definition without_prop :: "string \<Rightarrow> event \<Rightarrow> event" where
  "without_prop k e = Event (etype e) (odel k (props e))"

lemma etype_with_prop [simp]: "etype (with_prop k v e) = etype e"
  by (simp add: with_prop_def)

lemma etype_without_prop [simp]: "etype (without_prop k e) = etype e"
  by (simp add: without_prop_def)

lemma attr_with_prop [simp]: "attr (with_prop k v e) k' = (if k' = k then v else attr e k')"
  by (simp add: with_prop_def attr_def)

lemma attr_without_prop [simp]: "attr (without_prop k e) k' = (if k' = k then JUndef else attr e k')"
  by (simp add: without_prop_def attr_def)

text \<open>An event with string-valued properties, for concrete streams.\<close>

definition ev :: "event_type \<Rightarrow> (string \<times> string) list \<Rightarrow> event" where
  "ev t kvs = Event t (map (\<lambda>(k, v). (k, JStr v)) kvs)"

subsection \<open>Metadata\<close>

text \<open>
  \<open>mergeMetadata(existing, incoming)\<close>. An absent argument is \<open>JUndef\<close>. Spreading a value
  that is not an object contributes no properties.
\<close>

fun fields_of :: "js \<Rightarrow> jobj" where
  "fields_of (JObj obj) = obj"
| "fields_of _ = []"

definition mergeMetadata :: "js \<Rightarrow> js \<Rightarrow> js" where
  "mergeMetadata existing incoming =
     (if incoming = JUndef then existing
      else if existing = JUndef then JObj (spread [] (fields_of incoming))
      else JObj (spread (spread [] (fields_of existing)) (fields_of incoming)))"

lemma mergeMetadata_absent [simp]: "mergeMetadata existing JUndef = existing"
  by (simp add: mergeMetadata_def)

lemma mergeMetadata_defined: "incoming \<noteq> JUndef \<Longrightarrow> is_object (mergeMetadata existing incoming)"
  by (simp add: mergeMetadata_def)

end
