(* ===== verification/AGUI_Verify.thy ===== *)
theory AGUI_Verify
  imports AGUI_Events
begin

section \<open>The protocol verifier\<close>

text \<open>
  \<^verbatim>\<open>client/src/verify/verify.ts\<close>: the operator \<open>verifyEvents\<close>, a state machine that
  passes every event of a well-formed stream on and ends the stream with an error at the first
  event that breaks the protocol. The closure's variables are the record \<open>verify_state\<close>; each
  arm of the \<open>switch\<close> is a definition of its own; \<open>verify_event\<close> is the whole
  \<open>mergeMap\<close> body. An \<open>AGUIError\<close> is a constructor of \<open>verify_error\<close> that carries what
  the message text is built from.
\<close>

subsection \<open>State and errors\<close>

record owner_tables =
  own_message :: "(js \<times> js) list"
  own_toolCall :: "(js \<times> js) list"
  own_activity :: "(js \<times> js) list"
  own_reasoning :: "(js \<times> js) list"

record verify_state =
  activeMessages :: "js list"
  activeToolCalls :: "js list"
  activeReasoningSpans :: "js list"
  activeReasoningMessages :: "js list"
  owners :: owner_tables
  runFinished :: bool
  runError :: bool
  firstEventReceived :: bool
  activeSteps :: "(js \<times> js list) list"
  activeSubagents :: "js list"
  closedSubagents :: "js list"
  runStarted :: bool
  nullSubagentRunIdNoticed :: bool

definition no_owners :: owner_tables where
  "no_owners = \<lparr>own_message = [], own_toolCall = [], own_activity = [], own_reasoning = []\<rparr>"

definition initial_verify_state :: verify_state where
  "initial_verify_state =
     \<lparr>activeMessages = [], activeToolCalls = [], activeReasoningSpans = [],
      activeReasoningMessages = [], owners = no_owners, runFinished = False, runError = False,
      firstEventReceived = False, activeSteps = [], activeSubagents = [], closedSubagents = [],
      runStarted = False, nullSubagentRunIdNoticed = False\<rparr>"

datatype entity = Message | ToolCall | Activity | Reasoning | ReasoningSpan | Step | Subagent

datatype verify_error =
    RunAlreadyErrored event_type
  | RunAlreadyFinished event_type
  | FirstEventMustBeRunStarted
  | RunStillActive
  | LifecycleFieldNull event_type string
  | OutcomeTypeInvalid event_type js
  | InterruptIdsNull event_type
  | InterruptIdNotString event_type
  | InterruptOwnerNull js
  | MessageOwnerNull js
  | OwnerMismatch event_type js entity js js
  | AlreadyOpen event_type js
  | NotOpen event_type js
  | ParentMessageMismatch js js js
  | ReopenedUnderOtherParent js js js js
  | StepAlreadyActive js js
  | StepOpenElsewhere js js js
  | StepNotStarted js
  | FieldMissing event_type string
  | SubagentAlreadyActive js
  | SubagentAlreadyClosed js
  | ParentSubagentNotStarted js
  | StillActive entity "js list"
  | StepsStillActive "(js \<times> js list) list"

subsection \<open>Helpers of the closure\<close>

definition stepsFor :: "js \<Rightarrow> verify_state \<Rightarrow> js list \<times> verify_state" where
  "stepsFor owner st =
     (case map_of (activeSteps st) owner of
        Some m \<Rightarrow> (m, st)
      | None \<Rightarrow> ([], st\<lparr>activeSteps := AList.update owner [] (activeSteps st)\<rparr>))"

definition anyStepsActive :: "verify_state \<Rightarrow> bool" where
  "anyStepsActive st \<longleftrightarrow> list_ex (\<lambda>(owner, names). names \<noteq> []) (activeSteps st)"

definition resetRunState :: "verify_state \<Rightarrow> verify_state" where
  "resetRunState st =
     st\<lparr>nullSubagentRunIdNoticed := False, activeMessages := [], activeToolCalls := [],
        activeReasoningSpans := [], activeReasoningMessages := [], owners := no_owners,
        activeSteps := [], activeSubagents := [], closedSubagents := [],
        runFinished := False, runError := False, runStarted := True\<rparr>"

definition set_own :: "entity \<Rightarrow> js \<Rightarrow> js \<Rightarrow> owner_tables \<Rightarrow> owner_tables" where
  "set_own kind eid tag os =
     (case kind of
        Message \<Rightarrow> os\<lparr>own_message := AList.update eid tag (own_message os)\<rparr>
      | ToolCall \<Rightarrow> os\<lparr>own_toolCall := AList.update eid tag (own_toolCall os)\<rparr>
      | Activity \<Rightarrow> os\<lparr>own_activity := AList.update eid tag (own_activity os)\<rparr>
      | Reasoning \<Rightarrow> os\<lparr>own_reasoning := AList.update eid tag (own_reasoning os)\<rparr>
      | _ \<Rightarrow> os)"

definition get_own :: "entity \<Rightarrow> js \<Rightarrow> owner_tables \<Rightarrow> js option" where
  "get_own kind eid os =
     (case kind of
        Message \<Rightarrow> map_of (own_message os) eid
      | ToolCall \<Rightarrow> map_of (own_toolCall os) eid
      | Activity \<Rightarrow> map_of (own_activity os) eid
      | Reasoning \<Rightarrow> map_of (own_reasoning os) eid
      | _ \<Rightarrow> None)"

definition bucket_of_role :: "js \<Rightarrow> entity" where
  "bucket_of_role role =
     (if role = JStr ''reasoning'' then Reasoning
      else if role = JStr ''activity'' then Activity else Message)"

fun seedToolCalls :: "bool \<Rightarrow> js \<Rightarrow> js list \<Rightarrow> owner_tables \<Rightarrow> owner_tables" where
  "seedToolCalls authoritative tag [] os = os"
| "seedToolCalls authoritative tag (tc # tcs) os =
     seedToolCalls authoritative tag tcs
       (if is_string (jprop tc ''id'')
           \<and> (authoritative \<or> get_own ToolCall (jprop tc ''id'') os = None)
        then set_own ToolCall (jprop tc ''id'') tag os else os)"

definition seedMessage :: "bool \<Rightarrow> js \<Rightarrow> owner_tables \<Rightarrow> owner_tables" where
  "seedMessage authoritative msg os =
     (let mid = jprop msg ''id''; tag = jprop msg ''subagentRunId'';
          bucket = bucket_of_role (jprop msg ''role'') in
      seedToolCalls authoritative tag (elements (jprop msg ''toolCalls''))
        (if authoritative \<or> get_own bucket mid os = None then set_own bucket mid tag os else os))"

fun seedMessages :: "bool \<Rightarrow> js list \<Rightarrow> owner_tables \<Rightarrow> verify_error + owner_tables" where
  "seedMessages authoritative [] os = Inr os"
| "seedMessages authoritative (msg # msgs) os =
     (if \<not> is_string (jprop msg ''id'') then seedMessages authoritative msgs os
      else if jprop msg ''subagentRunId'' = JNull then Inl (MessageOwnerNull (jprop msg ''id''))
      else seedMessages authoritative msgs (seedMessage authoritative msg os))"

definition seedOwnersFromMessages ::
    "js \<Rightarrow> bool \<Rightarrow> verify_state \<Rightarrow> verify_error + verify_state" where
  "seedOwnersFromMessages rawMessages authoritative st =
     (case seedMessages authoritative (elements rawMessages) (owners st) of
        Inl err \<Rightarrow> Inl err
      | Inr os \<Rightarrow> Inr (st\<lparr>owners := os\<rparr>))"

definition subagentTagError ::
    "event_type \<Rightarrow> js \<Rightarrow> js option \<Rightarrow> entity \<Rightarrow> js \<Rightarrow> verify_error option" where
  "subagentTagError evType tag owner kind eid =
     (if tag = JUndef then None
      else case owner of
             None \<Rightarrow> None
           | Some own \<Rightarrow> if own \<noteq> tag then Some (OwnerMismatch evType tag kind eid own) else None)"

text \<open>\<open>if (subErr) return throwError(...)\<close>, then the rest of the arm.\<close>

definition unless_error :: "verify_error option \<Rightarrow> verify_state \<Rightarrow> verify_error + verify_state" where
  "unless_error err st = (case err of Some x \<Rightarrow> Inl x | None \<Rightarrow> Inr st)"

abbreviation tag_of :: "event \<Rightarrow> js" where
  "tag_of e \<equiv> attr e ''subagentRunId''"

subsection \<open>Checks before the switch\<close>

definition verify_run_phase :: "verify_state \<Rightarrow> event_type \<Rightarrow> verify_error + verify_state" where
  "verify_run_phase st t =
     (if runError st \<and> t \<noteq> RUN_STARTED then Inl (RunAlreadyErrored t)
      else if runFinished st \<and> t \<noteq> RUN_ERROR \<and> t \<noteq> RUN_STARTED then Inl (RunAlreadyFinished t)
      else if \<not> firstEventReceived st then
        (if t \<noteq> RUN_STARTED \<and> t \<noteq> RUN_ERROR then Inl FirstEventMustBeRunStarted
         else Inr (st\<lparr>firstEventReceived := True\<rparr>))
      else if t = RUN_STARTED then
        (if runStarted st \<and> \<not> runFinished st \<and> \<not> runError st then Inl RunStillActive
         else if runFinished st \<or> runError st then Inr (resetRunState st) else Inr st)
      else Inr st)"

definition drop_null_tag :: "verify_state \<Rightarrow> event \<Rightarrow> verify_state \<times> event" where
  "drop_null_tag st e =
     (if tag_of e = JNull
      then (st\<lparr>nullSubagentRunIdNoticed := True\<rparr>, without_prop ''subagentRunId'' e)
      else (st, e))"

definition lifecycleOptionals :: "event_type \<Rightarrow> string list" where
  "lifecycleOptionals t =
     (if t = SUBAGENT_STARTED
      then [''description'', ''parentSubagentRunId'', ''parentToolCallId'', ''parentMessageId'']
      else if t = SUBAGENT_FINISHED then [''outcome''] else [''code''])"

definition check_lifecycle :: "event \<Rightarrow> verify_error option" where
  "check_lifecycle e =
     (let t = etype e; outcome = attr e ''outcome''; ids = jprop outcome ''interruptIds'' in
      if t \<noteq> SUBAGENT_STARTED \<and> t \<noteq> SUBAGENT_FINISHED \<and> t \<noteq> SUBAGENT_ERROR then None
      else case find (\<lambda>k. attr e k = JNull) (lifecycleOptionals t) of
        Some k \<Rightarrow> Some (LifecycleFieldNull t k)
      | None \<Rightarrow>
          if \<not> nullish outcome \<and> jprop outcome ''type'' \<noteq> JStr ''success''
             \<and> jprop outcome ''type'' \<noteq> JStr ''suspended''
          then Some (OutcomeTypeInvalid t (jprop outcome ''type''))
          else if truthy outcome \<and> ids = JNull then Some (InterruptIdsNull t)
          else if truthy outcome \<and> list_ex (\<lambda>i. \<not> is_string i) (elements ids)
          then Some (InterruptIdNotString t)
          else None)"

definition check_interrupt_owners :: "event \<Rightarrow> verify_error option" where
  "check_interrupt_owners e =
     (let outcome = attr e ''outcome'' in
      if etype e = RUN_FINISHED \<and> jprop outcome ''type'' = JStr ''interrupt'' then
        map_option (\<lambda>i. InterruptOwnerNull (jprop i ''id''))
          (find (\<lambda>i. jprop i ''subagentRunId'' = JNull) (elements (jprop outcome ''interrupts'')))
      else None)"

subsection \<open>Text messages\<close>

definition verify_text_message_start :: "verify_state \<Rightarrow> event \<Rightarrow> verify_error + verify_state" where
  "verify_text_message_start st e =
     (let messageId = attr e ''messageId''; existing = get_own Message messageId (owners st) in
      if messageId \<in> set (activeMessages st) then Inl (AlreadyOpen (etype e) messageId)
      else case subagentTagError (etype e) (tag_of e) existing Message messageId of
        Some err \<Rightarrow> Inl err
      | None \<Rightarrow>
          Inr (st\<lparr>activeMessages := sadd messageId (activeMessages st),
                  owners := (if existing = None then set_own Message messageId (tag_of e) (owners st)
                             else owners st)\<rparr>))"

definition verify_text_message_content :: "verify_state \<Rightarrow> event \<Rightarrow> verify_error + verify_state" where
  "verify_text_message_content st e =
     (let messageId = attr e ''messageId'' in
      if messageId \<notin> set (activeMessages st) then Inl (NotOpen (etype e) messageId)
      else unless_error
             (subagentTagError (etype e) (tag_of e) (get_own Message messageId (owners st))
                Message messageId) st)"

definition verify_text_message_end :: "verify_state \<Rightarrow> event \<Rightarrow> verify_error + verify_state" where
  "verify_text_message_end st e =
     (let messageId = attr e ''messageId'' in
      if messageId \<notin> set (activeMessages st) then Inl (NotOpen (etype e) messageId)
      else unless_error
             (subagentTagError (etype e) (tag_of e) (get_own Message messageId (owners st))
                Message messageId)
             (st\<lparr>activeMessages := sdel messageId (activeMessages st)\<rparr>))"

subsection \<open>Tool calls\<close>

text \<open>The owner a tool call inherits from the message that carries it.\<close>

definition parent_owner :: "verify_state \<Rightarrow> event \<Rightarrow> js option" where
  "parent_owner st e =
     (if attr e ''parentMessageId'' = JUndef then None
      else get_own Message (attr e ''parentMessageId'') (owners st))"

definition verify_tool_call_start :: "verify_state \<Rightarrow> event \<Rightarrow> verify_error + verify_state" where
  "verify_tool_call_start st e =
     (let toolCallId = attr e ''toolCallId''; parentMessageId = attr e ''parentMessageId'';
          eventTag = tag_of e; inheritedOwner = parent_owner st e;
          existing = get_own ToolCall toolCallId (owners st) in
      if toolCallId \<in> set (activeToolCalls st) then Inl (AlreadyOpen (etype e) toolCallId)
      else if eventTag \<noteq> JUndef \<and> inheritedOwner \<noteq> None \<and> inheritedOwner \<noteq> Some eventTag
      then Inl (ParentMessageMismatch eventTag parentMessageId (the inheritedOwner))
      else case subagentTagError (etype e) eventTag existing ToolCall toolCallId of
        Some err \<Rightarrow> Inl err
      | None \<Rightarrow>
          if existing \<noteq> None \<and> eventTag = JUndef \<and> inheritedOwner \<noteq> None
             \<and> inheritedOwner \<noteq> existing
          then Inl (ReopenedUnderOtherParent toolCallId (the existing) parentMessageId
                      (the inheritedOwner))
          else
            Inr (st\<lparr>activeToolCalls := sadd toolCallId (activeToolCalls st),
                    owners :=
                      (if existing = None
                       then set_own ToolCall toolCallId
                              (if eventTag \<noteq> JUndef then eventTag
                               else case inheritedOwner of Some own \<Rightarrow> own | None \<Rightarrow> JUndef)
                              (owners st)
                       else owners st)\<rparr>))"

definition verify_tool_call_args :: "verify_state \<Rightarrow> event \<Rightarrow> verify_error + verify_state" where
  "verify_tool_call_args st e =
     (let toolCallId = attr e ''toolCallId'' in
      if toolCallId \<notin> set (activeToolCalls st) then Inl (NotOpen (etype e) toolCallId)
      else unless_error
             (subagentTagError (etype e) (tag_of e) (get_own ToolCall toolCallId (owners st))
                ToolCall toolCallId) st)"

definition verify_tool_call_end :: "verify_state \<Rightarrow> event \<Rightarrow> verify_error + verify_state" where
  "verify_tool_call_end st e =
     (let toolCallId = attr e ''toolCallId'' in
      if toolCallId \<notin> set (activeToolCalls st) then Inl (NotOpen (etype e) toolCallId)
      else unless_error
             (subagentTagError (etype e) (tag_of e) (get_own ToolCall toolCallId (owners st))
                ToolCall toolCallId)
             (st\<lparr>activeToolCalls := sdel toolCallId (activeToolCalls st)\<rparr>))"

definition verify_tool_call_result :: "verify_state \<Rightarrow> event \<Rightarrow> verify_error + verify_state" where
  "verify_tool_call_result st e =
     Inr (if is_string (attr e ''messageId'')
          then st\<lparr>owners := set_own Message (attr e ''messageId'') (tag_of e) (owners st)\<rparr>
          else st)"

subsection \<open>Steps\<close>

definition verify_step_started :: "verify_state \<Rightarrow> event \<Rightarrow> verify_error + verify_state" where
  "verify_step_started st e =
     (let stepName = attr e ''stepName''; stepOwner = tag_of e;
          (names, st1) = stepsFor stepOwner st in
      if stepName \<in> set names then Inl (StepAlreadyActive stepName stepOwner)
      else Inr (st1\<lparr>activeSteps := AList.update stepOwner (sadd stepName names) (activeSteps st1)\<rparr>))"

definition verify_step_finished :: "verify_state \<Rightarrow> event \<Rightarrow> verify_error + verify_state" where
  "verify_step_finished st e =
     (let stepName = attr e ''stepName''; stepOwner = tag_of e;
          (names, st1) = stepsFor stepOwner st in
      if stepName \<notin> set names then
        (case find (\<lambda>(owner, ns). owner \<noteq> stepOwner \<and> stepName \<in> set ns) (activeSteps st1) of
           Some (otherOwner, _) \<Rightarrow> Inl (StepOpenElsewhere stepName stepOwner otherOwner)
         | None \<Rightarrow> Inl (StepNotStarted stepName))
      else Inr (st1\<lparr>activeSteps := AList.update stepOwner (sdel stepName names) (activeSteps st1)\<rparr>))"

subsection \<open>Activities and reasoning\<close>

definition verify_activity_snapshot :: "verify_state \<Rightarrow> event \<Rightarrow> verify_error + verify_state" where
  "verify_activity_snapshot st e =
     (let messageId = attr e ''messageId'' in
      Inr (if get_own Activity messageId (owners st) = None \<or> attr e ''replace'' \<noteq> JBool False
           then st\<lparr>owners := set_own Activity messageId (tag_of e) (owners st)\<rparr>
           else st))"

definition verify_activity_delta :: "verify_state \<Rightarrow> event \<Rightarrow> verify_error + verify_state" where
  "verify_activity_delta st e =
     (let messageId = attr e ''messageId'' in
      unless_error
        (subagentTagError (etype e) (tag_of e) (get_own Activity messageId (owners st))
           Activity messageId) st)"

definition verify_reasoning_open :: "verify_state \<Rightarrow> event \<Rightarrow> verify_error + verify_state" where
  "verify_reasoning_open st e =
     (let messageId = attr e ''messageId''; isSpan = (etype e = REASONING_START);
          open_ids = (if isSpan then activeReasoningSpans st else activeReasoningMessages st);
          existing = get_own Reasoning messageId (owners st) in
      if messageId \<in> set open_ids then Inl (AlreadyOpen (etype e) messageId)
      else case subagentTagError (etype e) (tag_of e) existing Reasoning messageId of
        Some err \<Rightarrow> Inl err
      | None \<Rightarrow>
          let st1 = (if isSpan then st\<lparr>activeReasoningSpans := sadd messageId open_ids\<rparr>
                     else st\<lparr>activeReasoningMessages := sadd messageId open_ids\<rparr>)
          in Inr (st1\<lparr>owners := (if existing = None
                                 then set_own Reasoning messageId (tag_of e) (owners st1)
                                 else owners st1)\<rparr>))"

definition verify_reasoning_continue :: "verify_state \<Rightarrow> event \<Rightarrow> verify_error + verify_state" where
  "verify_reasoning_continue st e =
     (let messageId = attr e ''messageId''; isSpan = (etype e = REASONING_END);
          open_ids = (if isSpan then activeReasoningSpans st else activeReasoningMessages st) in
      if messageId \<notin> set open_ids then Inl (NotOpen (etype e) messageId)
      else unless_error
             (subagentTagError (etype e) (tag_of e) (get_own Reasoning messageId (owners st))
                Reasoning messageId)
             (if etype e = REASONING_END
              then st\<lparr>activeReasoningSpans := sdel messageId open_ids\<rparr>
              else if etype e = REASONING_MESSAGE_END
              then st\<lparr>activeReasoningMessages := sdel messageId open_ids\<rparr>
              else st))"

definition encrypted_value_owner :: "verify_state \<Rightarrow> event \<Rightarrow> js option" where
  "encrypted_value_owner st e =
     (let entityId = attr e ''entityId''; subtype = attr e ''subtype'' in
      if subtype = JStr ''tool-call'' then get_own ToolCall entityId (owners st)
      else if subtype = JStr ''message'' then
        (case get_own Message entityId (owners st) of
           Some own \<Rightarrow> Some own
         | None \<Rightarrow> get_own Reasoning entityId (owners st))
      else get_own Reasoning entityId (owners st))"

definition verify_reasoning_encrypted_value ::
    "verify_state \<Rightarrow> event \<Rightarrow> verify_error + verify_state" where
  "verify_reasoning_encrypted_value st e =
     (let subtype = attr e ''subtype'' in
      unless_error
        (subagentTagError (etype e) (tag_of e) (encrypted_value_owner st e)
           (if subtype = JStr ''tool-call'' then ToolCall
            else if subtype = JStr ''message'' then Message else Reasoning)
           (attr e ''entityId'')) st)"

subsection \<open>Subagents\<close>

definition verify_subagent_started :: "verify_state \<Rightarrow> event \<Rightarrow> verify_error + verify_state" where
  "verify_subagent_started st e =
     (let subagentRunId = tag_of e; parent = attr e ''parentSubagentRunId'' in
      if \<not> is_string subagentRunId then Inl (FieldMissing (etype e) ''subagentRunId'')
      else if \<not> is_string (attr e ''name'') then Inl (FieldMissing (etype e) ''name'')
      else if subagentRunId \<in> set (activeSubagents st) then Inl (SubagentAlreadyActive subagentRunId)
      else if subagentRunId \<in> set (closedSubagents st) then Inl (SubagentAlreadyClosed subagentRunId)
      else if parent \<noteq> JUndef \<and> parent \<notin> set (activeSubagents st)
              \<and> parent \<notin> set (closedSubagents st)
      then Inl (ParentSubagentNotStarted parent)
      else Inr (st\<lparr>activeSubagents := sadd subagentRunId (activeSubagents st)\<rparr>))"

definition verify_subagent_terminal :: "verify_state \<Rightarrow> event \<Rightarrow> verify_error + verify_state" where
  "verify_subagent_terminal st e =
     (let subagentRunId = tag_of e in
      if \<not> is_string subagentRunId then Inl (FieldMissing (etype e) ''subagentRunId'')
      else if etype e = SUBAGENT_ERROR \<and> \<not> is_string (attr e ''message'')
      then Inl (FieldMissing (etype e) ''message'')
      else if subagentRunId \<notin> set (activeSubagents st) then Inl (NotOpen (etype e) subagentRunId)
      else Inr (st\<lparr>activeSubagents := sdel subagentRunId (activeSubagents st),
                   closedSubagents := sadd subagentRunId (closedSubagents st)\<rparr>))"

subsection \<open>Runs and snapshots\<close>

definition verify_messages_snapshot :: "verify_state \<Rightarrow> event \<Rightarrow> verify_error + verify_state" where
  "verify_messages_snapshot st e = seedOwnersFromMessages (attr e ''messages'') True st"

definition verify_run_started :: "verify_state \<Rightarrow> event \<Rightarrow> verify_error + verify_state" where
  "verify_run_started st e =
     seedOwnersFromMessages (jprop (attr e ''input'') ''messages'') False (st\<lparr>runStarted := True\<rparr>)"

definition verify_run_finished :: "verify_state \<Rightarrow> event \<Rightarrow> verify_error + verify_state" where
  "verify_run_finished st e =
     (if anyStepsActive st then Inl (StepsStillActive (activeSteps st))
      else if activeMessages st \<noteq> [] then Inl (StillActive Message (activeMessages st))
      else if activeReasoningMessages st \<noteq> []
      then Inl (StillActive Reasoning (activeReasoningMessages st))
      else if activeReasoningSpans st \<noteq> []
      then Inl (StillActive ReasoningSpan (activeReasoningSpans st))
      else if activeToolCalls st \<noteq> [] then Inl (StillActive ToolCall (activeToolCalls st))
      else if activeSubagents st \<noteq> [] then Inl (StillActive Subagent (activeSubagents st))
      else Inr (st\<lparr>runFinished := True\<rparr>))"

definition verify_run_error :: "verify_state \<Rightarrow> event \<Rightarrow> verify_error + verify_state" where
  "verify_run_error st e = Inr (st\<lparr>runError := True\<rparr>)"

subsection \<open>The operator\<close>

definition verify_switch :: "verify_state \<Rightarrow> event \<Rightarrow> verify_error + verify_state" where
  "verify_switch st e =
     (case etype e of
        TEXT_MESSAGE_START \<Rightarrow> verify_text_message_start st e
      | TEXT_MESSAGE_CONTENT \<Rightarrow> verify_text_message_content st e
      | TEXT_MESSAGE_END \<Rightarrow> verify_text_message_end st e
      | TOOL_CALL_START \<Rightarrow> verify_tool_call_start st e
      | TOOL_CALL_ARGS \<Rightarrow> verify_tool_call_args st e
      | TOOL_CALL_END \<Rightarrow> verify_tool_call_end st e
      | STEP_STARTED \<Rightarrow> verify_step_started st e
      | STEP_FINISHED \<Rightarrow> verify_step_finished st e
      | ACTIVITY_SNAPSHOT \<Rightarrow> verify_activity_snapshot st e
      | TOOL_CALL_RESULT \<Rightarrow> verify_tool_call_result st e
      | REASONING_START \<Rightarrow> verify_reasoning_open st e
      | REASONING_MESSAGE_START \<Rightarrow> verify_reasoning_open st e
      | REASONING_MESSAGE_CONTENT \<Rightarrow> verify_reasoning_continue st e
      | REASONING_MESSAGE_END \<Rightarrow> verify_reasoning_continue st e
      | REASONING_END \<Rightarrow> verify_reasoning_continue st e
      | REASONING_ENCRYPTED_VALUE \<Rightarrow> verify_reasoning_encrypted_value st e
      | ACTIVITY_DELTA \<Rightarrow> verify_activity_delta st e
      | SUBAGENT_STARTED \<Rightarrow> verify_subagent_started st e
      | SUBAGENT_FINISHED \<Rightarrow> verify_subagent_terminal st e
      | SUBAGENT_ERROR \<Rightarrow> verify_subagent_terminal st e
      | MESSAGES_SNAPSHOT \<Rightarrow> verify_messages_snapshot st e
      | RUN_STARTED \<Rightarrow> verify_run_started st e
      | RUN_FINISHED \<Rightarrow> verify_run_finished st e
      | RUN_ERROR \<Rightarrow> verify_run_error st e
      | _ \<Rightarrow> Inr st)"

definition verify_event :: "(verify_state, event, verify_error, event) stage" where
  "verify_event st e =
     (case verify_run_phase st (etype e) of
        Inl err \<Rightarrow> Inl err
      | Inr st1 \<Rightarrow>
          let (st2, e2) = drop_null_tag st1 e in
          case check_lifecycle e2 of
            Some err \<Rightarrow> Inl err
          | None \<Rightarrow>
              (case check_interrupt_owners e2 of
                 Some err \<Rightarrow> Inl err
               | None \<Rightarrow>
                   (case verify_switch st2 e2 of
                      Inl err \<Rightarrow> Inl err
                    | Inr st3 \<Rightarrow> Inr ([e2], st3))))"

definition verifyEvents :: "event list \<Rightarrow> event list \<times> verify_error option" where
  "verifyEvents es =
     (emitted verify_event initial_verify_state es, failure verify_event initial_verify_state es)"

subsection \<open>What the verifier emits\<close>

text \<open>The event the verifier passes on: the input without an explicit \<open>subagentRunId: null\<close>.\<close>

definition clean :: "event \<Rightarrow> event" where
  "clean e = (if tag_of e = JNull then without_prop ''subagentRunId'' e else e)"

lemma etype_clean [simp]: "etype (clean e) = etype e"
  by (simp add: clean_def)

lemma attr_clean: "attr (clean e) k = (if k = ''subagentRunId'' then null_to_undef (attr e k) else attr e k)"
  by (auto simp: clean_def null_to_undef_def)

lemma drop_null_tag_eq:
  "drop_null_tag st e =
     (st\<lparr>nullSubagentRunIdNoticed := (nullSubagentRunIdNoticed st \<or> tag_of e = JNull)\<rparr>, clean e)"
  by (simp add: drop_null_tag_def clean_def)

lemma verify_event_InrD:
  assumes "verify_event st e = Inr (ys, st')"
  obtains st1 where "verify_run_phase st (etype e) = Inr st1" and "ys = [clean e]"
    and "verify_switch (st1\<lparr>nullSubagentRunIdNoticed :=
           (nullSubagentRunIdNoticed st1 \<or> tag_of e = JNull)\<rparr>) (clean e) = Inr st'"
  using assms
  by (auto simp: verify_event_def drop_null_tag_eq Let_def split: sum.splits option.splits)

lemma verify_event_emits: "verify_event st e = Inr (ys, st') \<Longrightarrow> ys = [clean e]"
  by (auto elim: verify_event_InrD)

subsection \<open>Owner tables\<close>

definition has_bucket :: "entity \<Rightarrow> bool" where
  "has_bucket k \<longleftrightarrow> k = Message \<or> k = ToolCall \<or> k = Activity \<or> k = Reasoning"

lemma get_own_set_own [simp]:
  "get_own k x (set_own k' y t os) =
     (if k = k' \<and> x = y \<and> has_bucket k then Some t else get_own k x os)"
  by (cases k; cases k')
    (simp_all add: get_own_def set_own_def has_bucket_def update_conv')

lemma has_bucket_simps [simp]:
  "has_bucket Message" "has_bucket ToolCall" "has_bucket Activity" "has_bucket Reasoning"
  by (simp_all add: has_bucket_def)

lemma has_bucket_of_role [simp]: "has_bucket (bucket_of_role r)"
  by (simp add: bucket_of_role_def)

lemma bucket_of_role_not_ToolCall [simp]: "bucket_of_role r \<noteq> ToolCall"
  by (simp add: bucket_of_role_def)

lemma get_own_no_owners [simp]: "get_own k x no_owners = None"
  by (cases k) (simp_all add: get_own_def no_owners_def)

lemma seedToolCalls_other [simp]:
  "k \<noteq> ToolCall \<Longrightarrow> get_own k x (seedToolCalls auth tag tcs os) = get_own k x os"
  by (induction tcs arbitrary: os) auto

lemma seedToolCalls_keeps:
  "get_own k x os \<noteq> None \<Longrightarrow> get_own k x (seedToolCalls auth tag tcs os) \<noteq> None"
  by (induction tcs arbitrary: os) auto

lemma seedToolCalls_history:
  "get_own k x os = Some t \<Longrightarrow> get_own k x (seedToolCalls False tag tcs os) = Some t"
proof (induction tcs arbitrary: os)
  case (Cons tc tcs)
  have "get_own k x (if is_string (jprop tc ''id'') \<and> (False \<or> get_own ToolCall (jprop tc ''id'') os = None)
          then set_own ToolCall (jprop tc ''id'') tag os else os) = Some t"
    using Cons.prems by auto
  then show ?case by (simp add: Cons.IH)
qed simp

lemma seedMessage_keeps: "get_own k x os \<noteq> None \<Longrightarrow> get_own k x (seedMessage auth msg os) \<noteq> None"
  unfolding seedMessage_def Let_def by (rule seedToolCalls_keeps) auto

lemma seedMessage_history: "get_own k x os = Some t \<Longrightarrow> get_own k x (seedMessage False msg os) = Some t"
  unfolding seedMessage_def Let_def by (rule seedToolCalls_history) auto

lemma seedMessages_keeps:
  "seedMessages auth ms os = Inr os' \<Longrightarrow> get_own k x os \<noteq> None \<Longrightarrow> get_own k x os' \<noteq> None"
proof (induction ms arbitrary: os)
  case (Cons msg msgs)
  show ?case
  proof (cases "is_string (jprop msg ''id'')")
    case True
    with Cons.prems have "seedMessages auth msgs (seedMessage auth msg os) = Inr os'"
      by (simp split: if_splits)
    then show ?thesis using seedMessage_keeps [OF Cons.prems(2)] by (rule Cons.IH)
  next
    case False
    with Cons show ?thesis by simp
  qed
qed simp

lemma seedMessages_history:
  "seedMessages False ms os = Inr os' \<Longrightarrow> get_own k x os = Some t \<Longrightarrow> get_own k x os' = Some t"
proof (induction ms arbitrary: os)
  case (Cons msg msgs)
  show ?case
  proof (cases "is_string (jprop msg ''id'')")
    case True
    with Cons.prems have "seedMessages False msgs (seedMessage False msg os) = Inr os'"
      by (simp split: if_splits)
    then show ?thesis using seedMessage_history [OF Cons.prems(2)] by (rule Cons.IH)
  next
    case False
    with Cons show ?thesis by simp
  qed
qed simp

subsection \<open>The run phases\<close>

text \<open>
  The abstract specification of the run life cycle: what may follow what, whatever else the
  events carry.
\<close>

datatype phase = NotStarted | Active | Finished | Errored

fun phase_step :: "phase \<Rightarrow> event_type \<Rightarrow> phase option" where
  "phase_step NotStarted t =
     (if t = RUN_STARTED then Some Active else if t = RUN_ERROR then Some Errored else None)"
| "phase_step Active t =
     (if t = RUN_STARTED then None else if t = RUN_FINISHED then Some Finished
      else if t = RUN_ERROR then Some Errored else Some Active)"
| "phase_step Finished t =
     (if t = RUN_STARTED then Some Active else if t = RUN_ERROR then Some Errored else None)"
| "phase_step Errored t = (if t = RUN_STARTED then Some Active else None)"

fun phase_run :: "phase \<Rightarrow> event_type list \<Rightarrow> phase option" where
  "phase_run p [] = Some p"
| "phase_run p (t # ts) = (case phase_step p t of None \<Rightarrow> None | Some p' \<Rightarrow> phase_run p' ts)"

definition phase_of :: "verify_state \<Rightarrow> phase" where
  "phase_of st = (if runError st then Errored else if runFinished st then Finished
                  else if firstEventReceived st then Active else NotStarted)"

subsection \<open>The invariant\<close>

datatype entity_key =
    MessageKey js | ToolCallKey js | SpanKey js | ReasoningKey js | SubagentKey js | StepKey js js

fun is_open :: "verify_state \<Rightarrow> entity_key \<Rightarrow> bool" where
  "is_open st (MessageKey k) = (k \<in> set (activeMessages st))"
| "is_open st (ToolCallKey k) = (k \<in> set (activeToolCalls st))"
| "is_open st (SpanKey k) = (k \<in> set (activeReasoningSpans st))"
| "is_open st (ReasoningKey k) = (k \<in> set (activeReasoningMessages st))"
| "is_open st (SubagentKey k) = (k \<in> set (activeSubagents st))"
| "is_open st (StepKey own n) =
     (case map_of (activeSteps st) own of None \<Rightarrow> False | Some ns \<Rightarrow> n \<in> set ns)"

definition owned :: "verify_state \<Rightarrow> bool" where
  "owned st \<longleftrightarrow>
     (\<forall>x \<in> set (activeMessages st). get_own Message x (owners st) \<noteq> None) \<and>
     (\<forall>x \<in> set (activeToolCalls st). get_own ToolCall x (owners st) \<noteq> None) \<and>
     (\<forall>x \<in> set (activeReasoningSpans st). get_own Reasoning x (owners st) \<noteq> None) \<and>
     (\<forall>x \<in> set (activeReasoningMessages st). get_own Reasoning x (owners st) \<noteq> None)"

definition phase_inv :: "verify_state \<Rightarrow> bool" where
  "phase_inv st \<longleftrightarrow>
     (firstEventReceived st \<longrightarrow> runStarted st \<or> runError st) \<and>
     (\<not> firstEventReceived st \<longrightarrow> \<not> runFinished st \<and> \<not> runError st) \<and>
     (phase_of st = NotStarted \<or> phase_of st = Finished \<longrightarrow> (\<forall>k. \<not> is_open st k))"

definition subagent_inv :: "verify_state \<Rightarrow> bool" where
  "subagent_inv st \<longleftrightarrow> set (activeSubagents st) \<inter> set (closedSubagents st) = {}"

definition steps_inv :: "verify_state \<Rightarrow> bool" where
  "steps_inv st \<longleftrightarrow> distinct (map fst (activeSteps st))"

definition verify_inv :: "verify_state \<Rightarrow> bool" where
  "verify_inv st \<longleftrightarrow> owned st \<and> phase_inv st \<and> subagent_inv st \<and> steps_inv st"

subsection \<open>Accepting behaviour of the arms\<close>

lemma unless_error_Inr [simp]: "unless_error err st = Inr st' \<longleftrightarrow> err = None \<and> st' = st"
  by (auto simp: unless_error_def split: option.splits)

definition first_owner :: "entity \<Rightarrow> js \<Rightarrow> js \<Rightarrow> owner_tables \<Rightarrow> owner_tables" where
  "first_owner kind x t os = (if get_own kind x os = None then set_own kind x t os else os)"

lemma get_own_first_owner [simp]:
  "get_own k x (first_owner k' y t os) =
     (if k = k' \<and> x = y \<and> has_bucket k \<and> get_own k x os = None then Some t else get_own k x os)"
  by (auto simp: first_owner_def)

named_theorems verify_success \<open>the accepting behaviour of each arm of the switch\<close>

lemma text_message_start_Inr [verify_success]:
  "verify_text_message_start st e = Inr st' \<longleftrightarrow>
     attr e ''messageId'' \<notin> set (activeMessages st) \<and>
     subagentTagError (etype e) (tag_of e) (get_own Message (attr e ''messageId'') (owners st))
       Message (attr e ''messageId'') = None \<and>
     st' = st\<lparr>activeMessages := sadd (attr e ''messageId'') (activeMessages st),
              owners := first_owner Message (attr e ''messageId'') (tag_of e) (owners st)\<rparr>"
  by (auto simp: verify_text_message_start_def first_owner_def Let_def split: option.splits)

lemma text_message_content_Inr [verify_success]:
  "verify_text_message_content st e = Inr st' \<longleftrightarrow>
     attr e ''messageId'' \<in> set (activeMessages st) \<and>
     subagentTagError (etype e) (tag_of e) (get_own Message (attr e ''messageId'') (owners st))
       Message (attr e ''messageId'') = None \<and> st' = st"
  by (auto simp: verify_text_message_content_def Let_def)

lemma text_message_end_Inr [verify_success]:
  "verify_text_message_end st e = Inr st' \<longleftrightarrow>
     attr e ''messageId'' \<in> set (activeMessages st) \<and>
     subagentTagError (etype e) (tag_of e) (get_own Message (attr e ''messageId'') (owners st))
       Message (attr e ''messageId'') = None \<and>
     st' = st\<lparr>activeMessages := sdel (attr e ''messageId'') (activeMessages st)\<rparr>"
  by (auto simp: verify_text_message_end_def Let_def)

definition call_owner :: "verify_state \<Rightarrow> event \<Rightarrow> js" where
  "call_owner st e =
     (if tag_of e \<noteq> JUndef then tag_of e
      else case parent_owner st e of Some own \<Rightarrow> own | None \<Rightarrow> JUndef)"

lemma tool_call_start_Inr [verify_success]:
  "verify_tool_call_start st e = Inr st' \<longleftrightarrow>
     attr e ''toolCallId'' \<notin> set (activeToolCalls st) \<and>
     (tag_of e \<noteq> JUndef \<longrightarrow> parent_owner st e = None \<or> parent_owner st e = Some (tag_of e)) \<and>
     subagentTagError (etype e) (tag_of e) (get_own ToolCall (attr e ''toolCallId'') (owners st))
       ToolCall (attr e ''toolCallId'') = None \<and>
     (tag_of e = JUndef \<longrightarrow> get_own ToolCall (attr e ''toolCallId'') (owners st) = None \<or>
        parent_owner st e = None \<or>
        parent_owner st e = get_own ToolCall (attr e ''toolCallId'') (owners st)) \<and>
     st' = st\<lparr>activeToolCalls := sadd (attr e ''toolCallId'') (activeToolCalls st),
              owners := first_owner ToolCall (attr e ''toolCallId'') (call_owner st e) (owners st)\<rparr>"
  by (cases "tag_of e = JUndef"; cases "get_own ToolCall (attr e ''toolCallId'') (owners st)"; cases "parent_owner st e")
   (auto simp: verify_tool_call_start_def first_owner_def call_owner_def Let_def subagentTagError_def)

lemma tool_call_args_Inr [verify_success]:
  "verify_tool_call_args st e = Inr st' \<longleftrightarrow>
     attr e ''toolCallId'' \<in> set (activeToolCalls st) \<and>
     subagentTagError (etype e) (tag_of e) (get_own ToolCall (attr e ''toolCallId'') (owners st))
       ToolCall (attr e ''toolCallId'') = None \<and> st' = st"
  by (auto simp: verify_tool_call_args_def Let_def)

lemma tool_call_end_Inr [verify_success]:
  "verify_tool_call_end st e = Inr st' \<longleftrightarrow>
     attr e ''toolCallId'' \<in> set (activeToolCalls st) \<and>
     subagentTagError (etype e) (tag_of e) (get_own ToolCall (attr e ''toolCallId'') (owners st))
       ToolCall (attr e ''toolCallId'') = None \<and>
     st' = st\<lparr>activeToolCalls := sdel (attr e ''toolCallId'') (activeToolCalls st)\<rparr>"
  by (auto simp: verify_tool_call_end_def Let_def)

definition open_steps :: "verify_state \<Rightarrow> js \<Rightarrow> js list" where
  "open_steps st own = (case map_of (activeSteps st) own of None \<Rightarrow> [] | Some ns \<Rightarrow> ns)"

lemma stepsFor_eq:
  "stepsFor own st =
     (open_steps st own,
      st\<lparr>activeSteps := (if map_of (activeSteps st) own = None
                        then AList.update own [] (activeSteps st) else activeSteps st)\<rparr>)"
  by (auto simp: stepsFor_def open_steps_def split: option.splits)

lemma alist_update_twice [simp]: "AList.update k v (AList.update k w m) = AList.update k v m"
  by (induction m) auto

lemma step_started_Inr [verify_success]:
  "verify_step_started st e = Inr st' \<longleftrightarrow>
     attr e ''stepName'' \<notin> set (open_steps st (tag_of e)) \<and>
     st' = st\<lparr>activeSteps := AList.update (tag_of e)
               (sadd (attr e ''stepName'') (open_steps st (tag_of e))) (activeSteps st)\<rparr>"
  by (auto simp: verify_step_started_def stepsFor_eq Let_def)

lemma step_finished_Inr [verify_success]:
  "verify_step_finished st e = Inr st' \<longleftrightarrow>
     attr e ''stepName'' \<in> set (open_steps st (tag_of e)) \<and>
     st' = st\<lparr>activeSteps := AList.update (tag_of e)
               (sdel (attr e ''stepName'') (open_steps st (tag_of e))) (activeSteps st)\<rparr>"
  by (auto simp: verify_step_finished_def stepsFor_eq Let_def split: option.splits)

lemma activity_snapshot_Inr [verify_success]:
  "verify_activity_snapshot st e = Inr st' \<longleftrightarrow>
     st' = (if get_own Activity (attr e ''messageId'') (owners st) = None \<or> attr e ''replace'' \<noteq> JBool False
            then st\<lparr>owners := set_own Activity (attr e ''messageId'') (tag_of e) (owners st)\<rparr> else st)"
  by (auto simp: verify_activity_snapshot_def Let_def)

lemma activity_delta_Inr [verify_success]:
  "verify_activity_delta st e = Inr st' \<longleftrightarrow>
     subagentTagError (etype e) (tag_of e) (get_own Activity (attr e ''messageId'') (owners st))
       Activity (attr e ''messageId'') = None \<and> st' = st"
  by (auto simp: verify_activity_delta_def Let_def)

lemma tool_call_result_Inr [verify_success]:
  "verify_tool_call_result st e = Inr st' \<longleftrightarrow>
     st' = (if is_string (attr e ''messageId'')
            then st\<lparr>owners := set_own Message (attr e ''messageId'') (tag_of e) (owners st)\<rparr> else st)"
  by (auto simp: verify_tool_call_result_def)

lemma reasoning_open_Inr [verify_success]:
  "verify_reasoning_open st e = Inr st' \<longleftrightarrow>
     attr e ''messageId'' \<notin> set (if etype e = REASONING_START then activeReasoningSpans st
                                  else activeReasoningMessages st) \<and>
     subagentTagError (etype e) (tag_of e) (get_own Reasoning (attr e ''messageId'') (owners st))
       Reasoning (attr e ''messageId'') = None \<and>
     st' = (if etype e = REASONING_START
            then st\<lparr>activeReasoningSpans := sadd (attr e ''messageId'') (activeReasoningSpans st),
                    owners := first_owner Reasoning (attr e ''messageId'') (tag_of e) (owners st)\<rparr>
            else st\<lparr>activeReasoningMessages := sadd (attr e ''messageId'') (activeReasoningMessages st),
                    owners := first_owner Reasoning (attr e ''messageId'') (tag_of e) (owners st)\<rparr>)"
  by (auto simp: verify_reasoning_open_def first_owner_def Let_def split: option.splits)

lemma reasoning_continue_Inr [verify_success]:
  "verify_reasoning_continue st e = Inr st' \<longleftrightarrow>
     attr e ''messageId'' \<in> set (if etype e = REASONING_END then activeReasoningSpans st
                                  else activeReasoningMessages st) \<and>
     subagentTagError (etype e) (tag_of e) (get_own Reasoning (attr e ''messageId'') (owners st))
       Reasoning (attr e ''messageId'') = None \<and>
     st' = (if etype e = REASONING_END
            then st\<lparr>activeReasoningSpans := sdel (attr e ''messageId'') (activeReasoningSpans st)\<rparr>
            else if etype e = REASONING_MESSAGE_END
            then st\<lparr>activeReasoningMessages := sdel (attr e ''messageId'') (activeReasoningMessages st)\<rparr>
            else st)"
  by (auto simp: verify_reasoning_continue_def Let_def)

lemma encrypted_value_Inr [verify_success]:
  "verify_reasoning_encrypted_value st e = Inr st' \<Longrightarrow> st' = st"
  by (auto simp: verify_reasoning_encrypted_value_def Let_def)

lemma subagent_started_Inr [verify_success]:
  "verify_subagent_started st e = Inr st' \<longleftrightarrow>
     is_string (tag_of e) \<and> is_string (attr e ''name'') \<and>
     tag_of e \<notin> set (activeSubagents st) \<and> tag_of e \<notin> set (closedSubagents st) \<and>
     (attr e ''parentSubagentRunId'' = JUndef \<or>
      attr e ''parentSubagentRunId'' \<in> set (activeSubagents st) \<union> set (closedSubagents st)) \<and>
     st' = st\<lparr>activeSubagents := sadd (tag_of e) (activeSubagents st)\<rparr>"
  by (auto simp: verify_subagent_started_def Let_def)

lemma subagent_terminal_Inr [verify_success]:
  "verify_subagent_terminal st e = Inr st' \<longleftrightarrow>
     is_string (tag_of e) \<and> (etype e = SUBAGENT_ERROR \<longrightarrow> is_string (attr e ''message'')) \<and>
     tag_of e \<in> set (activeSubagents st) \<and>
     st' = st\<lparr>activeSubagents := sdel (tag_of e) (activeSubagents st),
              closedSubagents := sadd (tag_of e) (closedSubagents st)\<rparr>"
  by (auto simp: verify_subagent_terminal_def Let_def)

lemma seed_Inr:
  "seedOwnersFromMessages ms auth st = Inr st' \<longleftrightarrow>
     (\<exists>os. seedMessages auth (elements ms) (owners st) = Inr os \<and> st' = st\<lparr>owners := os\<rparr>)"
  by (auto simp: seedOwnersFromMessages_def split: sum.splits)

lemma messages_snapshot_Inr [verify_success]:
  "verify_messages_snapshot st e = Inr st' \<longleftrightarrow>
     (\<exists>os. seedMessages True (elements (attr e ''messages'')) (owners st) = Inr os \<and> st' = st\<lparr>owners := os\<rparr>)"
  by (simp add: verify_messages_snapshot_def seed_Inr)

lemma run_started_Inr [verify_success]:
  "verify_run_started st e = Inr st' \<longleftrightarrow>
     (\<exists>os. seedMessages False (elements (jprop (attr e ''input'') ''messages'')) (owners st) = Inr os \<and>
           st' = st\<lparr>runStarted := True, owners := os\<rparr>)"
  by (simp add: verify_run_started_def seed_Inr)

lemma no_steps_active: "\<not> anyStepsActive st \<Longrightarrow> open_steps st own = []"
  by (auto simp: anyStepsActive_def open_steps_def list_ex_iff split: option.splits dest!: map_of_SomeD)

lemma run_finished_Inr [verify_success]:
  "verify_run_finished st e = Inr st' \<longleftrightarrow>
     \<not> anyStepsActive st \<and> activeMessages st = [] \<and> activeReasoningMessages st = [] \<and>
     activeReasoningSpans st = [] \<and> activeToolCalls st = [] \<and> activeSubagents st = [] \<and>
     st' = st\<lparr>runFinished := True\<rparr>"
  by (auto simp: verify_run_finished_def)

lemma run_error_Inr [verify_success]: "verify_run_error st e = Inr st' \<longleftrightarrow> st' = st\<lparr>runError := True\<rparr>"
  by (auto simp: verify_run_error_def)

subsection \<open>One step of the operator\<close>

lemma owned_seed:
  assumes "owned st" and "seedMessages auth ms (owners st) = Inr os"
  shows "owned (st\<lparr>runStarted := r, owners := os\<rparr>)" and "owned (st\<lparr>owners := os\<rparr>)"
  using assms(1) seedMessages_keeps [OF assms(2)] unfolding owned_def
  by (simp_all del: not_None_eq)

lemma verify_switch_owned:
  assumes "owned st" "verify_switch st e = Inr st'"
  shows "owned st'"
proof (cases "etype e = MESSAGES_SNAPSHOT \<or> etype e = RUN_STARTED")
  case True
  with assms show ?thesis by (auto simp: verify_switch_def verify_success owned_seed)
next
  case False
  with assms show ?thesis
    by (cases "etype e")
      (auto simp: verify_switch_def verify_success owned_def dest: encrypted_value_Inr)
qed

lemma verify_switch_steps_inv:
  assumes "steps_inv st" "verify_switch st e = Inr st'"
  shows "steps_inv st'"
  using assms
  by (cases "etype e")
   (auto simp: verify_switch_def verify_success steps_inv_def distinct_update dest: encrypted_value_Inr)

lemma verify_switch_subagent_inv:
  assumes "subagent_inv st" "verify_switch st e = Inr st'"
  shows "subagent_inv st'"
  using assms
  by (cases "etype e")
   (auto simp: verify_switch_def verify_success subagent_inv_def dest: encrypted_value_Inr)

definition entity_token ::
    "event_type list \<Rightarrow> event_type list \<Rightarrow> event_type list \<Rightarrow> js \<Rightarrow> js \<Rightarrow> event_type \<Rightarrow> token" where
  "entity_token opens uses closes k x t =
     (if t = RUN_STARTED then Forget else if t = RUN_FINISHED then Barrier
      else if x \<noteq> k then Other
      else if t \<in> set opens then Open else if t \<in> set uses then Use
      else if t \<in> set closes then Close else Other)"

fun lifecycle_token :: "entity_key \<Rightarrow> event \<Rightarrow> token" where
  "lifecycle_token (MessageKey k) e =
     entity_token [TEXT_MESSAGE_START] [TEXT_MESSAGE_CONTENT] [TEXT_MESSAGE_END]
       k (attr e ''messageId'') (etype e)"
| "lifecycle_token (ToolCallKey k) e =
     entity_token [TOOL_CALL_START] [TOOL_CALL_ARGS] [TOOL_CALL_END]
       k (attr e ''toolCallId'') (etype e)"
| "lifecycle_token (SpanKey k) e =
     entity_token [REASONING_START] [] [REASONING_END] k (attr e ''messageId'') (etype e)"
| "lifecycle_token (ReasoningKey k) e =
     entity_token [REASONING_MESSAGE_START] [REASONING_MESSAGE_CONTENT] [REASONING_MESSAGE_END]
       k (attr e ''messageId'') (etype e)"
| "lifecycle_token (SubagentKey k) e =
     entity_token [SUBAGENT_STARTED] [] [SUBAGENT_FINISHED, SUBAGENT_ERROR]
       k (null_to_undef (tag_of e)) (etype e)"
| "lifecycle_token (StepKey own k) e =
     (if null_to_undef (tag_of e) \<noteq> own \<and> etype e \<noteq> RUN_STARTED \<and> etype e \<noteq> RUN_FINISHED then Other
      else entity_token [STEP_STARTED] [] [STEP_FINISHED] k (attr e ''stepName'') (etype e))"

lemma is_open_step: "is_open st (StepKey own n) \<longleftrightarrow> n \<in> set (open_steps st own)"
  by (simp add: open_steps_def split: option.splits)

lemma open_steps_update:
  "open_steps (st\<lparr>activeSteps := AList.update own ns (activeSteps st)\<rparr>) own' =
     (if own' = own then ns else open_steps st own')"
  by (simp add: open_steps_def update_conv')

lemma lifecycle_token_clean [simp]: "lifecycle_token k (clean e) = lifecycle_token k e"
  by (cases k) (simp_all add: attr_clean)

declare is_open.simps(6) [simp del]

lemma open_steps_cong: "activeSteps st = activeSteps st' \<Longrightarrow> open_steps st own = open_steps st' own"
  by (simp add: open_steps_def)

lemma open_steps_frame [simp]:
  "open_steps (st\<lparr>activeMessages := a\<rparr>) = open_steps st"
  "open_steps (st\<lparr>activeToolCalls := b\<rparr>) = open_steps st"
  "open_steps (st\<lparr>activeReasoningSpans := c\<rparr>) = open_steps st"
  "open_steps (st\<lparr>activeReasoningMessages := d\<rparr>) = open_steps st"
  "open_steps (st\<lparr>owners := f\<rparr>) = open_steps st"
  "open_steps (st\<lparr>activeSubagents := g\<rparr>) = open_steps st"
  "open_steps (st\<lparr>closedSubagents := h\<rparr>) = open_steps st"
  "open_steps (st\<lparr>runStarted := i\<rparr>) = open_steps st"
  "open_steps (st\<lparr>runFinished := j\<rparr>) = open_steps st"
  "open_steps (st\<lparr>runError := l\<rparr>) = open_steps st"
  by (simp_all add: fun_eq_iff open_steps_def)

lemma verify_switch_token:
  assumes "verify_switch st e = Inr st'" and "tag_of e \<noteq> JNull" and "etype e \<noteq> RUN_STARTED"
  shows "token_step (is_open st k) (lifecycle_token k e) = Some (is_open st' k)"
  using assms
  by (cases "etype e"; cases k)
   (auto simp: verify_switch_def verify_success entity_token_def is_open_step open_steps_update
     null_to_undef_def no_steps_active dest: encrypted_value_Inr)

lemma phase_inv_run_phase:
  assumes "phase_inv st"
  shows "verify_run_phase st t =
    (case phase_step (phase_of st) t of
       None \<Rightarrow> Inl (case phase_of st of NotStarted \<Rightarrow> FirstEventMustBeRunStarted | Active \<Rightarrow> RunStillActive
                   | Finished \<Rightarrow> RunAlreadyFinished t | Errored \<Rightarrow> RunAlreadyErrored t)
     | Some _ \<Rightarrow> Inr (if phase_of st = NotStarted then st\<lparr>firstEventReceived := True\<rparr>
                     else if t = RUN_STARTED then resetRunState st else st))"
  using assms
  by (auto simp: phase_inv_def phase_of_def verify_run_phase_def)

lemma verify_switch_phase:
  assumes "verify_switch st e = Inr st'" 
  shows "firstEventReceived st' = firstEventReceived st"
    "runStarted st' = (runStarted st \<or> etype e = RUN_STARTED)"
    "runFinished st' = (runFinished st \<or> etype e = RUN_FINISHED)"
    "runError st' = (runError st \<or> etype e = RUN_ERROR)"
  using assms
  by (cases "etype e"; auto simp: verify_switch_def verify_success dest: encrypted_value_Inr)+


text \<open>The state in which the \<open>switch\<close> sees an event the run phase admits.\<close>

definition entered :: "verify_state \<Rightarrow> event \<Rightarrow> verify_state" where
  "entered st e =
     (let st1 = (if phase_of st = NotStarted then st\<lparr>firstEventReceived := True\<rparr>
                 else if etype e = RUN_STARTED then resetRunState st else st)
      in st1\<lparr>nullSubagentRunIdNoticed := (nullSubagentRunIdNoticed st1 \<or> tag_of e = JNull)\<rparr>)"

lemma verify_event_entered:
  assumes "phase_inv st" and "verify_event st e = Inr (ys, st')"
  shows "phase_step (phase_of st) (etype e) \<noteq> None"
    and "verify_switch (entered st e) (clean e) = Inr st'"
proof -
  from assms(2) obtain st1 where ph: "verify_run_phase st (etype e) = Inr st1"
    and sw: "verify_switch (st1\<lparr>nullSubagentRunIdNoticed :=
           (nullSubagentRunIdNoticed st1 \<or> tag_of e = JNull)\<rparr>) (clean e) = Inr st'"
    by (rule verify_event_InrD)
  from ph show ok: "phase_step (phase_of st) (etype e) \<noteq> None"
    by (auto simp: phase_inv_run_phase [OF assms(1)] split: option.splits)
  from ph ok sw show "verify_switch (entered st e) (clean e) = Inr st'"
    by (auto simp: phase_inv_run_phase [OF assms(1)] entered_def Let_def)
qed

lemma clean_tag_not_null [simp]: "tag_of (clean e) \<noteq> JNull"
  by (simp add: attr_clean null_to_undef_def)

lemma is_open_entered:
  "is_open (entered st e) k \<longleftrightarrow> is_open st k \<and> (phase_of st = NotStarted \<or> etype e \<noteq> RUN_STARTED)"
  by (cases k) (auto simp: entered_def resetRunState_def is_open.simps(6) Let_def)

lemma phase_inv_cases: "phase_inv st \<Longrightarrow> firstEventReceived st \<or> (\<not> runFinished st \<and> \<not> runError st)"
  by (auto simp: phase_inv_def)

lemma verify_event_phase:
  assumes "phase_inv st" and "verify_event st e = Inr (ys, st')"
  shows "phase_step (phase_of st) (etype e) = Some (phase_of st')"
  using verify_event_entered(1) [OF assms] phase_inv_cases [OF assms(1)]
    verify_switch_phase [OF verify_event_entered(2) [OF assms]]
  by (auto simp: phase_of_def entered_def resetRunState_def Let_def split: if_splits)

lemma run_started_is_open:
  assumes "etype e = RUN_STARTED" and "verify_switch st e = Inr st'"
  shows "is_open st' k = is_open st k"
  using assms by (cases k) (auto simp: verify_switch_def verify_success is_open_step)

lemma verify_event_token:
  assumes "phase_inv st" and "verify_event st e = Inr (ys, st')"
  shows "token_step (is_open st k) (lifecycle_token k e) = Some (is_open st' k)"
proof (cases "etype e = RUN_STARTED")
  case True
  have "lifecycle_token k e = Forget" using True by (cases k) (simp_all add: entity_token_def)
  moreover have "\<not> is_open (entered st e) k"
    using assms(1) True by (auto simp: is_open_entered phase_inv_def)
  ultimately show ?thesis
    using True run_started_is_open [OF _ verify_event_entered(2) [OF assms], of k] by simp
next
  case False
  then show ?thesis
    using verify_switch_token [OF verify_event_entered(2) [OF assms], of k] by (simp add: is_open_entered)
qed

lemma phase_inv_step:
  assumes "phase_inv st" and "verify_event st e = Inr (ys, st')"
  shows "phase_inv st'"
proof -
  note sw = verify_switch_phase [OF verify_event_entered(2) [OF assms]]
  have first: "firstEventReceived (entered st e)"
    using phase_inv_cases [OF assms(1)]
    by (auto simp: entered_def phase_of_def resetRunState_def Let_def split: if_splits)
  have started: "runStarted st' \<or> runError st'"
    using sw assms(1) verify_event_entered(1) [OF assms]
    by (auto simp: phase_inv_def entered_def phase_of_def resetRunState_def Let_def split: if_splits)
  have "\<forall>k. \<not> is_open st' k" if fin: "phase_of st' = Finished"
  proof
    fix k
    from fin verify_event_phase [OF assms] have "etype e = RUN_FINISHED"
      by (cases "phase_of st") (auto split: if_splits)
    then have "lifecycle_token k e = Barrier" by (cases k) (simp_all add: entity_token_def)
    with verify_event_token [OF assms, of k] show "\<not> is_open st' k"
      by (auto split: if_splits)
  qed
  with sw first started show ?thesis by (auto simp: phase_inv_def phase_of_def)
qed

lemma entered_owned: "owned st \<Longrightarrow> owned (entered st e)"
  by (auto simp: entered_def owned_def resetRunState_def Let_def)

lemma entered_subagent: "subagent_inv st \<Longrightarrow> subagent_inv (entered st e)"
  by (auto simp: entered_def subagent_inv_def resetRunState_def Let_def)

lemma entered_steps: "steps_inv st \<Longrightarrow> steps_inv (entered st e)"
  by (auto simp: entered_def steps_inv_def resetRunState_def Let_def)

lemma verify_event_inv:
  assumes "verify_inv st" and "verify_event st e = Inr (ys, st')"
  shows "verify_inv st'"
proof -
  from assms(1) have inv: "phase_inv st" "owned st" "subagent_inv st" "steps_inv st"
    by (simp_all add: verify_inv_def)
  note sw = verify_event_entered(2) [OF inv(1) assms(2)]
  show ?thesis unfolding verify_inv_def
    using phase_inv_step [OF inv(1) assms(2)] verify_switch_owned [OF entered_owned [OF inv(2)] sw]
      verify_switch_subagent_inv [OF entered_subagent [OF inv(3)] sw]
      verify_switch_steps_inv [OF entered_steps [OF inv(4)] sw]
    by simp
qed

lemma verify_inv_initial [simp]: "verify_inv initial_verify_state"
proof -
  have "\<not> is_open initial_verify_state k" for k
    by (cases k) (simp_all add: initial_verify_state_def is_open.simps(6))
  then show ?thesis
    by (simp add: verify_inv_def owned_def phase_inv_def subagent_inv_def steps_inv_def
        initial_verify_state_def)
qed

interpretation verifier: bracketed_stage verify_event verify_inv is_open lifecycle_token
proof unfold_locales
  fix st e ys st'
  assume "verify_inv st" "verify_event st e = Inr (ys, st')"
  then show "verify_inv st'" by (rule verify_event_inv)
next
  fix st e ys st' k
  assume "verify_inv st" and r: "verify_event st e = Inr (ys, st')"
  then have "phase_inv st" by (simp add: verify_inv_def)
  then show "token_step (is_open st k) (lifecycle_token k e) = Some (is_open st' k)"
    using r by (rule verify_event_token)
qed

subsection \<open>Ownership along a stream\<close>

definition names :: "event \<Rightarrow> (entity \<times> js) option" where
  "names e =
     (if etype e \<in> {TEXT_MESSAGE_START, TEXT_MESSAGE_CONTENT, TEXT_MESSAGE_END}
      then Some (Message, attr e ''messageId'')
      else if etype e \<in> {TOOL_CALL_START, TOOL_CALL_ARGS, TOOL_CALL_END}
      then Some (ToolCall, attr e ''toolCallId'')
      else if etype e \<in> {REASONING_START, REASONING_END, REASONING_MESSAGE_START,
                         REASONING_MESSAGE_CONTENT, REASONING_MESSAGE_END}
      then Some (Reasoning, attr e ''messageId'')
      else None)"

definition reowns :: "entity \<Rightarrow> js \<Rightarrow> event \<Rightarrow> bool" where
  "reowns kind x e \<longleftrightarrow> etype e = RUN_STARTED \<or> etype e = MESSAGES_SNAPSHOT \<or>
     (kind = Message \<and> etype e = TOOL_CALL_RESULT \<and> attr e ''messageId'' = x)"

lemma names_clean [simp]: "names (clean e) = names e"
  by (simp add: names_def attr_clean)

lemma reowns_clean [simp]: "reowns kind x (clean e) = reowns kind x e"
  by (simp add: reowns_def attr_clean)

lemma verify_switch_keeps_owner:
  assumes "verify_switch st e = Inr st'" and "get_own kind x (owners st) = Some t"
    and "kind \<noteq> Activity" and "\<not> reowns kind x e"
  shows "get_own kind x (owners st') = Some t"
  using assms
  by (cases "etype e")
    (auto simp: verify_switch_def verify_success reowns_def dest: encrypted_value_Inr)

lemma verify_switch_agrees:
  assumes "verify_switch st e = Inr st'" and "names e = Some (kind, x)" and "owned st"
    and "tag_of e \<noteq> JUndef"
  shows "get_own kind x (owners st) \<in> {None, Some (tag_of e)}"
    and "get_own kind x (owners st') = Some (tag_of e)"
  using assms
  by (cases "etype e";
      auto simp: names_def verify_switch_def verify_success subagentTagError_def owned_def call_owner_def
        split: option.splits if_splits)+


lemma entered_owners: "etype e \<noteq> RUN_STARTED \<Longrightarrow> owners (entered st e) = owners st"
  by (simp add: entered_def Let_def)

lemma entered_subagents:
  "etype e \<noteq> RUN_STARTED \<Longrightarrow> activeSubagents (entered st e) = activeSubagents st"
  "etype e \<noteq> RUN_STARTED \<Longrightarrow> closedSubagents (entered st e) = closedSubagents st"
  by (simp_all add: entered_def Let_def)

lemma verify_event_keeps_owner:
  assumes "verify_inv st" and "verify_event st e = Inr (ys, st')"
    and "get_own kind x (owners st) = Some t" and "kind \<noteq> Activity" and "\<not> reowns kind x e"
  shows "get_own kind x (owners st') = Some t"
proof -
  have "phase_inv st" using assms(1) by (simp add: verify_inv_def)
  from verify_event_entered(2) [OF this assms(2)] show ?thesis
    by (rule verify_switch_keeps_owner) (use assms(3-5) in \<open>simp_all add: entered_owners reowns_def attr_clean\<close>)
qed

lemma run_keeps_owner:
  assumes "verify_inv st" and "accepts verify_event st es"
    and "get_own kind x (owners st) = Some t" and "kind \<noteq> Activity"
    and "\<forall>e \<in> set es. \<not> reowns kind x e"
  shows "get_own kind x (owners (final_state verify_event st es)) = Some t"
  using assms
proof (induction es arbitrary: st)
  case (Cons e es)
  then obtain ys st' where r: "verify_event st e = Inr (ys, st')" and acc: "accepts verify_event st' es"
    by (auto simp: accepts_Cons)
  have "get_own kind x (owners st') = Some t"
    using Cons.prems r by (auto intro: verify_event_keeps_owner)
  with Cons.IH [OF verify_event_inv [OF Cons.prems(1) r] acc] Cons.prems r show ?case by simp
qed simp

lemma names_not_run_started: "names e \<noteq> None \<Longrightarrow> etype e \<noteq> RUN_STARTED"
  by (auto simp: names_def)

lemma names_kind: "names e = Some (kind, x) \<Longrightarrow> kind \<noteq> Activity"
  by (auto simp: names_def split: if_splits)

lemma switch_subagents_mono:
  assumes "verify_switch st e = Inr st'" and "etype e \<noteq> RUN_STARTED"
  shows "set (activeSubagents st) \<union> set (closedSubagents st) \<subseteq>
         set (activeSubagents st') \<union> set (closedSubagents st')"
  using assms
  by (cases "etype e") (auto simp: verify_switch_def verify_success dest: encrypted_value_Inr)

lemma run_subagents_mono:
  assumes "verify_inv st" and "accepts verify_event st es" and "\<forall>e \<in> set es. etype e \<noteq> RUN_STARTED"
    and "x \<in> set (activeSubagents st) \<union> set (closedSubagents st)"
  shows "x \<in> set (activeSubagents (final_state verify_event st es)) \<union>
             set (closedSubagents (final_state verify_event st es))"
  using assms
proof (induction es arbitrary: st)
  case (Cons e es)
  then obtain ys st' where r: "verify_event st e = Inr (ys, st')" and acc: "accepts verify_event st' es"
    by (auto simp: accepts_Cons)
  have "phase_inv st" using Cons.prems by (simp add: verify_inv_def)
  note sw = verify_event_entered(2) [OF this r]
  have "x \<in> set (activeSubagents st') \<union> set (closedSubagents st')"
    using switch_subagents_mono [OF sw] Cons.prems by (auto simp: entered_subagents)
  with Cons.IH [OF verify_event_inv [OF Cons.prems(1) r] acc] Cons.prems r show ?case by simp
qed simp

definition demo_run :: "event list" where
  "demo_run =
     [ev RUN_STARTED [(''threadId'', ''t''), (''runId'', ''r'')],
      ev SUBAGENT_STARTED [(''subagentRunId'', ''s1''), (''name'', ''helper'')],
      ev TEXT_MESSAGE_START [(''messageId'', ''m1''), (''subagentRunId'', ''s1'')],
      ev STEP_STARTED [(''stepName'', ''tools'')],
      ev TEXT_MESSAGE_CONTENT [(''messageId'', ''m1''), (''delta'', ''hi''), (''subagentRunId'', ''s1'')],
      ev TEXT_MESSAGE_END [(''messageId'', ''m1'')],
      ev STEP_FINISHED [(''stepName'', ''tools'')],
      ev SUBAGENT_FINISHED [(''subagentRunId'', ''s1'')],
      ev RUN_FINISHED [(''threadId'', ''t''), (''runId'', ''r'')]]"

lemma demo_accepted: "accepts verify_event initial_verify_state demo_run"
  by code_simp

subsection \<open>Streams, phases and verdicts\<close>

lemma emitted_clean: "\<exists>n. emitted verify_event st es = map clean (take n es) \<and>
    (accepts verify_event st es \<longrightarrow> n = length es) \<and> (\<not> accepts verify_event st es \<longrightarrow> n < length es)"
proof (induction es arbitrary: st)
  case (Cons e es)
  show ?case
  proof (cases "verify_event st e")
    case (Inl err)
    then show ?thesis by (intro exI [of _ 0]) simp
  next
    case (Inr r)
    then obtain st' where r: "verify_event st e = Inr ([clean e], st')"
      using verify_event_emits by (cases r) auto
    from Cons.IH [of st'] obtain n where "emitted verify_event st' es = map clean (take n es)"
      "accepts verify_event st' es \<longrightarrow> n = length es" "\<not> accepts verify_event st' es \<longrightarrow> n < length es"
      by blast
    with r show ?thesis by (intro exI [of _ "Suc n"]) simp
  qed
qed simp

lemma phase_run_refines:
  "verify_inv st \<Longrightarrow> accepts verify_event st es \<Longrightarrow>
     phase_run (phase_of st) (map etype es) = Some (phase_of (final_state verify_event st es))"
proof (induction es arbitrary: st)
  case (Cons e es)
  then obtain ys st' where r: "verify_event st e = Inr (ys, st')" and acc: "accepts verify_event st' es"
    by (auto simp: accepts_Cons)
  have "phase_inv st" using Cons.prems by (simp add: verify_inv_def)
  from verify_event_phase [OF this r] Cons.IH [OF verify_event_inv [OF Cons.prems(1) r] acc] r
  show ?case by simp
qed simp

lemma phase_of_initial: "phase_of initial_verify_state = NotStarted"
  by (simp add: phase_of_def initial_verify_state_def)

definition agrees :: "js \<Rightarrow> js option \<Rightarrow> bool" where
  "agrees tag own \<longleftrightarrow> nullish tag \<or> own \<in> {None, Some tag}"

lemma subagentTagError_clean:
  "subagentTagError t (tag_of (clean e)) own kind x = None \<longleftrightarrow> agrees (tag_of e) own"
  by (cases own) (auto simp: subagentTagError_def agrees_def attr_clean null_to_undef_def nullish_iff)

lemma verify_event_active:
  assumes "phase_inv st" and "phase_of st = Active" and "etype e \<noteq> RUN_STARTED"
    and "check_lifecycle (clean e) = None" and "check_interrupt_owners (clean e) = None"
  shows "(\<exists>r. verify_event st e = Inr r) \<longleftrightarrow> (\<exists>st'. verify_switch (entered st e) (clean e) = Inr st')"
proof -
  have "verify_run_phase st (etype e) = Inr st"
    using assms(2,3) by (simp add: phase_inv_run_phase [OF assms(1)])
  then have "verify_event st e =
      (case verify_switch (entered st e) (clean e) of Inl err \<Rightarrow> Inl err | Inr st3 \<Rightarrow> Inr ([clean e], st3))"
    using assms(2-5) by (simp add: verify_event_def drop_null_tag_eq entered_def)
  then show ?thesis by (auto split: sum.splits)
qed

lemma entered_frame:
  assumes "etype e \<noteq> RUN_STARTED"
  shows "activeMessages (entered st e) = activeMessages st"
    "activeToolCalls (entered st e) = activeToolCalls st"
    "activeReasoningSpans (entered st e) = activeReasoningSpans st"
    "activeReasoningMessages (entered st e) = activeReasoningMessages st"
  using assms by (simp_all add: entered_def Let_def)

lemma stream_event_checks:
  assumes "names e = Some (kind, x)"
  shows "check_lifecycle (clean e) = None" and "check_interrupt_owners (clean e) = None"
    and "etype e \<noteq> RUN_STARTED"
  using assms
  by (cases "etype e";
      simp add: check_lifecycle_def check_interrupt_owners_def names_def Let_def)+

fun key_of :: "event \<Rightarrow> entity_key" where
  "key_of e =
     (if etype e \<in> {TOOL_CALL_START, TOOL_CALL_ARGS, TOOL_CALL_END}
      then ToolCallKey (attr e ''toolCallId'')
      else if etype e \<in> {REASONING_START, REASONING_END} then SpanKey (attr e ''messageId'')
      else if etype e \<in> {REASONING_MESSAGE_START, REASONING_MESSAGE_CONTENT, REASONING_MESSAGE_END}
      then ReasoningKey (attr e ''messageId'') else MessageKey (attr e ''messageId''))"

abbreviation noticed :: "bool \<Rightarrow> verify_state \<Rightarrow> verify_state" where
  "noticed b st \<equiv> st\<lparr>nullSubagentRunIdNoticed := b\<rparr>"

lemma unless_error_notice: "unless_error err (noticed b st) = map_sum id (noticed b) (unless_error err st)"
  by (simp add: unless_error_def split: option.splits)

lemma stepsFor_notice: "stepsFor own (noticed b st) = map_prod id (noticed b) (stepsFor own st)"
  by (simp add: stepsFor_def split: option.splits)

lemma parent_owner_notice [simp]: "parent_owner (noticed b st) e = parent_owner st e"
  by (simp add: parent_owner_def)

lemma encrypted_value_owner_notice [simp]: "encrypted_value_owner (noticed b st) e = encrypted_value_owner st e"
  by (simp add: encrypted_value_owner_def Let_def split: option.splits)

lemma anyStepsActive_notice [simp]: "anyStepsActive (noticed b st) = anyStepsActive st"
  by (simp add: anyStepsActive_def)

named_theorems notice_frame

lemma text_notice [notice_frame]:
  "verify_text_message_start (noticed b st) e = map_sum id (noticed b) (verify_text_message_start st e)"
  "verify_text_message_content (noticed b st) e = map_sum id (noticed b) (verify_text_message_content st e)"
  "verify_text_message_end (noticed b st) e = map_sum id (noticed b) (verify_text_message_end st e)"
  by (auto simp: verify_text_message_start_def verify_text_message_content_def
      verify_text_message_end_def unless_error_def Let_def split: option.splits)

lemma tool_start_notice [notice_frame]:
  "verify_tool_call_start (noticed b st) e = map_sum id (noticed b) (verify_tool_call_start st e)"
  by (cases "tag_of e = JUndef"; cases "get_own ToolCall (attr e ''toolCallId'') (owners st)";
      cases "parent_owner st e")
    (simp_all add: verify_tool_call_start_def subagentTagError_def Let_def)

lemma tool_notice [notice_frame]:
  "verify_tool_call_args (noticed b st) e = map_sum id (noticed b) (verify_tool_call_args st e)"
  "verify_tool_call_end (noticed b st) e = map_sum id (noticed b) (verify_tool_call_end st e)"
  "verify_tool_call_result (noticed b st) e = map_sum id (noticed b) (verify_tool_call_result st e)"
  by (simp_all add: verify_tool_call_args_def verify_tool_call_result_def
      verify_tool_call_end_def unless_error_def Let_def split: option.splits)

lemma step_notice [notice_frame]:
  "verify_step_started (noticed b st) e = map_sum id (noticed b) (verify_step_started st e)"
  "verify_step_finished (noticed b st) e = map_sum id (noticed b) (verify_step_finished st e)"
  by (auto simp: verify_step_started_def verify_step_finished_def stepsFor_notice Let_def
      split: option.splits prod.splits)

lemma reasoning_notice [notice_frame]:
  "verify_activity_snapshot (noticed b st) e = map_sum id (noticed b) (verify_activity_snapshot st e)"
  "verify_activity_delta (noticed b st) e = map_sum id (noticed b) (verify_activity_delta st e)"
  "verify_reasoning_open (noticed b st) e = map_sum id (noticed b) (verify_reasoning_open st e)"
  "verify_reasoning_continue (noticed b st) e = map_sum id (noticed b) (verify_reasoning_continue st e)"
  "verify_reasoning_encrypted_value (noticed b st) e = map_sum id (noticed b) (verify_reasoning_encrypted_value st e)"
  by (auto simp: verify_activity_snapshot_def verify_activity_delta_def verify_reasoning_open_def
      verify_reasoning_continue_def verify_reasoning_encrypted_value_def unless_error_def Let_def
      split: option.splits)

lemma run_notice [notice_frame]:
  "verify_subagent_started (noticed b st) e = map_sum id (noticed b) (verify_subagent_started st e)"
  "verify_subagent_terminal (noticed b st) e = map_sum id (noticed b) (verify_subagent_terminal st e)"
  "verify_messages_snapshot (noticed b st) e = map_sum id (noticed b) (verify_messages_snapshot st e)"
  "verify_run_started (noticed b st) e = map_sum id (noticed b) (verify_run_started st e)"
  "verify_run_finished (noticed b st) e = map_sum id (noticed b) (verify_run_finished st e)"
  "verify_run_error (noticed b st) e = map_sum id (noticed b) (verify_run_error st e)"
  by (auto simp: verify_subagent_started_def verify_subagent_terminal_def verify_messages_snapshot_def
      verify_run_started_def verify_run_finished_def verify_run_error_def seedOwnersFromMessages_def Let_def
      split: sum.splits)

lemma verify_switch_notice:
  "verify_switch (noticed b st) e = map_sum id (noticed b) (verify_switch st e)"
  by (cases "etype e") (simp_all add: verify_switch_def notice_frame)

lemma clean_clean [simp]: "clean (clean e) = clean e"
  using clean_tag_not_null [of e] unfolding clean_def [of "clean e"] by simp

lemma verify_event_eq:
  "verify_event st e =
     (case verify_run_phase st (etype e) of
        Inl err \<Rightarrow> Inl err
      | Inr st1 \<Rightarrow>
          (case check_lifecycle (clean e) of
             Some err \<Rightarrow> Inl err
           | None \<Rightarrow>
               (case check_interrupt_owners (clean e) of
                  Some err \<Rightarrow> Inl err
                | None \<Rightarrow>
                    map_sum id (\<lambda>s. ([clean e], noticed (nullSubagentRunIdNoticed st1 \<or> tag_of e = JNull) s))
                      (verify_switch st1 (clean e)))))"
proof (cases "verify_run_phase st (etype e)")
  case (Inr st1)
  then show ?thesis
    by (cases "verify_switch st1 (clean e)")
      (simp_all add: verify_event_def drop_null_tag_eq verify_switch_notice split: option.split)
qed (simp add: verify_event_def)

definition same_but_notice :: "verify_state \<Rightarrow> verify_state \<Rightarrow> bool" where
  "same_but_notice a b \<longleftrightarrow> noticed False a = noticed False b"

lemma same_but_noticeE:
  assumes "same_but_notice a b" obtains f where "b = noticed f a"
proof
  have "noticed (nullSubagentRunIdNoticed b) (noticed False a) = noticed (nullSubagentRunIdNoticed b) (noticed False b)"
    using assms by (simp only: same_but_notice_def)
  then show "b = noticed (nullSubagentRunIdNoticed b) a" by simp
qed

lemma run_phase_notice:
  "\<exists>f. verify_run_phase (noticed b st) t = map_sum id (noticed f) (verify_run_phase st t)"
  by (rule exI [of _ "if t = RUN_STARTED \<and> firstEventReceived st \<and> (runFinished st \<or> runError st) then False else b"])
    (auto simp: verify_run_phase_def resetRunState_def)

lemma verify_event_same:
  assumes "same_but_notice a b"
  shows "rel_sum (=) (rel_prod (=) same_but_notice) (verify_event a e) (verify_event b (clean e))"
proof -
  obtain f where b: "b = noticed f a" using assms by (rule same_but_noticeE)
  obtain g where "verify_run_phase b (etype e) = map_sum id (noticed g) (verify_run_phase a (etype e))"
    using run_phase_notice b by blast
  then show ?thesis
  proof (cases "verify_run_phase a (etype e)")
    case (Inr st1)
    with \<open>verify_run_phase b (etype e) = _\<close> show ?thesis
      by (cases "verify_switch st1 (clean e)")
        (simp_all add: verify_event_eq verify_switch_notice same_but_notice_def split: option.split)
  qed (simp add: verify_event_eq)
qed

lemma run_same:
  "same_but_notice a b \<Longrightarrow>
     emitted verify_event a es = emitted verify_event b (map clean es) \<and>
     failure verify_event a es = failure verify_event b (map clean es)"
proof (induction es arbitrary: a b)
  case (Cons e es)
  from verify_event_same [OF Cons.prems, of e] Cons.IH show ?case
    by (cases "verify_event a e"; cases "verify_event b (clean e)") auto
qed simp

subsection \<open>Properties\<close>

text \<open>
  C14. The streaming discipline. In a stream the verifier accepts, the events of every text message,
  tool call, reasoning span, reasoning message, step and subagent follow the protocol's pattern:
  open, continue while open, close, with nothing left open when the run finishes; and the
  verifier's tables say exactly which entities are open at the end.
\<close>

theorem verified_streams_bracketed:
  assumes "accepts verify_event initial_verify_state es"
  shows "token_run False (map (lifecycle_token k) es)
           = Some (is_open (final_state verify_event initial_verify_state es) k)"
proof -
  have "\<not> is_open initial_verify_state k"
    by (cases k) (simp_all add: initial_verify_state_def is_open.simps(6))
  then show ?thesis
    using verifier.accepted_token_run [OF verify_inv_initial assms, of k] by simp
qed

theorem verified_streams_bracketed_witness:
  "accepts verify_event initial_verify_state demo_run \<and>
   token_run False (map (lifecycle_token (MessageKey (JStr ''m1''))) demo_run)
     = Some (is_open (final_state verify_event initial_verify_state demo_run) (MessageKey (JStr ''m1'')))"
  using demo_accepted verified_streams_bracketed [OF demo_accepted] by simp

text \<open>
  C15. Attribution cannot be forged. Two explicitly tagged events of one message, tool call or
  reasoning entity carry the same subagentRunId whenever the verifier accepted both and nothing
  between them may transfer ownership (a new run, a messages snapshot, a tool result minting that
  message id).
\<close>

theorem tagged_events_agree:
  assumes "accepts verify_event initial_verify_state (pre @ e1 # mid @ e2 # post)"
    and "names e1 = Some (kind, x)" and "names e2 = Some (kind, x)"
    and "\<not> nullish (tag_of e1)" and "\<not> nullish (tag_of e2)"
    and "\<forall>e \<in> set mid. \<not> reowns kind x e"
  shows "tag_of e1 = tag_of e2"
proof -
  let ?s = "final_state verify_event initial_verify_state pre"
  obtain ys s1 where r1: "verify_event ?s e1 = Inr (ys, s1)" and acc1: "accepts verify_event s1 (mid @ e2 # post)"
    using assms(1) by (rule accepts_split)
  have inv: "verify_inv ?s" by (simp add: verifier.run_inv)
  have inv1: "verify_inv s1" using inv r1 by (rule verify_event_inv)
  have tags: "tag_of (clean e1) = tag_of e1" "tag_of (clean e2) = tag_of e2"
    "tag_of e1 \<noteq> JUndef" "tag_of e2 \<noteq> JUndef"
    using assms(4,5) by (auto simp: nullish_iff attr_clean null_to_undef_def)
  have own1: "get_own kind x (owners s1) = Some (tag_of e1)"
    using verify_switch_agrees(2) [OF verify_event_entered(2) [OF _ r1]] inv assms(2) tags entered_owned
    by (auto simp: verify_inv_def)
  let ?t = "final_state verify_event s1 mid"
  obtain zs s2 where r2: "verify_event ?t e2 = Inr (zs, s2)" using acc1 by (rule accepts_split)
  have "get_own kind x (owners ?t) = Some (tag_of e1)"
    using run_keeps_owner [OF inv1 _ own1 names_kind [OF assms(2)] assms(6)] acc1
    by (simp add: accepts_append)
  moreover have invt: "verify_inv ?t" using inv1 by (rule verifier.run_inv)
  moreover have "get_own kind x (owners ?t) \<in> {None, Some (tag_of e2)}"
    using verify_switch_agrees(1) [OF verify_event_entered(2) [OF _ r2], of kind x] invt assms(3) tags
      entered_owned names_not_run_started [of e2]
    by (auto simp: verify_inv_def entered_owners)
  ultimately show ?thesis by simp
qed

theorem tagged_events_agree_witness:
  "accepts verify_event initial_verify_state demo_run \<and> tag_of (demo_run ! 2) = tag_of (demo_run ! 4)"
proof -
  have "demo_run = take 2 demo_run @ (demo_run ! 2) # [demo_run ! 3] @ (demo_run ! 4) # drop 5 demo_run"
    by code_simp
  then have "accepts verify_event initial_verify_state
      (take 2 demo_run @ (demo_run ! 2) # [demo_run ! 3] @ (demo_run ! 4) # drop 5 demo_run)"
    using demo_accepted by simp
  then have "tag_of (demo_run ! 2) = tag_of (demo_run ! 4)"
    by (rule tagged_events_agree [where kind = Message and x = "JStr ''m1''"]) code_simp+
  with demo_accepted show ?thesis by simp
qed

text \<open>
  A subagent id names one invocation: no accepted run starts the same subagentRunId twice.
\<close>

theorem subagent_ids_started_once:
  assumes "accepts verify_event initial_verify_state (pre @ e1 # mid @ e2 # post)"
    and "etype e1 = SUBAGENT_STARTED" and "etype e2 = SUBAGENT_STARTED"
    and "\<forall>e \<in> set mid. etype e \<noteq> RUN_STARTED"
  shows "tag_of e1 \<noteq> tag_of e2"
proof
  assume same: "tag_of e1 = tag_of e2"
  let ?s = "final_state verify_event initial_verify_state pre"
  obtain ys s1 where r1: "verify_event ?s e1 = Inr (ys, s1)" and acc1: "accepts verify_event s1 (mid @ e2 # post)"
    using assms(1) by (rule accepts_split)
  have inv: "verify_inv ?s" by (simp add: verifier.run_inv)
  have inv1: "verify_inv s1" using inv r1 by (rule verify_event_inv)
  have "tag_of (clean e1) \<in> set (activeSubagents s1)"
    using verify_event_entered(2) [OF _ r1] inv assms(2)
    by (auto simp: verify_inv_def verify_switch_def verify_success)
  moreover let ?t = "final_state verify_event s1 mid"
  obtain zs s2 where r2: "verify_event ?t e2 = Inr (zs, s2)" using acc1 by (rule accepts_split)
  have invt: "verify_inv ?t" using inv1 by (rule verifier.run_inv)
  have "tag_of (clean e2) \<notin> set (activeSubagents ?t) \<union> set (closedSubagents ?t)"
    using verify_event_entered(2) [OF _ r2] invt assms(3)
    by (auto simp: verify_inv_def verify_switch_def verify_success entered_subagents)
  moreover have "tag_of (clean e1) = tag_of (clean e2)" using same by (simp add: attr_clean)
  ultimately show False
    using run_subagents_mono [OF inv1 _ assms(4), of "tag_of (clean e1)"] acc1
    by (auto simp: accepts_append)
qed

theorem subagent_ids_started_once_witness:
  "tag_of (ev SUBAGENT_STARTED [(''subagentRunId'', ''s1''), (''name'', ''a'')])
     \<noteq> tag_of (ev SUBAGENT_STARTED [(''subagentRunId'', ''s2''), (''name'', ''b'')])"
  by (rule subagent_ids_started_once [where pre = "[ev RUN_STARTED []]" and post = "[]"
        and mid = "[ev SUBAGENT_FINISHED [(''subagentRunId'', ''s1'')]]"]) code_simp+

text \<open>
  Nothing outlives its run: when RUN_FINISHED is accepted, no entity of any kind is open.
\<close>

theorem run_finishes_with_nothing_open:
  assumes "accepts verify_event initial_verify_state (es @ [e])" and "etype e = RUN_FINISHED"
  shows "\<not> is_open (final_state verify_event initial_verify_state es) k"
proof -
  have "lifecycle_token k e = Barrier" using assms(2) by (cases k) (simp_all add: entity_token_def)
  with verify_inv_initial assms(1) show ?thesis by (rule verifier.accepted_closed_at_barrier)
qed

theorem run_finishes_with_nothing_open_witness:
  "accepts verify_event initial_verify_state demo_run \<and>
   \<not> is_open (final_state verify_event initial_verify_state (butlast demo_run)) (SubagentKey (JStr ''s1''))"
proof -
  have split: "demo_run = butlast demo_run @ [last demo_run]" by code_simp
  have "accepts verify_event initial_verify_state (butlast demo_run @ [last demo_run])"
    using demo_accepted split by simp
  then have "\<not> is_open (final_state verify_event initial_verify_state (butlast demo_run)) (SubagentKey (JStr ''s1''))"
    by (rule run_finishes_with_nothing_open) code_simp
  with demo_accepted show ?thesis by simp
qed

text \<open>
  C40. The verifier refines the run life cycle: the run-level events of an accepted stream are a path
  of the automaton NotStarted, Active, Finished, Errored, and its flags denote the current phase.
\<close>

theorem run_life_cycle_refined:
  assumes "accepts verify_event initial_verify_state es"
  shows "phase_run NotStarted (map etype es) =
           Some (phase_of (final_state verify_event initial_verify_state es))"
  using phase_run_refines [OF verify_inv_initial assms] by (simp add: phase_of_initial)

theorem run_life_cycle_refined_witness:
  "phase_run NotStarted (map etype demo_run) =
     Some (phase_of (final_state verify_event initial_verify_state demo_run))"
  by (rule run_life_cycle_refined [OF demo_accepted])

text \<open>
  An event the life cycle forbids ends the stream there: everything before it was passed on, it
  and everything after it is not, and the error names the phase that forbids it.
\<close>

theorem out_of_phase_rejected:
  assumes "accepts verify_event initial_verify_state es"
    and "phase_run NotStarted (map etype (es @ [e])) = None"
  shows "verifyEvents (es @ e # rest) =
    (map clean es,
     Some (case phase_of (final_state verify_event initial_verify_state es) of
             NotStarted \<Rightarrow> FirstEventMustBeRunStarted | Active \<Rightarrow> RunStillActive
           | Finished \<Rightarrow> RunAlreadyFinished (etype e) | Errored \<Rightarrow> RunAlreadyErrored (etype e)))"
proof -
  let ?s = "final_state verify_event initial_verify_state es"
  have run_append: "phase_run p (ts @ [t]) = (case phase_run p ts of None \<Rightarrow> None | Some p' \<Rightarrow> phase_step p' t)"
    for p t and ts :: "event_type list"
    by (induction ts arbitrary: p) (auto split: option.splits)
  have "phase_run NotStarted (map etype es) = Some (phase_of ?s)"
    using phase_run_refines [OF verify_inv_initial assms(1)] by (simp add: phase_of_initial)
  with assms(2) have none: "phase_step (phase_of ?s) (etype e) = None"
    by (simp add: run_append)
  have "verify_inv ?s" by (simp add: verifier.run_inv)
  then have "phase_inv ?s" by (simp add: verify_inv_def)
  from phase_inv_run_phase [OF this, of "etype e"] none
  have fails: "verify_event ?s e = Inl (case phase_of ?s of NotStarted \<Rightarrow> FirstEventMustBeRunStarted
     | Active \<Rightarrow> RunStillActive | Finished \<Rightarrow> RunAlreadyFinished (etype e) | Errored \<Rightarrow> RunAlreadyErrored (etype e))"
    by (simp add: verify_event_def)
  obtain n where "emitted verify_event initial_verify_state es = map clean (take n es)" "n = length es"
    using emitted_clean [of initial_verify_state es] assms(1) by blast
  moreover have "failure f s (xs @ ys) = failure f (final_state f s xs) ys" if "accepts f s xs"
    for f :: "(verify_state, event, verify_error, event) stage" and s xs ys
    using that by (induction xs arbitrary: s) (auto simp: accepts_Cons)
  ultimately show ?thesis
    using fails assms(1) by (simp add: verifyEvents_def emitted_append)
qed

theorem out_of_phase_rejected_witness:
  "verifyEvents (demo_run @ ev CUSTOM [] # []) = (map clean demo_run, Some (RunAlreadyFinished CUSTOM))"
proof -
  have "verifyEvents (demo_run @ ev CUSTOM [] # []) =
    (map clean demo_run,
     Some (case phase_of (final_state verify_event initial_verify_state demo_run) of
             NotStarted \<Rightarrow> FirstEventMustBeRunStarted | Active \<Rightarrow> RunStillActive
           | Finished \<Rightarrow> RunAlreadyFinished (etype (ev CUSTOM []))
           | Errored \<Rightarrow> RunAlreadyErrored (etype (ev CUSTOM []))))"
    by (rule out_of_phase_rejected [OF demo_accepted]) code_simp
  moreover have "phase_of (final_state verify_event initial_verify_state demo_run) = Finished"
    by code_simp
  ultimately show ?thesis by (simp add: ev_def)
qed


text \<open>
  An accepted TOOL_CALL_START that names a message whose owner is on record leaves the call
  recorded under the owner of that message, tagged or not, first opening or reopening.
\<close>

theorem tool_call_owned_by_its_message:
  assumes "verify_inv st" and "verify_event st e = Inr (ys, st')" and "etype e = TOOL_CALL_START"
    and "attr e ''parentMessageId'' \<noteq> JUndef"
    and "get_own Message (attr e ''parentMessageId'') (owners st) = Some own"
  shows "get_own ToolCall (attr e ''toolCallId'') (owners st') = Some own \<and>
         get_own Message (attr e ''parentMessageId'') (owners st') = Some own"
proof
  have "phase_inv st" using assms(1) by (simp add: verify_inv_def)
  note sw = verify_event_entered(2) [OF this assms(2)]
  have par: "parent_owner (entered st e) (clean e) = Some own"
    using assms(3-5) by (simp add: parent_owner_def entered_owners attr_clean)
  with sw assms(3) show "get_own ToolCall (attr e ''toolCallId'') (owners st') = Some own"
    by (auto simp: verify_switch_def verify_success call_owner_def subagentTagError_def attr_clean
       split: option.splits if_splits)
  show "get_own Message (attr e ''parentMessageId'') (owners st') = Some own"
    using verify_event_keeps_owner [OF assms(1,2,5)] assms(3) by (simp add: reowns_def)
qed

definition call_in_message :: verify_state where
  "call_in_message = final_state verify_event initial_verify_state
     [ev RUN_STARTED [], ev TEXT_MESSAGE_START [(''messageId'', ''m1''), (''subagentRunId'', ''s1'')]]"

theorem tool_call_owned_by_its_message_witness:
  "get_own ToolCall (JStr ''c1'') (owners (final_state verify_event call_in_message
     [ev TOOL_CALL_START [(''toolCallId'', ''c1''), (''toolCallName'', ''f''), (''parentMessageId'', ''m1'')]]))
   = Some (JStr ''s1'')"
proof -
  let ?e = "ev TOOL_CALL_START [(''toolCallId'', ''c1''), (''toolCallName'', ''f''), (''parentMessageId'', ''m1'')]"
  have inv: "verify_inv call_in_message" by (simp add: call_in_message_def verifier.run_inv)
  obtain ys st' where r: "verify_event call_in_message ?e = Inr (ys, st')"
  proof -
    have "\<not> isl (verify_event call_in_message ?e)" by code_simp
    then show thesis using that by (cases "verify_event call_in_message ?e") auto
  qed
  have "get_own ToolCall (attr ?e ''toolCallId'') (owners st') = Some (JStr ''s1'') \<and>
        get_own Message (attr ?e ''parentMessageId'') (owners st') = Some (JStr ''s1'')"
    using inv r by (rule tool_call_owned_by_its_message) code_simp+
  with r show ?thesis by (simp add: ev_def)
qed



text \<open>
  An event-level subagentRunId: null is read as absent on every event: a stream gets the same
  output and the same verdict as the stream with the null tags left out.
\<close>

theorem null_tag_reads_as_absent: "verifyEvents (map clean es) = verifyEvents es"
  using run_same [of initial_verify_state initial_verify_state es]
  by (simp add: verifyEvents_def same_but_notice_def)

end
