(* ===== verification/AGUI_Chunks.thy ===== *)
theory AGUI_Chunks
  imports AGUI_Events
begin

section \<open>Chunk expansion\<close>

text \<open>
  \<^verbatim>\<open>client/src/chunks/transform.ts\<close>: the operator \<open>transformChunks\<close> expands the
  shorthand events \<open>TEXT_MESSAGE_CHUNK\<close>, \<open>TOOL_CALL_CHUNK\<close> and
  \<open>REASONING_MESSAGE_CHUNK\<close> into start, content and end events. It keeps one stream under
  assembly per lane, a lane being the subagent the chunks are attributed to (\<open>undefined\<close> is
  the parent agent). The closure's \<open>lanes\<close> map and the calls of \<open>warnChunkAside\<close> are the
  state; an \<open>Error\<close> is a constructor of \<open>chunk_error\<close>. The \<open>finalize\<close> callback
  only clears the lanes of a stream that has ended and emits nothing.
\<close>

subsection \<open>State and errors\<close>

record text_fields =
  text_messageId :: js
  text_role :: js
  text_name :: js
  text_subagentRunId :: js

record tool_fields =
  tool_toolCallId :: js
  tool_toolCallName :: js
  tool_parentMessageId :: js
  tool_subagentRunId :: js

record reasoning_fields =
  reasoning_messageId :: js
  reasoning_subagentRunId :: js

datatype pending_stream =
    PText text_fields | PTool tool_fields | PReasoning reasoning_fields

datatype stream_kind = KText | KTool | KReasoning

record chunk_state =
  lanes :: "(js \<times> pending_stream) list"
  asides :: "(event_type \<times> string list) list"

definition initial_chunk_state :: chunk_state where
  "initial_chunk_state = \<lparr>lanes = [], asides = []\<rparr>"

datatype chunk_error =
    OpenerDisagreement stream_kind js string js js
  | LaneDisagreement stream_kind js js js
  | AmbiguousChunk stream_kind nat
  | FirstChunkMissing event_type string

fun kind_of :: "pending_stream \<Rightarrow> stream_kind" where
  "kind_of (PText _) = KText"
| "kind_of (PTool _) = KTool"
| "kind_of (PReasoning _) = KReasoning"

fun pendingEntityId :: "pending_stream \<Rightarrow> js" where
  "pendingEntityId (PText f) = text_messageId f"
| "pendingEntityId (PTool f) = tool_toolCallId f"
| "pendingEntityId (PReasoning f) = reasoning_messageId f"

fun pending_tag :: "pending_stream \<Rightarrow> js" where
  "pending_tag (PText f) = text_subagentRunId f"
| "pending_tag (PTool f) = tool_subagentRunId f"
| "pending_tag (PReasoning f) = reasoning_subagentRunId f"

subsection \<open>Helpers\<close>

definition requireOpenerAgreement ::
    "stream_kind \<Rightarrow> js \<Rightarrow> string \<Rightarrow> js \<Rightarrow> js \<Rightarrow> chunk_error option" where
  "requireOpenerAgreement kind eid fld incoming established =
     (if incoming \<noteq> JUndef \<and> incoming \<noteq> established
      then Some (OpenerDisagreement kind eid fld incoming established) else None)"

definition withChunkMetadata :: "event \<Rightarrow> event \<Rightarrow> event" where
  "withChunkMetadata e chunk =
     (if attr chunk ''metadata'' = JUndef then e
      else with_prop ''metadata'' (attr chunk ''metadata'') e)"

definition withChunkOrigin :: "event \<Rightarrow> event \<Rightarrow> event" where
  "withChunkOrigin e chunk =
     (let withMetadata = withChunkMetadata e chunk in
      if attr chunk ''rawEvent'' = JUndef then withMetadata
      else with_prop ''rawEvent'' (attr chunk ''rawEvent'') withMetadata)"

definition TEXT_CHUNK_FIELDS :: "string list" where
  "TEXT_CHUNK_FIELDS = [''type'', ''timestamp'', ''rawEvent'', ''metadata'', ''subagentRunId'',
     ''messageId'', ''role'', ''delta'', ''name'']"

definition TOOL_CHUNK_FIELDS :: "string list" where
  "TOOL_CHUNK_FIELDS = [''type'', ''timestamp'', ''rawEvent'', ''metadata'', ''subagentRunId'',
     ''toolCallId'', ''toolCallName'', ''parentMessageId'', ''delta'']"

definition REASONING_CHUNK_FIELDS :: "string list" where
  "REASONING_CHUNK_FIELDS = [''type'', ''timestamp'', ''rawEvent'', ''metadata'',
     ''subagentRunId'', ''messageId'', ''delta'']"

text \<open>The properties no schema field describes; \<open>[]\<close> is the source's \<open>undefined\<close>.\<close>

definition unrecognisedChunkProperties :: "event \<Rightarrow> string list \<Rightarrow> jobj" where
  "unrecognisedChunkProperties chunk described =
     filter (\<lambda>(k, v). k \<notin> set described) (props chunk)"

definition shadowedKeys :: "jobj \<Rightarrow> event \<Rightarrow> string list" where
  "shadowedKeys remainder e = filter (has_own (props e)) (map fst remainder)"

definition carryRemainderOnOpener ::
    "event list \<Rightarrow> jobj \<Rightarrow> bool \<Rightarrow> event_type \<Rightarrow> event list \<times> (event_type \<times> string list) list" where
  "carryRemainderOnOpener synthesized remainder alreadyCarried chunkType =
     (if remainder = [] \<or> alreadyCarried \<or> synthesized = [] then (synthesized, [])
      else let e = last synthesized; shadowed = shadowedKeys remainder e in
        (butlast synthesized @ [Event (etype e) (spread (spread [] remainder) (props e))],
         if shadowed \<noteq> [] then [(chunkType, shadowed)] else []))"

subsection \<open>Lanes\<close>

fun end_event :: "pending_stream \<Rightarrow> event" where
  "end_event (PText f) = Event TEXT_MESSAGE_END
     ([(''messageId'', text_messageId f)] @ opt_field ''subagentRunId'' (text_subagentRunId f))"
| "end_event (PTool f) = Event TOOL_CALL_END
     ([(''toolCallId'', tool_toolCallId f)] @ opt_field ''subagentRunId'' (tool_subagentRunId f))"
| "end_event (PReasoning f) = Event REASONING_MESSAGE_END
     ([(''messageId'', reasoning_messageId f)] @ opt_field ''subagentRunId'' (reasoning_subagentRunId f))"

definition closeLane :: "js \<Rightarrow> chunk_state \<Rightarrow> event list \<times> chunk_state" where
  "closeLane owner st =
     (case map_of (lanes st) owner of
        None \<Rightarrow> ([], st)
      | Some pending \<Rightarrow>
          ([end_event pending], st\<lparr>lanes := AList.delete owner (lanes st)\<rparr>))"

fun closeLanes :: "js list \<Rightarrow> chunk_state \<Rightarrow> event list \<times> chunk_state" where
  "closeLanes [] st = ([], st)"
| "closeLanes (owner # owners) st =
     (let (es, st1) = closeLane owner st; (fs, st2) = closeLanes owners st1 in (es @ fs, st2))"

definition closeAllLanes :: "chunk_state \<Rightarrow> event list \<times> chunk_state" where
  "closeAllLanes st = closeLanes (map fst (lanes st)) st"

definition laneHolding :: "stream_kind \<Rightarrow> js \<Rightarrow> chunk_state \<Rightarrow> js option" where
  "laneHolding kind entityId st =
     map_option fst
       (find (\<lambda>(owner, p). kind_of p = kind \<and> pendingEntityId p = entityId) (lanes st))"

definition resolveLane :: "stream_kind \<Rightarrow> js \<Rightarrow> js \<Rightarrow> chunk_state \<Rightarrow> chunk_error + js" where
  "resolveLane kind entityId tag st =
     (if entityId \<noteq> JUndef then
        (case laneHolding kind entityId st of
           Some holder \<Rightarrow>
             if tag \<noteq> JUndef \<and> tag \<noteq> holder then Inl (LaneDisagreement kind entityId tag holder)
             else Inr holder
         | None \<Rightarrow> Inr tag)
      else if tag \<noteq> JUndef then Inr tag
      else if map_option kind_of (map_of (lanes st) JUndef) = Some kind then Inr JUndef
      else
        (case filter (\<lambda>(owner, p). kind_of p = kind) (lanes st) of
           [] \<Rightarrow> Inr JUndef
         | [(owner, p)] \<Rightarrow> Inr owner
         | candidates \<Rightarrow> Inl (AmbiguousChunk kind (length candidates))))"

subsection \<open>What a chunk contributes besides its opener\<close>

text \<open>
  The three arms share their second half: a content event when the chunk carries a delta or a
  provider payload, otherwise a zero-delta content event when nothing else was synthesized and
  the chunk carries something that must reach the next stage, and the remainder on the opener.
\<close>

definition content_owner :: "event \<Rightarrow> js \<Rightarrow> js" where
  "content_owner chunk established =
     (if attr chunk ''subagentRunId'' \<noteq> JUndef then attr chunk ''subagentRunId'' else established)"

definition content_event :: "event_type \<Rightarrow> string \<Rightarrow> js \<Rightarrow> js \<Rightarrow> jobj \<Rightarrow> event \<Rightarrow> event" where
  "content_event contentType idField eid established remainder chunk =
     withChunkOrigin
       (Event contentType
          (spread (spread [] remainder)
             ([(idField, eid),
               (''delta'', if attr chunk ''delta'' = JUndef then JStr '''' else attr chunk ''delta'')]
              @ opt_field ''subagentRunId'' (content_owner chunk established))))
       chunk"

definition metadata_event :: "event_type \<Rightarrow> string \<Rightarrow> js \<Rightarrow> js \<Rightarrow> jobj \<Rightarrow> event \<Rightarrow> event" where
  "metadata_event contentType idField eid established remainder chunk =
     Event contentType
       (spread (spread [] remainder)
          ([(idField, eid), (''delta'', JStr '''')]
           @ opt_field ''metadata'' (attr chunk ''metadata'')
           @ opt_field ''rawEvent'' (attr chunk ''rawEvent'')
           @ opt_field ''subagentRunId'' (content_owner chunk established)))"

definition finish_chunk ::
    "event_type \<Rightarrow> string \<Rightarrow> js \<Rightarrow> js \<Rightarrow> jobj \<Rightarrow> event \<Rightarrow> event list
      \<Rightarrow> event list \<times> (event_type \<times> string list) list" where
  "finish_chunk contentType idField eid established remainder chunk opened =
     (if attr chunk ''delta'' \<noteq> JUndef \<or> attr chunk ''rawEvent'' \<noteq> JUndef
      then carryRemainderOnOpener
             (opened @ [content_event contentType idField eid established remainder chunk])
             remainder True (etype chunk)
      else if opened = [] \<and>
              (attr chunk ''metadata'' \<noteq> JUndef \<or> attr chunk ''rawEvent'' \<noteq> JUndef
               \<or> attr chunk ''subagentRunId'' = JNull \<or> remainder \<noteq> [])
      then carryRemainderOnOpener
             [metadata_event contentType idField eid established remainder chunk]
             remainder True (etype chunk)
      else carryRemainderOnOpener opened remainder False (etype chunk))"

definition finish_with ::
    "chunk_state \<Rightarrow> event list \<times> (event_type \<times> string list) list \<Rightarrow> event list \<times> chunk_state" where
  "finish_with st r = (fst r, st\<lparr>asides := asides st @ snd r\<rparr>)"

subsection \<open>The three chunk arms\<close>

definition text_start :: "event \<Rightarrow> event" where
  "text_start chunk =
     withChunkMetadata
       (Event TEXT_MESSAGE_START
          ([(''messageId'', attr chunk ''messageId''),
            (''role'', if attr chunk ''role'' = JUndef then JStr ''assistant'' else attr chunk ''role'')]
           @ opt_field ''name'' (attr chunk ''name'')
           @ opt_field ''subagentRunId'' (attr chunk ''subagentRunId'')))
       chunk"

definition finish_text :: "event \<Rightarrow> text_fields \<Rightarrow> event list
    \<Rightarrow> event list \<times> (event_type \<times> string list) list" where
  "finish_text chunk f opened =
     finish_chunk TEXT_MESSAGE_CONTENT ''messageId'' (text_messageId f) (text_subagentRunId f)
       (unrecognisedChunkProperties chunk TEXT_CHUNK_FIELDS) chunk opened"

definition open_text :: "chunk_state \<Rightarrow> event \<Rightarrow> js \<Rightarrow> chunk_error + event list \<times> chunk_state" where
  "open_text st chunk lane =
     (let (closed, st1) = closeLane lane st;
          f = \<lparr>text_messageId = attr chunk ''messageId'',
               text_role = (if attr chunk ''role'' = JUndef then JStr ''assistant''
                            else attr chunk ''role''),
               text_name = attr chunk ''name'',
               text_subagentRunId = attr chunk ''subagentRunId''\<rparr> in
      if attr chunk ''messageId'' = JUndef
      then Inl (FirstChunkMissing TEXT_MESSAGE_CHUNK ''messageId'')
      else Inr (finish_with (st1\<lparr>lanes := AList.update lane (PText f) (lanes st1)\<rparr>)
                  (finish_text chunk f (closed @ [text_start chunk]))))"

definition continue_text :: "chunk_state \<Rightarrow> event \<Rightarrow> text_fields \<Rightarrow> chunk_error + event list \<times> chunk_state" where
  "continue_text st chunk f =
     (case requireOpenerAgreement KText (text_messageId f) ''role'' (attr chunk ''role'') (text_role f) of
        Some err \<Rightarrow> Inl err
      | None \<Rightarrow>
          (case requireOpenerAgreement KText (text_messageId f) ''name'' (attr chunk ''name'') (text_name f) of
             Some err \<Rightarrow> Inl err
           | None \<Rightarrow> Inr (finish_with st (finish_text chunk f []))))"

definition text_chunk :: "(chunk_state, event, chunk_error, event) stage" where
  "text_chunk st chunk =
     (let entityId = attr chunk ''messageId'' in
      case resolveLane KText entityId (null_to_undef (attr chunk ''subagentRunId'')) st of
        Inl err \<Rightarrow> Inl err
      | Inr lane \<Rightarrow>
          (case map_of (lanes st) lane of
             Some (PText f) \<Rightarrow>
               if entityId = JUndef \<or> entityId = text_messageId f then continue_text st chunk f
               else open_text st chunk lane
           | _ \<Rightarrow> open_text st chunk lane))"

definition tool_start :: "event \<Rightarrow> event" where
  "tool_start chunk =
     withChunkMetadata
       (Event TOOL_CALL_START
          ([(''toolCallId'', attr chunk ''toolCallId''),
            (''toolCallName'', attr chunk ''toolCallName'')]
           @ opt_field ''parentMessageId'' (attr chunk ''parentMessageId'')
           @ opt_field ''subagentRunId'' (attr chunk ''subagentRunId'')))
       chunk"

definition finish_tool :: "event \<Rightarrow> tool_fields \<Rightarrow> event list
    \<Rightarrow> event list \<times> (event_type \<times> string list) list" where
  "finish_tool chunk f opened =
     finish_chunk TOOL_CALL_ARGS ''toolCallId'' (tool_toolCallId f) (tool_subagentRunId f)
       (unrecognisedChunkProperties chunk TOOL_CHUNK_FIELDS) chunk opened"

definition open_tool :: "chunk_state \<Rightarrow> event \<Rightarrow> js \<Rightarrow> chunk_error + event list \<times> chunk_state" where
  "open_tool st chunk lane =
     (let (closed, st1) = closeLane lane st;
          f = \<lparr>tool_toolCallId = attr chunk ''toolCallId'',
               tool_toolCallName = attr chunk ''toolCallName'',
               tool_parentMessageId = attr chunk ''parentMessageId'',
               tool_subagentRunId = attr chunk ''subagentRunId''\<rparr> in
      if attr chunk ''toolCallId'' = JUndef
      then Inl (FirstChunkMissing TOOL_CALL_CHUNK ''toolCallId'')
      else if attr chunk ''toolCallName'' = JUndef
      then Inl (FirstChunkMissing TOOL_CALL_CHUNK ''toolCallName'')
      else Inr (finish_with (st1\<lparr>lanes := AList.update lane (PTool f) (lanes st1)\<rparr>)
                  (finish_tool chunk f (closed @ [tool_start chunk]))))"

definition continue_tool :: "chunk_state \<Rightarrow> event \<Rightarrow> tool_fields \<Rightarrow> chunk_error + event list \<times> chunk_state" where
  "continue_tool st chunk f =
     (case requireOpenerAgreement KTool (tool_toolCallId f) ''toolCallName'' (attr chunk ''toolCallName'') (tool_toolCallName f) of
        Some err \<Rightarrow> Inl err
      | None \<Rightarrow>
          (case requireOpenerAgreement KTool (tool_toolCallId f) ''parentMessageId'' (attr chunk ''parentMessageId'') (tool_parentMessageId f) of
             Some err \<Rightarrow> Inl err
           | None \<Rightarrow> Inr (finish_with st (finish_tool chunk f []))))"

definition tool_chunk :: "(chunk_state, event, chunk_error, event) stage" where
  "tool_chunk st chunk =
     (let entityId = attr chunk ''toolCallId'' in
      case resolveLane KTool entityId (null_to_undef (attr chunk ''subagentRunId'')) st of
        Inl err \<Rightarrow> Inl err
      | Inr lane \<Rightarrow>
          (case map_of (lanes st) lane of
             Some (PTool f) \<Rightarrow>
               if entityId = JUndef \<or> entityId = tool_toolCallId f then continue_tool st chunk f
               else open_tool st chunk lane
           | _ \<Rightarrow> open_tool st chunk lane))"

definition reasoning_start :: "event \<Rightarrow> event" where
  "reasoning_start chunk =
     withChunkMetadata
       (Event REASONING_MESSAGE_START
          ([(''messageId'', attr chunk ''messageId''), (''role'', JStr ''reasoning'')]
           @ opt_field ''subagentRunId'' (attr chunk ''subagentRunId'')))
       chunk"

definition finish_reasoning :: "event \<Rightarrow> reasoning_fields \<Rightarrow> event list
    \<Rightarrow> event list \<times> (event_type \<times> string list) list" where
  "finish_reasoning chunk f opened =
     finish_chunk REASONING_MESSAGE_CONTENT ''messageId'' (reasoning_messageId f) (reasoning_subagentRunId f)
       (unrecognisedChunkProperties chunk REASONING_CHUNK_FIELDS) chunk opened"

definition open_reasoning :: "chunk_state \<Rightarrow> event \<Rightarrow> js \<Rightarrow> chunk_error + event list \<times> chunk_state" where
  "open_reasoning st chunk lane =
     (let (closed, st1) = closeLane lane st;
          f = \<lparr>reasoning_messageId = attr chunk ''messageId'',
               reasoning_subagentRunId = attr chunk ''subagentRunId''\<rparr> in
      if attr chunk ''messageId'' = JUndef
      then Inl (FirstChunkMissing REASONING_MESSAGE_CHUNK ''messageId'')
      else Inr (finish_with (st1\<lparr>lanes := AList.update lane (PReasoning f) (lanes st1)\<rparr>)
                  (finish_reasoning chunk f (closed @ [reasoning_start chunk]))))"

definition continue_reasoning :: "chunk_state \<Rightarrow> event \<Rightarrow> reasoning_fields \<Rightarrow> chunk_error + event list \<times> chunk_state" where
  "continue_reasoning st chunk f =
     Inr (finish_with st (finish_reasoning chunk f []))"

definition reasoning_chunk :: "(chunk_state, event, chunk_error, event) stage" where
  "reasoning_chunk st chunk =
     (let entityId = attr chunk ''messageId'' in
      case resolveLane KReasoning entityId (null_to_undef (attr chunk ''subagentRunId'')) st of
        Inl err \<Rightarrow> Inl err
      | Inr lane \<Rightarrow>
          (case map_of (lanes st) lane of
             Some (PReasoning f) \<Rightarrow>
               if entityId = JUndef \<or> entityId = reasoning_messageId f then continue_reasoning st chunk f
               else open_reasoning st chunk lane
           | _ \<Rightarrow> open_reasoning st chunk lane))"

subsection \<open>The operator\<close>

definition closes_own_lane :: "event_type \<Rightarrow> bool" where
  "closes_own_lane t \<longleftrightarrow>
     t \<in> {TEXT_MESSAGE_START, TEXT_MESSAGE_CONTENT, TEXT_MESSAGE_END, TOOL_CALL_START,
          TOOL_CALL_ARGS, TOOL_CALL_END, TOOL_CALL_RESULT, STATE_SNAPSHOT, STATE_DELTA, CUSTOM,
          STEP_STARTED, STEP_FINISHED, REASONING_START, REASONING_MESSAGE_START,
          REASONING_MESSAGE_CONTENT, REASONING_MESSAGE_END, REASONING_END}"

definition closes_all_lanes :: "event_type \<Rightarrow> bool" where
  "closes_all_lanes t \<longleftrightarrow> t \<in> {RUN_STARTED, RUN_FINISHED, RUN_ERROR, MESSAGES_SNAPSHOT}"

definition then_pass :: "event list \<times> chunk_state \<Rightarrow> event \<Rightarrow> chunk_error + event list \<times> chunk_state" where
  "then_pass r e = Inr (fst r @ [e], snd r)"

definition chunk_event :: "(chunk_state, event, chunk_error, event) stage" where
  "chunk_event st e =
     (let t = etype e; tag = attr e ''subagentRunId'' in
      if closes_own_lane t then then_pass (closeLane (null_to_undef tag) st) e
      else if closes_all_lanes t then then_pass (closeAllLanes st) e
      else if t = SUBAGENT_FINISHED \<or> t = SUBAGENT_ERROR then
        (if nullish tag then Inr ([e], st) else then_pass (closeLane tag st) e)
      else if t = TEXT_MESSAGE_CHUNK then text_chunk st e
      else if t = TOOL_CALL_CHUNK then tool_chunk st e
      else if t = REASONING_MESSAGE_CHUNK then reasoning_chunk st e
      else Inr ([e], st))"

definition finalizeLanes :: "chunk_state \<Rightarrow> chunk_state" where
  "finalizeLanes st = snd (closeAllLanes st)"

definition transformChunks :: "event list \<Rightarrow> event list \<times> chunk_error option" where
  "transformChunks es =
     (emitted chunk_event initial_chunk_state es, failure chunk_event initial_chunk_state es)"

subsection \<open>One view of the three arms\<close>

fun chunk_type :: "stream_kind \<Rightarrow> event_type" where
  "chunk_type KText = TEXT_MESSAGE_CHUNK"
| "chunk_type KTool = TOOL_CALL_CHUNK"
| "chunk_type KReasoning = REASONING_MESSAGE_CHUNK"

fun content_type :: "stream_kind \<Rightarrow> event_type" where
  "content_type KText = TEXT_MESSAGE_CONTENT"
| "content_type KTool = TOOL_CALL_ARGS"
| "content_type KReasoning = REASONING_MESSAGE_CONTENT"

fun start_type :: "stream_kind \<Rightarrow> event_type" where
  "start_type KText = TEXT_MESSAGE_START"
| "start_type KTool = TOOL_CALL_START"
| "start_type KReasoning = REASONING_MESSAGE_START"

fun id_field :: "stream_kind \<Rightarrow> string" where
  "id_field KTool = ''toolCallId''"
| "id_field _ = ''messageId''"

fun described :: "stream_kind \<Rightarrow> string list" where
  "described KText = TEXT_CHUNK_FIELDS"
| "described KTool = TOOL_CHUNK_FIELDS"
| "described KReasoning = REASONING_CHUNK_FIELDS"

fun start_event :: "stream_kind \<Rightarrow> event \<Rightarrow> event" where
  "start_event KText e = text_start e"
| "start_event KTool e = tool_start e"
| "start_event KReasoning e = reasoning_start e"

definition continues :: "stream_kind \<Rightarrow> event \<Rightarrow> pending_stream \<Rightarrow> bool" where
  "continues kind e p \<longleftrightarrow> kind_of p = kind \<and>
     (attr e (id_field kind) = JUndef \<or> attr e (id_field kind) = pendingEntityId p)"

definition finished :: "stream_kind \<Rightarrow> pending_stream \<Rightarrow> event \<Rightarrow> event list
    \<Rightarrow> event list \<times> (event_type \<times> string list) list" where
  "finished kind p e opened =
     finish_chunk (content_type kind) (id_field kind) (pendingEntityId p) (pending_tag p)
       (unrecognisedChunkProperties e (described kind)) e opened"

inductive expands :: "stream_kind \<Rightarrow> chunk_state \<Rightarrow> event \<Rightarrow> event list \<Rightarrow> chunk_state \<Rightarrow> bool" where
  continue_lane:
    "expands kind st e (fst (finished kind p e []))
       (st\<lparr>asides := asides st @ snd (finished kind p e [])\<rparr>)"
  if "resolveLane kind (attr e (id_field kind)) (null_to_undef (attr e ''subagentRunId'')) st = Inr lane"
    and "map_of (lanes st) lane = Some p" and "continues kind e p"
| open_lane:
    "expands kind st e (fst (finished kind p e opened))
       (st\<lparr>lanes := AList.update lane p (AList.delete lane (lanes st)),
           asides := asides st @ snd (finished kind p e opened)\<rparr>)"
  if "resolveLane kind (attr e (id_field kind)) (null_to_undef (attr e ''subagentRunId'')) st = Inr lane"
    and "\<not> (\<exists>q. map_of (lanes st) lane = Some q \<and> continues kind e q)"
    and "attr e (id_field kind) \<noteq> JUndef" and "kind_of p = kind"
    and "pendingEntityId p = attr e (id_field kind)" and "pending_tag p = attr e ''subagentRunId''"
    and "opened = fst (closeLane lane st) @ [start_event kind e]"

lemma closeLane_eq:
  "closeLane owner st =
     ((case map_of (lanes st) owner of None \<Rightarrow> [] | Some p \<Rightarrow> [end_event p]),
      st\<lparr>lanes := AList.delete owner (lanes st)\<rparr>)"
proof (cases "map_of (lanes st) owner")
  case None
  then have "AList.delete owner (lanes st) = lanes st" by (simp add: map_of_eq_None_iff)
  with None show ?thesis by (simp add: closeLane_def)
qed (simp add: closeLane_def)

lemma finish_kind [simp]:
  "finish_text e f opened = finished KText (PText f) e opened"
  "finish_tool e g opened = finished KTool (PTool g) e opened"
  "finish_reasoning e h opened = finished KReasoning (PReasoning h) e opened"
  by (simp_all add: finish_text_def finish_tool_def finish_reasoning_def finished_def)

lemma kind_of_iff:
  "kind_of p = KText \<longleftrightarrow> (\<exists>f. p = PText f)" "kind_of p = KTool \<longleftrightarrow> (\<exists>g. p = PTool g)"
  "kind_of p = KReasoning \<longleftrightarrow> (\<exists>h. p = PReasoning h)"
  by (cases p; simp)+

lemma expands_open:
  assumes "resolveLane kind (attr e (id_field kind)) (null_to_undef (attr e ''subagentRunId'')) st = Inr lane"
    and "\<not> (\<exists>q. map_of (lanes st) lane = Some q \<and> continues kind e q)"
    and "attr e (id_field kind) \<noteq> JUndef" and "kind_of p = kind"
    and "pendingEntityId p = attr e (id_field kind)" and "pending_tag p = attr e ''subagentRunId''"
    and "(out, st') = finish_with ((snd (closeLane lane st))\<lparr>lanes := AList.update lane p (lanes (snd (closeLane lane st)))\<rparr>)
           (finished kind p e (fst (closeLane lane st) @ [start_event kind e]))"
  shows "expands kind st e out st'"
  using expands.open_lane [OF assms(1-6) refl] assms(7)
  by (simp add: finish_with_def closeLane_eq)

lemma open_text_expands:
  assumes "open_text st e lane = Inr (out, st')"
    and "resolveLane KText (attr e ''messageId'') (null_to_undef (attr e ''subagentRunId'')) st = Inr lane"
    and "\<not> (\<exists>q. map_of (lanes st) lane = Some q \<and> continues KText e q)"
  shows "expands KText st e out st'"
  using assms
  by (intro expands_open [where lane = lane and p = "PText \<lparr>text_messageId = attr e ''messageId'',
               text_role = (if attr e ''role'' = JUndef then JStr ''assistant'' else attr e ''role''),
               text_name = attr e ''name'', text_subagentRunId = attr e ''subagentRunId''\<rparr>"])
    (auto simp: open_text_def Let_def split: prod.splits if_splits)

lemma text_chunk_expands:
  assumes "text_chunk st e = Inr (out, st')" shows "expands KText st e out st'"
proof -
  from assms obtain lane where lane:
    "resolveLane KText (attr e ''messageId'') (null_to_undef (attr e ''subagentRunId'')) st = Inr lane"
    by (auto simp: text_chunk_def Let_def split: sum.splits)
  show ?thesis
  proof (cases "\<exists>q. map_of (lanes st) lane = Some q \<and> continues KText e q")
    case True
    then obtain f where f: "map_of (lanes st) lane = Some (PText f)" "continues KText e (PText f)"
      by (auto simp: continues_def kind_of_iff)
    with assms lane have "continue_text st e f = Inr (out, st')"
      by (auto simp: text_chunk_def continues_def Let_def)
    then have "(out, st') = finish_with st (finished KText (PText f) e [])"
      by (auto simp: continue_text_def split: option.splits)
    then show ?thesis
      using expands.continue_lane [of KText e st lane "PText f"] lane f by (simp add: finish_with_def)
  next
    case False
    with assms lane have "open_text st e lane = Inr (out, st')"
      by (auto simp: text_chunk_def continues_def Let_def split: option.splits pending_stream.splits if_splits)
    then show ?thesis using lane False by (rule open_text_expands)
  qed
qed

lemma open_tool_expands:
  assumes "open_tool st e lane = Inr (out, st')"
    and "resolveLane KTool (attr e ''toolCallId'') (null_to_undef (attr e ''subagentRunId'')) st = Inr lane"
    and "\<not> (\<exists>q. map_of (lanes st) lane = Some q \<and> continues KTool e q)"
  shows "expands KTool st e out st'"
  using assms
  by (intro expands_open [where lane = lane and p = "PTool \<lparr>tool_toolCallId = attr e ''toolCallId'',
               tool_toolCallName = attr e ''toolCallName'',
               tool_parentMessageId = attr e ''parentMessageId'', tool_subagentRunId = attr e ''subagentRunId''\<rparr>"])
    (auto simp: open_tool_def Let_def split: prod.splits if_splits)

lemma tool_chunk_expands:
  assumes "tool_chunk st e = Inr (out, st')" shows "expands KTool st e out st'"
proof -
  from assms obtain lane where lane:
    "resolveLane KTool (attr e ''toolCallId'') (null_to_undef (attr e ''subagentRunId'')) st = Inr lane"
    by (auto simp: tool_chunk_def Let_def split: sum.splits)
  show ?thesis
  proof (cases "\<exists>q. map_of (lanes st) lane = Some q \<and> continues KTool e q")
    case True
    then obtain f where f: "map_of (lanes st) lane = Some (PTool f)" "continues KTool e (PTool f)"
      by (auto simp: continues_def kind_of_iff)
    with assms lane have "continue_tool st e f = Inr (out, st')"
      by (auto simp: tool_chunk_def continues_def Let_def)
    then have "(out, st') = finish_with st (finished KTool (PTool f) e [])"
      by (auto simp: continue_tool_def split: option.splits)
    then show ?thesis
      using expands.continue_lane [of KTool e st lane "PTool f"] lane f by (simp add: finish_with_def)
  next
    case False
    with assms lane have "open_tool st e lane = Inr (out, st')"
      by (auto simp: tool_chunk_def continues_def Let_def split: option.splits pending_stream.splits if_splits)
    then show ?thesis using lane False by (rule open_tool_expands)
  qed
qed

lemma open_reasoning_expands:
  assumes "open_reasoning st e lane = Inr (out, st')"
    and "resolveLane KReasoning (attr e ''messageId'') (null_to_undef (attr e ''subagentRunId'')) st = Inr lane"
    and "\<not> (\<exists>q. map_of (lanes st) lane = Some q \<and> continues KReasoning e q)"
  shows "expands KReasoning st e out st'"
  using assms
  by (intro expands_open [where lane = lane and p = "PReasoning \<lparr>reasoning_messageId = attr e ''messageId'',
               reasoning_subagentRunId = attr e ''subagentRunId''\<rparr>"])
    (auto simp: open_reasoning_def Let_def split: prod.splits if_splits)

lemma reasoning_chunk_expands:
  assumes "reasoning_chunk st e = Inr (out, st')" shows "expands KReasoning st e out st'"
proof -
  from assms obtain lane where lane:
    "resolveLane KReasoning (attr e ''messageId'') (null_to_undef (attr e ''subagentRunId'')) st = Inr lane"
    by (auto simp: reasoning_chunk_def Let_def split: sum.splits)
  show ?thesis
  proof (cases "\<exists>q. map_of (lanes st) lane = Some q \<and> continues KReasoning e q")
    case True
    then obtain f where f: "map_of (lanes st) lane = Some (PReasoning f)" "continues KReasoning e (PReasoning f)"
      by (auto simp: continues_def kind_of_iff)
    with assms lane have "(out, st') = finish_with st (finished KReasoning (PReasoning f) e [])"
      by (auto simp: reasoning_chunk_def continues_def Let_def continue_reasoning_def)
    then show ?thesis
      using expands.continue_lane [of KReasoning e st lane "PReasoning f"] lane f by (simp add: finish_with_def)
  next
    case False
    with assms lane have "open_reasoning st e lane = Inr (out, st')"
      by (auto simp: reasoning_chunk_def continues_def Let_def split: option.splits pending_stream.splits if_splits)
    then show ?thesis using lane False by (rule open_reasoning_expands)
  qed
qed


inductive_cases expandsE: "expands kind st e out st'"

lemma chunk_event_expands:
  "chunk_event st e = Inr (out, st') \<Longrightarrow> etype e = chunk_type kind \<Longrightarrow> expands kind st e out st'"
  by (cases kind)
    (simp_all add: chunk_event_def closes_own_lane_def closes_all_lanes_def text_chunk_expands
      tool_chunk_expands reasoning_chunk_expands)

definition is_chunk :: "event \<Rightarrow> bool" where
  "is_chunk e \<longleftrightarrow> (\<exists>kind. etype e = chunk_type kind)"

lemma is_chunk_iff [code]:
  "is_chunk e \<longleftrightarrow> etype e \<in> {TEXT_MESSAGE_CHUNK, TOOL_CALL_CHUNK, REASONING_MESSAGE_CHUNK}"
proof
  assume "is_chunk e"
  then obtain kind where "etype e = chunk_type kind" by (auto simp: is_chunk_def)
  then show "etype e \<in> {TEXT_MESSAGE_CHUNK, TOOL_CALL_CHUNK, REASONING_MESSAGE_CHUNK}"
    by (cases kind) auto
next
  assume "etype e \<in> {TEXT_MESSAGE_CHUNK, TOOL_CALL_CHUNK, REASONING_MESSAGE_CHUNK}"
  then show "is_chunk e"
    by (auto simp: is_chunk_def intro: exI [of _ KText] exI [of _ KTool] exI [of _ KReasoning])
qed

subsection \<open>The lanes\<close>

definition lane_inv :: "chunk_state \<Rightarrow> bool" where
  "lane_inv st \<longleftrightarrow> distinct (map fst (lanes st)) \<and>
     (\<forall>(owner, p) \<in> set (lanes st). owner = null_to_undef (pending_tag p) \<and> pendingEntityId p \<noteq> JUndef)"

lemma laneHolding_Some:
  assumes "distinct (map fst (lanes st))" and "laneHolding kind x st = Some owner"
  shows "\<exists>p. map_of (lanes st) owner = Some p \<and> kind_of p = kind \<and> pendingEntityId p = x"
proof -
  from assms(2) obtain p where "(owner, p) \<in> set (lanes st)" "kind_of p = kind" "pendingEntityId p = x"
    unfolding laneHolding_def by (auto simp: find_Some_iff dest: nth_mem)
  with assms(1) show ?thesis by auto
qed

lemma resolveLane_opening:
  assumes "distinct (map fst (lanes st))"
    and "resolveLane kind (attr e (id_field kind)) tag st = Inr lane"
    and "\<not> (\<exists>q. map_of (lanes st) lane = Some q \<and> continues kind e q)"
    and "attr e (id_field kind) \<noteq> JUndef"
  shows "lane = tag"
proof (cases "laneHolding kind (attr e (id_field kind)) st")
  case None
  with assms(2,4) show ?thesis by (simp add: resolveLane_def)
next
  case (Some holder)
  with assms(2,4) have "lane = holder" by (simp add: resolveLane_def split: if_splits)
  obtain p where "map_of (lanes st) holder = Some p" "kind_of p = kind"
    "pendingEntityId p = attr e (id_field kind)"
    using laneHolding_Some [OF assms(1) Some] by blast
  then have "map_of (lanes st) lane = Some p" "continues kind e p"
    using \<open>lane = holder\<close> unfolding continues_def by simp_all
  with assms(3) show ?thesis by blast
qed

lemma resolveLane_tagged:
  "resolveLane kind x tag st = Inr lane \<Longrightarrow> tag \<noteq> JUndef \<Longrightarrow> lane = tag"
  by (cases "x = JUndef"; cases "laneHolding kind x st") (simp_all add: resolveLane_def split: if_splits)

lemma closeLanes_all:
  "distinct (map fst ls) \<Longrightarrow> lanes st = ls \<Longrightarrow>
     closeLanes (map fst ls) st = (map (end_event \<circ> snd) ls, st\<lparr>lanes := []\<rparr>)"
proof (induction ls arbitrary: st)
  case (Cons a ls)
  obtain owner p where a: "a = (owner, p)" by (cases a)
  have "owner \<notin> fst ` set ls" using Cons.prems(1) a by simp
  then have "closeLane owner st = ([end_event p], st\<lparr>lanes := ls\<rparr>)"
    using Cons.prems(2) a by (simp add: closeLane_eq)
  with Cons.IH [of "st\<lparr>lanes := ls\<rparr>"] Cons.prems a show ?case by simp
qed simp

lemma closeAllLanes_eq:
  "distinct (map fst (lanes st)) \<Longrightarrow>
     closeAllLanes st = (map (end_event \<circ> snd) (lanes st), st\<lparr>lanes := []\<rparr>)"
  by (simp add: closeAllLanes_def closeLanes_all)

lemma lane_inv_delete: "lane_inv st \<Longrightarrow> lane_inv (st\<lparr>lanes := AList.delete owner (lanes st)\<rparr>)"
  by (auto simp: lane_inv_def AList.delete_eq distinct_map_filter)

lemma lane_inv_asides [simp]: "lane_inv (st\<lparr>asides := a\<rparr>) = lane_inv st"
  by (simp add: lane_inv_def)

lemma expands_lane_inv:
  assumes "lane_inv st" and "expands kind st e out st'"
  shows "lane_inv st'"
  using assms(2)
proof cases
  case (continue_lane lane p)
  with assms(1) show ?thesis by simp
next
  case (open_lane lane p opened)
  have lane: "lane = null_to_undef (pending_tag p)"
    using resolveLane_opening [OF _ open_lane(3,4,5)] assms(1) open_lane(8) by (simp add: lane_inv_def)
  let ?l = "AList.delete lane (lanes st)"
  have del: "lane_inv (st\<lparr>lanes := ?l\<rparr>)" using assms(1) by (rule lane_inv_delete)
  have "map_of ?l lane = None" by (simp add: delete_conv')
  then have "AList.update lane p ?l = ?l @ [(lane, p)]" by (rule alist_update_new)
  moreover have "lane \<notin> fst ` set ?l" by (simp add: AList.delete_notin_dom)
  ultimately show ?thesis
    using del lane open_lane(2,5,7) by (auto simp: lane_inv_def)
qed

lemma chunk_event_lane_inv:
  assumes "lane_inv st" and "chunk_event st e = Inr (out, st')"
  shows "lane_inv st'"
proof (cases "is_chunk e")
  case True
  then show ?thesis
    using assms by (auto simp: is_chunk_def dest: chunk_event_expands expands_lane_inv)
next
  case False
  have dist: "distinct (map fst (lanes st))" using assms(1) by (simp add: lane_inv_def)
  have "lane_inv (st\<lparr>lanes := []\<rparr>)" by (simp add: lane_inv_def)
  with assms False lane_inv_delete [OF assms(1)] show ?thesis
    by (auto simp: chunk_event_def is_chunk_iff then_pass_def closeLane_eq closeAllLanes_eq [OF dist] Let_def
        split: if_splits)
qed

interpretation expander: invariant_stage chunk_event lane_inv
  by unfold_locales (rule chunk_event_lane_inv)

lemma lane_inv_initial [simp]: "lane_inv initial_chunk_state"
  by (simp add: lane_inv_def initial_chunk_state_def)

subsection \<open>What an expansion emits\<close>

lemma etype_withChunk [simp]:
  "etype (withChunkMetadata e c) = etype e" "etype (withChunkOrigin e c) = etype e"
  by (simp_all add: withChunkMetadata_def withChunkOrigin_def Let_def)

lemma etype_synthesized [simp]:
  "etype (content_event t idf i own r c) = t" "etype (metadata_event t idf i own r c) = t"
  "etype (start_event kind c) = start_type kind"
  by (simp_all add: content_event_def metadata_event_def)
    (cases kind; simp add: text_start_def tool_start_def reasoning_start_def)

lemma attr_withChunk [simp]:
  "k \<noteq> ''metadata'' \<Longrightarrow> attr (withChunkMetadata e c) k = attr e k"
  "k \<noteq> ''metadata'' \<Longrightarrow> k \<noteq> ''rawEvent'' \<Longrightarrow> attr (withChunkOrigin e c) k = attr e k"
  by (simp_all add: withChunkMetadata_def withChunkOrigin_def Let_def)

lemma has_own_withChunk:
  "has_own (props e) k \<Longrightarrow> has_own (props (withChunkMetadata e c)) k"
  "has_own (props e) k \<Longrightarrow> has_own (props (withChunkOrigin e c)) k"
  by (simp_all add: withChunkMetadata_def withChunkOrigin_def with_prop_def Let_def)

lemma distinct_opt_field [simp]: "distinct (map fst (opt_field k v))"
  by (simp add: opt_field_def)

lemma map_fst_opt_field: "map fst (opt_field k v) = (if v = JUndef then [] else [k])"
  by (simp add: opt_field_def)

lemma content_event_attr:
  fixes kind
  defines "c \<equiv> \<lambda>i own r e. content_event (content_type kind) (id_field kind) i own r e"
  shows "attr (c i own r e) ''delta'' = (if attr e ''delta'' = JUndef then JStr '''' else attr e ''delta'')"
    and "attr (c i own r e) (id_field kind) = i"
    and "content_owner e own \<noteq> JUndef \<or> \<not> has_own r ''subagentRunId'' \<Longrightarrow>
           attr (c i own r e) ''subagentRunId'' = content_owner e own"
  by (cases kind; simp add: c_def content_event_def opt_field_def oget_spread_left)+

lemma metadata_event_attr:
  fixes kind
  defines "c \<equiv> \<lambda>i own r e. metadata_event (content_type kind) (id_field kind) i own r e"
  shows "attr (c i own r e) ''delta'' = JStr ''''"
    and "attr (c i own r e) (id_field kind) = i"
    and "content_owner e own \<noteq> JUndef \<or> \<not> has_own r ''subagentRunId'' \<Longrightarrow>
           attr (c i own r e) ''subagentRunId'' = content_owner e own"
  by (cases kind; simp add: c_def metadata_event_def opt_field_def oget_spread_left)+

lemma finished_cases:
  fixes kind p e
  defines "r \<equiv> unrecognisedChunkProperties e (described kind)"
  obtains (content) "attr e ''delta'' \<noteq> JUndef \<or> attr e ''rawEvent'' \<noteq> JUndef"
      and "finished kind p e opened = (opened @ [content_event (content_type kind) (id_field kind)
             (pendingEntityId p) (pending_tag p) r e], [])"
  | (metadata) "attr e ''delta'' = JUndef" and "opened = []"
      and "finished kind p e opened = ([metadata_event (content_type kind) (id_field kind)
             (pendingEntityId p) (pending_tag p) r e], [])"
  | (bare) "attr e ''delta'' = JUndef" and "r = []" and "finished kind p e opened = (opened, [])"
  | (carried) "attr e ''delta'' = JUndef" and "r \<noteq> []" and "opened \<noteq> []"
      and "finished kind p e opened = carryRemainderOnOpener opened r False (etype e)"
  unfolding finished_def finish_chunk_def r_def
  by (cases "attr e ''delta'' \<noteq> JUndef \<or> attr e ''rawEvent'' \<noteq> JUndef";
      cases "opened = []"; cases "unrecognisedChunkProperties e (described kind) = []";
      cases "attr e ''metadata'' \<noteq> JUndef \<or> attr e ''subagentRunId'' = JNull")
    (auto simp: carryRemainderOnOpener_def)

lemma carried_types: "etype ` set (fst (carryRemainderOnOpener es r b t)) = etype ` set es"
  by (cases es rule: rev_cases) (auto simp: carryRemainderOnOpener_def Let_def)

lemma finished_types:
  "etype ` set (fst (finished kind p e opened)) \<subseteq> insert (content_type kind) (etype ` set opened)"
  by (rule finished_cases [of e kind p opened]) (auto simp: carried_types)

fun end_type :: "stream_kind \<Rightarrow> event_type" where
  "end_type KText = TEXT_MESSAGE_END"
| "end_type KTool = TOOL_CALL_END"
| "end_type KReasoning = REASONING_MESSAGE_END"

lemma etype_end_event [simp]: "etype (end_event p) = end_type (kind_of p)"
  by (cases p) simp_all

lemma closeLane_types: "etype ` set (fst (closeLane lane st)) \<subseteq> range end_type"
  by (auto simp: closeLane_eq split: option.splits)

lemma expands_types:
  assumes "expands kind st e out st'"
  shows "etype ` set out \<subseteq> {content_type kind, start_type kind} \<union> range end_type"
  using assms
proof cases
  case (continue_lane lane p)
  with finished_types [of kind p e "[]"] show ?thesis by auto
next
  case (open_lane lane p opened)
  with finished_types [of kind p e opened] closeLane_types [of lane st] show ?thesis by auto
qed

lemma not_chunk_types:
  "chunk_type a \<noteq> content_type b" "chunk_type a \<noteq> start_type b" "chunk_type a \<noteq> end_type b"
  "content_type a \<noteq> end_type b" "content_type a \<noteq> start_type b"
  "content_type a = content_type b \<longleftrightarrow> a = b"
  by (cases a; cases b; simp)+

lemma expands_no_chunk: "expands kind st e out st' \<Longrightarrow> x \<in> set out \<Longrightarrow> \<not> is_chunk x"
proof
  assume *: "expands kind st e out st'" "x \<in> set out" "is_chunk x"
  then obtain k where k: "etype x = chunk_type k" by (auto simp: is_chunk_def)
  from * have "etype x \<in> {content_type kind, start_type kind} \<union> range end_type"
    using expands_types by blast
  with k not_chunk_types(1-3) show False by auto
qed

subsection \<open>Explicit events\<close>

text \<open>Which lanes an event that is not a chunk closes.\<close>

definition closed_by :: "chunk_state \<Rightarrow> event \<Rightarrow> (js \<times> pending_stream) list" where
  "closed_by st e =
     (if closes_all_lanes (etype e) then lanes st
      else if closes_own_lane (etype e)
              \<or> (etype e \<in> {SUBAGENT_FINISHED, SUBAGENT_ERROR} \<and> \<not> nullish (attr e ''subagentRunId''))
      then filter (\<lambda>(owner, p). owner = null_to_undef (attr e ''subagentRunId'')) (lanes st)
      else [])"

lemma filter_key:
  "distinct (map fst m) \<Longrightarrow>
     filter (\<lambda>(k, v). k = x) m = (case map_of m x of None \<Rightarrow> [] | Some v \<Rightarrow> [(x, v)])"
proof (induction m)
  case (Cons a m)
  obtain k v where a: "a = (k, v)" by (cases a)
  show ?case
  proof (cases "k = x")
    case True
    with Cons.prems a have "filter (\<lambda>(k, v). k = x) m = []" by (force simp: filter_empty_conv)
    with True a show ?thesis by simp
  qed (use Cons a in auto)
qed simp

lemma explicit_event_step:
  assumes "lane_inv st" and "\<not> is_chunk e"
  shows "chunk_event st e =
    Inr (map (end_event \<circ> snd) (closed_by st e) @ [e],
         st\<lparr>lanes := filter (\<lambda>l. l \<notin> set (closed_by st e)) (lanes st)\<rparr>)"
proof -
  have dist: "distinct (map fst (lanes st))" using assms(1) by (simp add: lane_inv_def)
  let ?tag = "null_to_undef (attr e ''subagentRunId'')"
  let ?mine = "filter (\<lambda>(owner, p). owner = ?tag) (lanes st)"
  have "AList.delete ?tag (lanes st) = filter (\<lambda>l. l \<notin> set ?mine) (lanes st)"
    unfolding AList.delete_eq by (auto intro: filter_cong)
  moreover have "(case map_of (lanes st) ?tag of None \<Rightarrow> [] | Some p \<Rightarrow> [end_event p]) =
      map (end_event \<circ> snd) ?mine"
    using filter_key [OF dist, of ?tag] by (simp split: option.splits)
  ultimately have close: "closeLane ?tag st =
      (map (end_event \<circ> snd) ?mine, st\<lparr>lanes := filter (\<lambda>l. l \<notin> set ?mine) (lanes st)\<rparr>)"
    by (simp add: closeLane_eq)
  have all: "closeAllLanes st = (map (end_event \<circ> snd) (lanes st), st\<lparr>lanes := filter (\<lambda>l. l \<notin> set (lanes st)) (lanes st)\<rparr>)"
    using closeAllLanes_eq [OF dist] by (simp add: filter_empty_conv)
  have keep: "filter (\<lambda>l. l \<notin> set []) (lanes st) = lanes st" by simp
  have notboth: "closes_own_lane (etype e) \<Longrightarrow> \<not> closes_all_lanes (etype e)"
    by (auto simp: closes_own_lane_def closes_all_lanes_def)
  have term_tag: "\<not> nullish (attr e ''subagentRunId'') \<Longrightarrow> attr e ''subagentRunId'' = ?tag"
    by (auto simp: null_to_undef_def nullish_iff)
  consider (all) "closes_all_lanes (etype e)" | (own) "closes_own_lane (etype e)"
    | (terminal) "\<not> closes_all_lanes (etype e)" "\<not> closes_own_lane (etype e)"
        "etype e \<in> {SUBAGENT_FINISHED, SUBAGENT_ERROR}"
    | (other) "\<not> closes_all_lanes (etype e)" "\<not> closes_own_lane (etype e)"
        "etype e \<notin> {SUBAGENT_FINISHED, SUBAGENT_ERROR}" by blast
  then show ?thesis
  proof cases
    case all
    with notboth \<open>closeAllLanes st = _\<close> show ?thesis
      by (auto simp: chunk_event_def closed_by_def then_pass_def Let_def)
  next
    case own
    with notboth close show ?thesis
      by (simp add: chunk_event_def closed_by_def then_pass_def Let_def)
  next
    case terminal
    with close term_tag show ?thesis
      by (cases "nullish (attr e ''subagentRunId'')")
        (auto simp: chunk_event_def closed_by_def then_pass_def Let_def)
  next
    case other
    with assms(2) show ?thesis
      by (auto simp: chunk_event_def closed_by_def is_chunk_iff Let_def)
  qed
qed


subsection \<open>The text the stages carry\<close>

definition delta_of :: "event \<Rightarrow> string" where
  "delta_of e = (case attr e ''delta'' of JStr s \<Rightarrow> s | _ \<Rightarrow> [])"

definition carried_text :: "stream_kind \<Rightarrow> event list \<Rightarrow> string" where
  "carried_text kind es =
     concat (map delta_of (filter (\<lambda>e. etype e = content_type kind \<or> etype e = chunk_type kind) es))"

lemma carried_text_Nil [simp]: "carried_text kind [] = []"
  by (simp add: carried_text_def)

lemma carried_text_append [simp]: "carried_text kind (a @ b) = carried_text kind a @ carried_text kind b"
  by (simp add: carried_text_def)

lemma carried_text_single:
  "carried_text kind [e] = (if etype e = content_type kind \<or> etype e = chunk_type kind then delta_of e else [])"
  by (simp add: carried_text_def)

lemma carried_text_Cons: "carried_text kind (e # es) = carried_text kind [e] @ carried_text kind es"
  by (simp add: carried_text_def)

lemma carried_text_none:
  assumes "\<And>t. t \<in> etype ` set es \<Longrightarrow> t \<noteq> content_type kind \<and> t \<noteq> chunk_type kind"
  shows "carried_text kind es = []"
  using assms by (auto simp: carried_text_def filter_empty_conv)

lemma carried_text_ends [simp]: "carried_text kind (map (end_event \<circ> f) ls) = []"
  by (rule carried_text_none) (auto simp: not_chunk_types [symmetric] dest: not_chunk_types(3,4) [THEN notE, OF sym])

lemma opened_text:
  assumes "opened = fst (closeLane lane st) @ [start_event kind e]"
  shows "carried_text k opened = []" and "carried_text k (fst (carryRemainderOnOpener opened r b t)) = []"
proof -
  have types: "etype ` set opened \<subseteq> insert (start_type kind) (range end_type)"
    using closeLane_types [of lane st] assms by auto
  have apart: "t \<noteq> content_type k \<and> t \<noteq> chunk_type k" if "t \<in> etype ` set opened" for t
  proof -
    from that types have "t = start_type kind \<or> (\<exists>q. t = end_type q)" by blast
    then show ?thesis using not_chunk_types(2-5) by metis
  qed
  then show "carried_text k opened = []" by (rule carried_text_none)
  show "carried_text k (fst (carryRemainderOnOpener opened r b t)) = []"
    using apart by (intro carried_text_none) (simp add: carried_types)
qed

lemma delta_content_event: 
  "delta_of (content_event (content_type kind) (id_field kind) i own r e) = delta_of e"
  by (simp add: delta_of_def content_event_attr)

lemma delta_metadata_event:
  "delta_of (metadata_event (content_type kind) (id_field kind) i own r e) = []"
  by (simp add: delta_of_def metadata_event_attr)

lemma finished_text:
  assumes "etype e = chunk_type kind"
    and "carried_text k opened = []"
    and "\<And>r b t. carried_text k (fst (carryRemainderOnOpener opened r b t)) = []"
  shows "carried_text k (fst (finished kind p e opened)) = carried_text k [e]"
proof -
  have empty: "attr e ''delta'' = JUndef \<Longrightarrow> delta_of e = []" by (simp add: delta_of_def)
  have same: "chunk_type kind = chunk_type k \<longleftrightarrow> kind = k" "content_type kind = content_type k \<longleftrightarrow> kind = k"
    by (cases kind; cases k; simp)+
  have apart: "chunk_type kind \<noteq> content_type k" "content_type kind \<noteq> chunk_type k"
    using not_chunk_types(1) by metis+
  show ?thesis
    using assms empty same apart
    by (cases rule: finished_cases [of e kind p opened])
      (auto simp: carried_text_single delta_content_event delta_metadata_event)
qed

lemma expands_text:
  assumes "expands kind st e out st'" and "etype e = chunk_type kind"
  shows "carried_text k out = carried_text k [e]"
  using assms(1)
proof cases
  case (continue_lane lane p)
  have "carried_text k (fst (carryRemainderOnOpener [] r b t)) = []" for r b t
    by (simp add: carryRemainderOnOpener_def)
  with finished_text [OF assms(2), of k "[]" p] continue_lane show ?thesis by simp
next
  case (open_lane lane p opened)
  with finished_text [OF assms(2), of k opened p] opened_text [OF open_lane(9)] show ?thesis by simp
qed

lemma chunk_event_text:
  assumes "lane_inv st" and "chunk_event st e = Inr (out, st')"
  shows "carried_text k out = carried_text k [e]"
proof (cases "is_chunk e")
  case True
  then obtain kind where "etype e = chunk_type kind" by (auto simp: is_chunk_def)
  with expands_text chunk_event_expands assms(2) show ?thesis by blast
next
  case False
  with explicit_event_step [OF assms(1) False] assms(2) show ?thesis by auto
qed

lemma run_text:
  "lane_inv st \<Longrightarrow> accepts chunk_event st es \<Longrightarrow>
     carried_text kind (emitted chunk_event st es) = carried_text kind es"
proof (induction es arbitrary: st)
  case (Cons e es)
  then obtain out st' where r: "chunk_event st e = Inr (out, st')" and acc: "accepts chunk_event st' es"
    by (auto simp: accepts_Cons)
  with Cons.IH [OF chunk_event_lane_inv [OF Cons.prems(1) r] acc] chunk_event_text [OF Cons.prems(1) r]
  show ?case by (simp add: carried_text_Cons [of kind e es])
qed simp

subsection \<open>Unrecognised properties\<close>

lemma has_own_unrecognised:
  "has_own (unrecognisedChunkProperties e fs) k \<longleftrightarrow> k \<notin> set fs \<and> has_own (props e) k"
  by (auto simp: unrecognisedChunkProperties_def has_own_iff)

lemma oget_unrecognised:
  "k \<notin> set fs \<Longrightarrow> oget (unrecognisedChunkProperties e fs) k = oget (props e) k"
proof -
  assume "k \<notin> set fs"
  then have "map_of (filter (\<lambda>(k, v). k \<notin> set fs) obj) k = map_of obj k" for obj :: jobj
    by (induction obj) auto
  then show ?thesis by (simp add: unrecognisedChunkProperties_def oget_def)
qed

lemma oget_spread_empty: "distinct (map fst r) \<Longrightarrow> oget (spread [] r) k = oget r k"
  by (cases "has_own r k") (simp_all add: oget_spread_right)

lemma distinct_unrecognised:
  "distinct (map fst (props e)) \<Longrightarrow> distinct (map fst (unrecognisedChunkProperties e fs))"
  by (simp add: unrecognisedChunkProperties_def distinct_map_filter)

lemma content_event_remainder:
  assumes "k \<notin> set (described kind)"
  shows "attr (content_event (content_type kind) (id_field kind) i own r e) k = oget (spread [] r) k"
    and "attr (metadata_event (content_type kind) (id_field kind) i own r e) k = oget (spread [] r) k"
  using assms(1)
  by (cases kind; simp add: content_event_def metadata_event_def opt_field_def TEXT_CHUNK_FIELDS_def
      TOOL_CHUNK_FIELDS_def REASONING_CHUNK_FIELDS_def)+

lemma carried_remainder:
  assumes "opened \<noteq> []" and "r \<noteq> []" and "has_own r k"
  shows "fst (carryRemainderOnOpener opened r False t) \<noteq> []"
    and "attr (last (fst (carryRemainderOnOpener opened r False t))) k = oget (spread [] r) k \<or>
         (\<exists>ks. (t, ks) \<in> set (snd (carryRemainderOnOpener opened r False t)) \<and> k \<in> set ks)"
proof -
  show "fst (carryRemainderOnOpener opened r False t) \<noteq> []"
    using assms by (simp add: carryRemainderOnOpener_def Let_def)
  show "attr (last (fst (carryRemainderOnOpener opened r False t))) k = oget (spread [] r) k \<or>
         (\<exists>ks. (t, ks) \<in> set (snd (carryRemainderOnOpener opened r False t)) \<and> k \<in> set ks)"
  proof (cases "has_own (props (last opened)) k")
    case True
    have "k \<in> set (shadowedKeys r (last opened))"
      using True assms(3) by (simp add: shadowedKeys_def has_own_iff)
    then show ?thesis using assms(1,2) by (auto simp: carryRemainderOnOpener_def Let_def)
  next
    case False
    then show ?thesis using assms(1,2) by (simp add: carryRemainderOnOpener_def Let_def oget_spread_left)
  qed
qed

lemma finished_remainder:
  assumes "distinct (map fst (props e))" and "has_own (props e) k" and "k \<notin> set (described kind)"
  shows "fst (finished kind p e opened) \<noteq> [] \<and>
    (attr (last (fst (finished kind p e opened))) k = attr e k \<or>
     (\<exists>ks. (etype e, ks) \<in> set (snd (finished kind p e opened)) \<and> k \<in> set ks))"
proof -
  let ?r = "unrecognisedChunkProperties e (described kind)"
  have own: "has_own ?r k" using assms by (simp add: has_own_unrecognised)
  then have r: "?r \<noteq> []" by auto
  have val: "oget (spread [] ?r) k = attr e k"
    using assms by (simp add: oget_spread_empty distinct_unrecognised oget_unrecognised attr_def)
  show ?thesis
    using r val content_event_remainder [OF assms(3), where e = e] carried_remainder [OF _ r own, of opened "etype e"]
    by (cases rule: finished_cases [of e kind p opened]) simp_all
qed

lemma expands_remainder:
  assumes "expands kind st e out st'" and "distinct (map fst (props e))"
    and "has_own (props e) k" and "k \<notin> set (described kind)"
  shows "out \<noteq> [] \<and> (attr (last out) k = attr e k \<or> (\<exists>ks. (etype e, ks) \<in> set (asides st') \<and> k \<in> set ks))"
  using assms(1)
proof cases
  case (continue_lane lane p)
  with finished_remainder [OF assms(2-4), of p "[]"] show ?thesis by auto
next
  case (open_lane lane p opened)
  with finished_remainder [OF assms(2-4), of p opened] show ?thesis by auto
qed

subsection \<open>Isolation\<close>

lemma expands_other_lane:
  assumes "expands kind st e out st'" and "attr e ''subagentRunId'' = tag" and "\<not> nullish tag" and "owner \<noteq> tag"
  shows "map_of (lanes st') owner = map_of (lanes st) owner"
  using assms(1)
proof cases
  case (open_lane lane p opened)
  have "lane = tag"
    using resolveLane_tagged [OF open_lane(3)] assms(2,3) by (auto simp: null_to_undef_def nullish_iff)
  with open_lane(2) assms(4) show ?thesis by (simp add: update_conv' delete_conv')
qed simp


subsection \<open>Properties\<close>

definition demo_chunks :: "event list" where
  "demo_chunks =
     [ev RUN_STARTED [],
      ev TEXT_MESSAGE_CHUNK [(''messageId'', ''m1''), (''subagentRunId'', ''s1''), (''delta'', ''ab'')],
      ev TEXT_MESSAGE_CHUNK [(''messageId'', ''m2''), (''delta'', ''xy'')],
      ev TEXT_MESSAGE_CHUNK [(''subagentRunId'', ''s1''), (''delta'', ''cd''), (''vendor'', ''v'')],
      ev RUN_FINISHED []]"

lemma expansion_no_chunk_step:
  assumes "lane_inv st" and "chunk_event st e = Inr (out, st')" and "x \<in> set out"
  shows "\<not> is_chunk x"
proof (cases "is_chunk e")
  case True
  then obtain kind where "etype e = chunk_type kind" by (auto simp: is_chunk_def)
  with chunk_event_expands [OF assms(2)] have "expands kind st e out st'" by blast
  then show ?thesis using assms(3) by (rule expands_no_chunk)
next
  case False
  have "\<not> is_chunk (end_event p)" for p
    using not_chunk_types(3) by (auto simp: is_chunk_def) metis
  with False explicit_event_step [OF assms(1) False] assms(2,3) show ?thesis by auto
qed

text \<open>
  Expansion is complete: no chunk event leaves the operator, whatever the input.
\<close>

theorem expansion_leaves_no_chunks: "filter is_chunk (fst (transformChunks es)) = []"
proof -
  have "\<forall>x \<in> set (emitted chunk_event initial_chunk_state es). \<not> is_chunk x"
    by (rule expander.emitted_all [OF expansion_no_chunk_step]) simp_all
  then show ?thesis by (simp add: transformChunks_def filter_empty_conv)
qed

text \<open>
  C16. Expansion loses, invents and reorders no text: for each kind of stream the concatenated
  deltas of the content events that leave are those of the content and chunk events that came in.
\<close>

theorem expansion_keeps_text:
  assumes "snd (transformChunks es) = None"
  shows "carried_text kind (fst (transformChunks es)) = carried_text kind es"
  using assms run_text [of initial_chunk_state es kind] by (simp add: transformChunks_def accepts_def)

theorem expansion_keeps_text_witness:
  "carried_text KText (fst (transformChunks demo_chunks)) = ''abxycd''"
proof -
  have "carried_text KText (fst (transformChunks demo_chunks)) = carried_text KText demo_chunks"
    by (rule expansion_keeps_text) code_simp
  moreover have "carried_text KText demo_chunks = ''abxycd''" by code_simp
  ultimately show ?thesis by simp
qed

text \<open>
  C18. An event that is not a chunk passes through unchanged, after the END events of exactly the
  streams it closes: those of its own lane, of every lane for the run-level events, and none for
  the events that speak about no stream; those lanes and no others are cleared.
\<close>

theorem explicit_event_closes_its_lanes:
  assumes "\<not> is_chunk e"
  shows "chunk_event (final_state chunk_event initial_chunk_state es) e =
    (let st = final_state chunk_event initial_chunk_state es in
     Inr (map (end_event \<circ> snd) (closed_by st e) @ [e],
          st\<lparr>lanes := filter (\<lambda>l. l \<notin> set (closed_by st e)) (lanes st)\<rparr>))"
  unfolding Let_def
  by (rule explicit_event_step [OF expander.run_inv [OF lane_inv_initial] assms])

theorem explicit_event_closes_its_lanes_witness:
  "map etype (fst (projr (chunk_event
       (final_state chunk_event initial_chunk_state (take 4 demo_chunks)) (ev RUN_FINISHED []))))
     = [TEXT_MESSAGE_END, TEXT_MESSAGE_END, RUN_FINISHED]"
proof -
  have e: "\<not> is_chunk (ev RUN_FINISHED [])" by (simp add: ev_def is_chunk_iff)
  show ?thesis
    unfolding explicit_event_closes_its_lanes [OF e, of "take 4 demo_chunks"] by code_simp
qed

text \<open>
  Nothing a chunk carries is dropped in silence: a property the chunk's schema does not
  describe is on the last event the chunk expands into, with the chunk's value, or a warning that
  names it has been issued.
\<close>

theorem unrecognised_property_kept_or_announced:
  assumes "chunk_event st e = Inr (out, st')" and "etype e = chunk_type kind"
    and "distinct (map fst (props e))" and "has_own (props e) k" and "k \<notin> set (described kind)"
  shows "out \<noteq> [] \<and>
    (attr (last out) k = attr e k \<or> (\<exists>ks. (etype e, ks) \<in> set (asides st') \<and> k \<in> set ks))"
  by (rule expands_remainder [OF chunk_event_expands [OF assms(1,2)] assms(3-5)])

theorem unrecognised_property_kept_or_announced_witness:
  "\<exists>out st'. chunk_event (final_state chunk_event initial_chunk_state (take 3 demo_chunks)) (demo_chunks ! 3)
       = Inr (out, st') \<and> out \<noteq> [] \<and>
     (attr (last out) ''vendor'' = JStr ''v'' \<or>
      (\<exists>ks. (TEXT_MESSAGE_CHUNK, ks) \<in> set (asides st') \<and> ''vendor'' \<in> set ks))"
proof -
  let ?st = "final_state chunk_event initial_chunk_state (take 3 demo_chunks)" and ?e = "demo_chunks ! 3"
  have "\<not> isl (chunk_event ?st ?e)" by code_simp
  then obtain out st' where r: "chunk_event ?st ?e = Inr (out, st')"
    by (cases "chunk_event ?st ?e") auto
  then have "out \<noteq> [] \<and> (attr (last out) ''vendor'' = attr ?e ''vendor'' \<or>
      (\<exists>ks. (etype ?e, ks) \<in> set (asides st') \<and> ''vendor'' \<in> set ks))"
    by (rule unrecognised_property_kept_or_announced [where kind = KText]) code_simp+
  moreover have "attr ?e ''vendor'' = JStr ''v''" "etype ?e = TEXT_MESSAGE_CHUNK" by code_simp+
  ultimately show ?thesis using r by auto
qed

text \<open>
  C24. Concurrent producers do not disturb each other: an event attributed to one subagent leaves
  the stream every other lane is assembling as it was, unless it ends or restarts the whole run.
\<close>

theorem lanes_are_isolated:
  assumes "chunk_event (final_state chunk_event initial_chunk_state es) e = Inr (out, st')"
    and "attr e ''subagentRunId'' = JStr s" and "\<not> closes_all_lanes (etype e)"
    and "owner \<noteq> JStr s"
  shows "map_of (lanes st') owner =
         map_of (lanes (final_state chunk_event initial_chunk_state es)) owner"
proof (cases "is_chunk e")
  case True
  then obtain kind where "etype e = chunk_type kind" by (auto simp: is_chunk_def)
  with chunk_event_expands [OF assms(1)] have "expands kind (final_state chunk_event initial_chunk_state es) e out st'"
    by blast
  then show ?thesis using assms(2) by (rule expands_other_lane) (use assms(4) in simp_all)
next
  case False
  let ?st = "final_state chunk_event initial_chunk_state es"
  have mono: "owner \<noteq> tag \<Longrightarrow> map_of (filter (\<lambda>l. l \<notin> set (filter (\<lambda>(k, v). k = tag) m)) m) owner = map_of m owner"
    for tag and m :: "(js \<times> pending_stream) list"
  proof -
    assume "owner \<noteq> tag"
    moreover have "filter (\<lambda>l. l \<notin> set (filter (\<lambda>(k, v). k = tag) m)) m = AList.delete tag m"
      unfolding AList.delete_eq by (auto intro: filter_cong)
    ultimately show ?thesis by (simp add: delete_conv')
  qed
  from explicit_event_step [OF expander.run_inv [OF lane_inv_initial] False, of es] assms(1)
  have "lanes st' = filter (\<lambda>l. l \<notin> set (closed_by ?st e)) (lanes ?st)" by auto
  moreover have "closed_by ?st e = [] \<or> closed_by ?st e = filter (\<lambda>(k, v). k = JStr s) (lanes ?st)"
    using assms(2,3) by (simp add: closed_by_def null_to_undef_def)
  ultimately show ?thesis using mono [OF assms(4), of "lanes ?st"] by (elim disjE) (simp, metis)
qed

theorem lanes_are_isolated_witness:
  "map_of (lanes (final_state chunk_event initial_chunk_state (take 4 demo_chunks))) JUndef =
   map_of (lanes (final_state chunk_event initial_chunk_state (take 3 demo_chunks))) JUndef"
proof -
  let ?st = "final_state chunk_event initial_chunk_state (take 3 demo_chunks)" and ?e = "demo_chunks ! 3"
  have "\<not> isl (chunk_event ?st ?e)" by code_simp
  then obtain out st' where r: "chunk_event ?st ?e = Inr (out, st')"
    by (cases "chunk_event ?st ?e") auto
  then have "map_of (lanes st') JUndef = map_of (lanes ?st) JUndef"
    by (rule lanes_are_isolated [where s = "''s1''"]) code_simp+
  moreover have "take 4 demo_chunks = take 3 demo_chunks @ [?e]" by code_simp
  moreover have "accepts chunk_event initial_chunk_state (take 3 demo_chunks)" by code_simp
  ultimately show ?thesis using r by (simp add: final_state_append)
qed

text \<open>
  C27. A chunk that cannot be placed is an error, never a guess: a tag that contradicts the lane
  holding its id, an id-less untagged chunk while several lanes have a stream of its kind and the
  parent has none, and an id-less chunk where no stream of its kind is open.
\<close>

theorem misplaced_chunks_rejected:
  assumes "etype e = chunk_type kind"
  shows "(attr e (id_field kind) \<noteq> JUndef \<and> laneHolding kind (attr e (id_field kind)) st = Some holder
           \<and> \<not> nullish (attr e ''subagentRunId'') \<and> attr e ''subagentRunId'' \<noteq> holder
          \<longrightarrow> chunk_event st e =
               Inl (LaneDisagreement kind (attr e (id_field kind)) (attr e ''subagentRunId'') holder)) \<and>
         (attr e (id_field kind) = JUndef \<and> nullish (attr e ''subagentRunId'')
           \<and> map_option kind_of (map_of (lanes st) JUndef) \<noteq> Some kind
           \<and> 2 \<le> length (filter (\<lambda>(owner, p). kind_of p = kind) (lanes st))
          \<longrightarrow> chunk_event st e =
               Inl (AmbiguousChunk kind (length (filter (\<lambda>(owner, p). kind_of p = kind) (lanes st))))) \<and>
         (attr e (id_field kind) = JUndef
           \<and> filter (\<lambda>(owner, p). kind_of p = kind) (lanes st) = []
          \<longrightarrow> chunk_event st e = Inl (FirstChunkMissing (chunk_type kind) (id_field kind)))"
proof (intro conjI impI; elim conjE)
  have step: "chunk_event st e = (case kind of KText \<Rightarrow> text_chunk st e | KTool \<Rightarrow> tool_chunk st e
      | KReasoning \<Rightarrow> reasoning_chunk st e)"
    using assms by (cases kind) (simp_all add: chunk_event_def closes_own_lane_def closes_all_lanes_def)
  have fails: "chunk_event st e = Inl err"
    if "resolveLane kind (attr e (id_field kind)) (null_to_undef (attr e ''subagentRunId'')) st = Inl err" for err
    using that step by (cases kind) (simp_all add: text_chunk_def tool_chunk_def reasoning_chunk_def Let_def)
  {
    assume "attr e (id_field kind) \<noteq> JUndef" "laneHolding kind (attr e (id_field kind)) st = Some holder"
      "\<not> nullish (attr e ''subagentRunId'')" "attr e ''subagentRunId'' \<noteq> holder"
    then show "chunk_event st e =
        Inl (LaneDisagreement kind (attr e (id_field kind)) (attr e ''subagentRunId'') holder)"
      by (intro fails) (auto simp: resolveLane_def null_to_undef_def nullish_iff)
  next
    assume *: "attr e (id_field kind) = JUndef" "nullish (attr e ''subagentRunId'')"
      "map_option kind_of (map_of (lanes st) JUndef) \<noteq> Some kind"
      "2 \<le> length (filter (\<lambda>(owner, p). kind_of p = kind) (lanes st))"
    then obtain c1 c2 cs where "filter (\<lambda>(owner, p). kind_of p = kind) (lanes st) = c1 # c2 # cs"
      by (metis Suc_le_length_iff numeral_2_eq_2)
    with * show "chunk_event st e =
        Inl (AmbiguousChunk kind (length (filter (\<lambda>(owner, p). kind_of p = kind) (lanes st))))"
      by (intro fails) (auto simp: resolveLane_def null_to_undef_def nullish_iff split: prod.split)
  next
    assume id: "attr e (id_field kind) = JUndef"
      and none: "filter (\<lambda>(owner, p). kind_of p = kind) (lanes st) = []"
    have notkind: "map_of (lanes st) owner = Some p \<Longrightarrow> kind_of p \<noteq> kind" for owner p
      using none by (auto simp: filter_empty_conv dest!: map_of_SomeD)
    have "\<exists>lane. resolveLane kind JUndef (null_to_undef (attr e ''subagentRunId'')) st = Inr lane"
      using none notkind [of JUndef] by (cases "map_of (lanes st) JUndef") (simp_all add: resolveLane_def)
    then obtain lane where "resolveLane kind JUndef (null_to_undef (attr e ''subagentRunId'')) st = Inr lane" ..
    with step id notkind [of lane] show "chunk_event st e = Inl (FirstChunkMissing (chunk_type kind) (id_field kind))"
      by (cases kind)
        (auto simp: text_chunk_def tool_chunk_def reasoning_chunk_def open_text_def open_tool_def
          open_reasoning_def closeLane_eq Let_def split: option.splits pending_stream.splits)
  }
qed

theorem misplaced_chunks_rejected_witness:
  "chunk_event (final_state chunk_event initial_chunk_state (take 3 demo_chunks))
     (ev TEXT_MESSAGE_CHUNK [(''messageId'', ''m1''), (''subagentRunId'', ''s2'')])
   = Inl (LaneDisagreement KText (JStr ''m1'') (JStr ''s2'') (JStr ''s1''))"
proof -
  let ?st = "final_state chunk_event initial_chunk_state (take 3 demo_chunks)"
    and ?e = "ev TEXT_MESSAGE_CHUNK [(''messageId'', ''m1''), (''subagentRunId'', ''s2'')]"
  have t: "etype ?e = chunk_type KText" by (simp add: ev_def)
  have "laneHolding KText (JStr ''m1'') ?st = Some (JStr ''s1'')" by code_simp
  with misplaced_chunks_rejected [OF t, of ?st "JStr ''s1''"] show ?thesis by (simp add: ev_def)
qed

end
