(* ===== verification/AGUI_Apply.thy ===== *)
theory AGUI_Apply
  imports AGUI_Events
begin

section \<open>The default event reducer\<close>

text \<open>
  \<^verbatim>\<open>client/src/apply/default.ts\<close> folds the event stream into the conversation (the list of
  messages) and the application state, \<^verbatim>\<open>client/src/agent/subscriber.ts\<close> runs the
  subscribers that may observe, replace or suppress each step, and
  \<^verbatim>\<open>client/src/activity-history.ts\<close> reads which activity types a snapshot owns.

  \<^item> Messages are objects the code keeps references to: a handler finds its target, lets the
    subscribers run, and then writes through the reference it holds. The model therefore has a
    heap: \<open>message_refs\<close> is the array \<open>messages\<close> as a list of references,
    \<open>heap\<close> the objects, \<open>conversation\<close> the list of message values. A subscriber that
    returns a replacement list puts fresh objects (the clones) in place, and a write through a
    reference taken before lands in an object that is no longer in the array, as in the source.
  \<^item> \<open>currentMutation\<close> is the pair \<open>cur_messages\<close> (the source only ever stores the
    current array there) and \<open>cur_state\<close>; \<open>emitUpdates\<close> turns it into an emission.
  \<^item> A subscriber is a parameter: a function of its own state \<open>'w\<close>, the hook that is
    called with the parameters the handler builds for it, the messages and the state, which
    returns nothing, a mutation, or fails (by a synchronous throw or a rejected promise, with a
    \<open>TypeError\<close> or another error). A mutation that returns the very array it was given is no
    replacement, and is written without one. Parameters the source computes from a string by
    \<open>JSON.parse\<close> or \<open>untruncate-json\<close> are given as that string. The development-mode
    freezing of the inputs changes nothing for a subscriber that does not write to them.
  \<^item> \<open>fast-json-patch\<close> is the parameter \<open>applyPatch\<close>; \<open>None\<close> is a throw.
  \<^item> \<open>structuredClone_\<close> copies a value and is the identity on values.

  Events and messages have the shapes their TypeScript types give them; where the code iterates
  over a property that is not an array and would throw, the model returns an error.
\<close>

subsection \<open>Strings\<close>

text \<open>\<open>String(v)\<close>, as template literals and string concatenation apply it.\<close>

fun separated :: "string list \<Rightarrow> string" where
  "separated [] = []"
| "separated [x] = x"
| "separated (x # xs) = x @ '','' @ separated xs"

fun text_of :: "js \<Rightarrow> string" where
  "text_of (JStr s) = s"
| "text_of JUndef = ''undefined''"
| "text_of JNull = ''null''"
| "text_of (JBool b) = (if b then ''true'' else ''false'')"
| "text_of (JNum n) = (if n < 0 then ''-'' @ digits (nat (- n)) else digits (nat n))"
| "text_of (JArr xs) = separated (map (\<lambda>x. if nullish x then [] else text_of x) xs)"
| "text_of (JObj _) = ''[object Object]''"

subsection \<open>Subscribers\<close>

record agent_mutation =
  m_messages :: "jobj list option"
  m_state :: js
  m_stop :: bool

datatype sub_result =
    NoMutation
  | Mutation agent_mutation
  | Threw (synchronously: bool) (type_error: bool)

datatype hook_call =
    OnEvent event
  | OnTyped event jobj
  | OnNewMessage jobj
  | OnNewToolCall js
  | OnRunInitialized
  | OnRunFailed
  | OnRunFinalized
  | OnMessagesChanged
  | OnStateChanged

type_synonym 'w subscriber = "'w \<Rightarrow> hook_call \<Rightarrow> jobj list \<Rightarrow> js \<Rightarrow> 'w \<times> sub_result"

datatype apply_error =
    NotTransformed event_type
  | SubscriberTypeError
  | NotificationThrew
  | NotIterable event_type
  | SparseMessages

record 'w apply_env =
  subscribers :: "'w subscriber list"
  isTestEnvironment :: bool
  applyPatch :: "js \<Rightarrow> js \<Rightarrow> js option"

text \<open>Two states that \<open>!==\<close> cannot tell apart although they are not one object.\<close>

definition same_primitive :: "js \<Rightarrow> js \<Rightarrow> bool" where
  "same_primitive a b \<longleftrightarrow> a = b \<and> \<not> is_object a \<and> \<not> is_array a"

fun run_subscribers ::
    "bool \<Rightarrow> 'w subscriber list \<Rightarrow> hook_call \<Rightarrow> 'w \<Rightarrow> jobj list \<Rightarrow> js \<Rightarrow> agent_mutation
      \<Rightarrow> apply_error + 'w \<times> agent_mutation" where
  "run_subscribers test [] call w msgs st acc = Inr (w, acc)"
| "run_subscribers test (s # ss) call w msgs st acc =
     (case s w call msgs st of
        (w', NoMutation) \<Rightarrow> run_subscribers test ss call w' msgs st acc
      | (w', Threw sync ty) \<Rightarrow>
          if test \<and> ty then Inl SubscriberTypeError
          else run_subscribers test ss call w' msgs st acc
      | (w', Mutation m) \<Rightarrow>
          let replaced = (m_state m \<noteq> JUndef \<and> \<not> same_primitive (m_state m) st);
              msgs' = (case m_messages m of None \<Rightarrow> msgs | Some ms \<Rightarrow> ms);
              st' = (if replaced then m_state m else st);
              acc' = \<lparr>m_messages = (case m_messages m of None \<Rightarrow> m_messages acc | Some ms \<Rightarrow> Some ms),
                      m_state = (if replaced then m_state m else m_state acc),
                      m_stop = m_stop m\<rparr>
          in if m_stop m then Inr (w', acc') else run_subscribers test ss call w' msgs' st' acc')"

definition no_mutation :: agent_mutation where
  "no_mutation = \<lparr>m_messages = None, m_state = JUndef, m_stop = False\<rparr>"

definition runSubscribersWithMutation ::
    "'w apply_env \<Rightarrow> hook_call \<Rightarrow> 'w \<Rightarrow> jobj list \<Rightarrow> js \<Rightarrow> apply_error + 'w \<times> agent_mutation" where
  "runSubscribersWithMutation env call w msgs st =
     run_subscribers (isTestEnvironment env) (subscribers env) call w msgs st no_mutation"

subsection \<open>State\<close>

record 'w apply_state =
  heap :: "nat \<Rightarrow> jobj"
  next_ref :: nat
  message_refs :: "nat list"
  app_state :: js
  cur_messages :: bool
  cur_state :: js
  runToolCallIds :: "js list"
  answeredToolCallIds :: "js list"
  pendingInterrupts :: "js list"
  world :: 'w

definition conversation :: "'w apply_state \<Rightarrow> jobj list" where
  "conversation st = map (heap st) (message_refs st)"

definition new_object :: "jobj \<Rightarrow> 'w apply_state \<Rightarrow> nat \<times> 'w apply_state" where
  "new_object obj st =
     (next_ref st, st\<lparr>heap := (heap st)(next_ref st := obj), next_ref := Suc (next_ref st)\<rparr>)"

fun new_objects :: "jobj list \<Rightarrow> 'w apply_state \<Rightarrow> nat list \<times> 'w apply_state" where
  "new_objects [] st = ([], st)"
| "new_objects (obj # objs) st =
     (let (r, st1) = new_object obj st; (rs, st2) = new_objects objs st1 in (r # rs, st2))"

definition write_object :: "nat \<Rightarrow> (jobj \<Rightarrow> jobj) \<Rightarrow> 'w apply_state \<Rightarrow> 'w apply_state" where
  "write_object r f st = st\<lparr>heap := (heap st)(r := f (heap st r))\<rparr>"

definition push_message :: "jobj \<Rightarrow> 'w apply_state \<Rightarrow> nat \<times> 'w apply_state" where
  "push_message obj st =
     (let (r, st1) = new_object obj st in (r, st1\<lparr>message_refs := message_refs st1 @ [r]\<rparr>))"

definition initial_apply_state :: "jobj list \<Rightarrow> js \<Rightarrow> js list \<Rightarrow> 'w \<Rightarrow> 'w apply_state" where
  "initial_apply_state msgs input_state interrupts w =
     (let (rs, st) = new_objects msgs
        \<lparr>heap = (\<lambda>_. []), next_ref = 0, message_refs = [], app_state = input_state,
         cur_messages = False, cur_state = JUndef, runToolCallIds = [], answeredToolCallIds = [],
         pendingInterrupts = interrupts, world = w\<rparr>
      in st\<lparr>message_refs := rs\<rparr>)"

definition find_message :: "js \<Rightarrow> 'w apply_state \<Rightarrow> nat option" where
  "find_message i st = find (\<lambda>r. oget (heap st r) ''id'' = i) (message_refs st)"

definition is_activity :: "'w apply_state \<Rightarrow> nat \<Rightarrow> bool" where
  "is_activity st r \<longleftrightarrow> oget (heap st r) ''role'' = JStr ''activity''"

fun find_index :: "('a \<Rightarrow> bool) \<Rightarrow> 'a list \<Rightarrow> nat option" where
  "find_index P [] = None"
| "find_index P (x # xs) = (if P x then Some 0 else map_option Suc (find_index P xs))"

subsection \<open>Mutations and emissions\<close>

definition publish :: "'w apply_state \<Rightarrow> 'w apply_state" where
  "publish st = st\<lparr>cur_messages := True\<rparr>"

definition publish_state :: "'w apply_state \<Rightarrow> 'w apply_state" where
  "publish_state st = (if app_state st = JUndef then st else st\<lparr>cur_state := app_state st\<rparr>)"

definition applyMutation :: "agent_mutation \<Rightarrow> 'w apply_state \<Rightarrow> 'w apply_state" where
  "applyMutation m st =
     (let st1 = (case m_messages m of
                   None \<Rightarrow> st
                 | Some objs \<Rightarrow>
                     (let (rs, st1) = new_objects objs st in publish (st1\<lparr>message_refs := rs\<rparr>)))
      in if m_state m = JUndef then st1 else publish_state (st1\<lparr>app_state := m_state m\<rparr>))"

definition emitUpdates :: "'w apply_state \<Rightarrow> agent_mutation list \<times> 'w apply_state" where
  "emitUpdates st =
     (if cur_messages st \<or> cur_state st \<noteq> JUndef
      then [\<lparr>m_messages = (if cur_messages st then Some (conversation st) else None),
             m_state = cur_state st, m_stop = False\<rparr>]
      else [],
      st\<lparr>cur_messages := False, cur_state := JUndef\<rparr>)"

definition run_hook :: "'w apply_env \<Rightarrow> hook_call \<Rightarrow> 'w apply_state \<Rightarrow> apply_error + bool \<times> 'w apply_state" where
  "run_hook env call st =
     (case runSubscribersWithMutation env call (world st) (conversation st) (app_state st) of
        Inl err \<Rightarrow> Inl err
      | Inr (w, m) \<Rightarrow> Inr (m_stop m, applyMutation m (st\<lparr>world := w\<rparr>)))"

text \<open>\<open>if (mutation.stopPropagation !== true) { ... }\<close> after the hook of a handler.\<close>

definition unless_stopped ::
    "'w apply_env \<Rightarrow> hook_call \<Rightarrow> 'w apply_state \<Rightarrow> ('w apply_state \<Rightarrow> apply_error + 'w apply_state)
      \<Rightarrow> apply_error + 'w apply_state" where
  "unless_stopped env call st body =
     (case run_hook env call st of
        Inl err \<Rightarrow> Inl err
      | Inr (stop, st') \<Rightarrow> if stop then Inr st' else body st')"

text \<open>
  \<open>Promise.all(subscribers.map(...))\<close> over \<open>onNewMessage\<close> or \<open>onNewToolCall\<close>: a
  synchronous throw ends the call at once; a rejected promise counts only where the callback
  returns the promise.
\<close>

fun notify_all ::
    "bool \<Rightarrow> 'w subscriber list \<Rightarrow> hook_call \<Rightarrow> 'w \<Rightarrow> jobj list \<Rightarrow> js \<Rightarrow> bool \<Rightarrow> apply_error + 'w" where
  "notify_all awaited [] call w msgs st rejected = (if rejected then Inl NotificationThrew else Inr w)"
| "notify_all awaited (s # ss) call w msgs st rejected =
     (case s w call msgs st of
        (w', Threw sync ty) \<Rightarrow>
          if sync then Inl NotificationThrew
          else notify_all awaited ss call w' msgs st (rejected \<or> awaited)
      | (w', _) \<Rightarrow> notify_all awaited ss call w' msgs st rejected)"

definition notify :: "'w apply_env \<Rightarrow> bool \<Rightarrow> hook_call \<Rightarrow> 'w apply_state \<Rightarrow> apply_error + 'w apply_state" where
  "notify env awaited call st =
     (case notify_all awaited (subscribers env) call (world st) (conversation st) (app_state st) False of
        Inl err \<Rightarrow> Inl err
      | Inr w \<Rightarrow> Inr (st\<lparr>world := w\<rparr>))"

subsection \<open>Metadata and attribution\<close>

definition applyEventMetadata :: "event \<Rightarrow> jobj \<Rightarrow> jobj" where
  "applyEventMetadata e target =
     (if attr e ''metadata'' = JUndef then target
      else oset ''metadata'' (mergeMetadata (oget target ''metadata'') (attr e ''metadata'')) target)"

definition carries_metadata :: "event \<Rightarrow> bool" where
  "carries_metadata e \<longleftrightarrow> attr e ''metadata'' \<noteq> JUndef"

definition tag_field :: "event \<Rightarrow> jobj" where
  "tag_field e =
     (if nullish (attr e ''subagentRunId'') then [] else [(''subagentRunId'', attr e ''subagentRunId'')])"

definition without_null_tag :: "jobj \<Rightarrow> jobj" where
  "without_null_tag obj = (if oget obj ''subagentRunId'' = JNull then odel ''subagentRunId'' obj else obj)"

subsection \<open>Text and reasoning messages\<close>

definition start_message :: "event \<Rightarrow> jobj \<Rightarrow> 'w apply_state \<Rightarrow> 'w apply_state" where
  "start_message e newMessage st =
     (case find_message (attr e ''messageId'') st of
        Some r \<Rightarrow>
          if is_activity st r then st
          else if carries_metadata e then publish (write_object r (applyEventMetadata e) st)
          else st
      | None \<Rightarrow>
          let (r, st1) = push_message newMessage st in publish (write_object r (applyEventMetadata e) st1))"

definition text_message_of :: "event \<Rightarrow> jobj" where
  "text_message_of e =
     [(''id'', attr e ''messageId''),
      (''role'', if attr e ''role'' = JUndef then JStr ''assistant'' else attr e ''role''),
      (''content'', JStr '''')]
     @ opt_field ''name'' (attr e ''name'') @ tag_field e"

definition reasoning_message_of :: "event \<Rightarrow> jobj" where
  "reasoning_message_of e =
     [(''id'', attr e ''messageId''), (''role'', JStr ''reasoning''), (''content'', JStr '''')]
     @ tag_field e"

definition apply_text_message_start ::
    "'w apply_env \<Rightarrow> event \<Rightarrow> 'w apply_state \<Rightarrow> apply_error + 'w apply_state" where
  "apply_text_message_start env e st =
     unless_stopped env (OnTyped e []) st (\<lambda>st. Inr (start_message e (text_message_of e) st))"

definition apply_reasoning_message_start ::
    "'w apply_env \<Rightarrow> event \<Rightarrow> 'w apply_state \<Rightarrow> apply_error + 'w apply_state" where
  "apply_reasoning_message_start env e st =
     unless_stopped env (OnTyped e []) st (\<lambda>st. Inr (start_message e (reasoning_message_of e) st))"

definition buffer_of :: "jobj \<Rightarrow> string" where
  "buffer_of obj = (case oget obj ''content'' of JStr s \<Rightarrow> s | _ \<Rightarrow> [])"

definition append_delta :: "event \<Rightarrow> jobj \<Rightarrow> jobj" where
  "append_delta e obj =
     applyEventMetadata e
       (oset ''content'' (JStr (buffer_of obj @ text_of (attr e ''delta''))) obj)"

definition message_content ::
    "string \<Rightarrow> 'w apply_env \<Rightarrow> event \<Rightarrow> 'w apply_state \<Rightarrow> apply_error + 'w apply_state" where
  "message_content buffer env e st =
     (case find_message (attr e ''messageId'') st of
        None \<Rightarrow> Inr st
      | Some r \<Rightarrow>
          if is_activity st r then Inr st
          else unless_stopped env (OnTyped e [(buffer, JStr (buffer_of (heap st r)))]) st
                 (\<lambda>st. Inr (publish (write_object r (append_delta e) st))))"

definition message_end ::
    "string \<Rightarrow> 'w apply_env \<Rightarrow> event \<Rightarrow> 'w apply_state \<Rightarrow> apply_error + 'w apply_state" where
  "message_end buffer env e st =
     (case find_message (attr e ''messageId'') st of
        None \<Rightarrow> Inr st
      | Some r \<Rightarrow>
          if is_activity st r then Inr st
          else
            (case run_hook env (OnTyped e [(buffer, JStr (buffer_of (heap st r)))]) st of
               Inl err \<Rightarrow> Inl err
             | Inr (stop, st1) \<Rightarrow>
                 let st2 = (if \<not> stop \<and> carries_metadata e
                            then publish (write_object r (applyEventMetadata e) st1) else st1)
                 in notify env False (OnNewMessage (heap st2 r)) st2))"

definition apply_text_message_content ::
    "'w apply_env \<Rightarrow> event \<Rightarrow> 'w apply_state \<Rightarrow> apply_error + 'w apply_state" where
  "apply_text_message_content env e st = message_content ''textMessageBuffer'' env e st"

definition apply_reasoning_message_content ::
    "'w apply_env \<Rightarrow> event \<Rightarrow> 'w apply_state \<Rightarrow> apply_error + 'w apply_state" where
  "apply_reasoning_message_content env e st = message_content ''reasoningMessageBuffer'' env e st"

definition apply_text_message_end ::
    "'w apply_env \<Rightarrow> event \<Rightarrow> 'w apply_state \<Rightarrow> apply_error + 'w apply_state" where
  "apply_text_message_end env e st = message_end ''textMessageBuffer'' env e st"

definition apply_reasoning_message_end ::
    "'w apply_env \<Rightarrow> event \<Rightarrow> 'w apply_state \<Rightarrow> apply_error + 'w apply_state" where
  "apply_reasoning_message_end env e st = message_end ''reasoningMessageBuffer'' env e st"

subsection \<open>Tool calls\<close>

definition tool_call_in :: "js \<Rightarrow> jobj \<Rightarrow> js option" where
  "tool_call_in i obj = find (\<lambda>tc. jprop tc ''id'' = i) (elements (oget obj ''toolCalls''))"

definition find_tool_owner :: "js \<Rightarrow> 'w apply_state \<Rightarrow> nat option" where
  "find_tool_owner i st = find (\<lambda>r. tool_call_in i (heap st r) \<noteq> None) (message_refs st)"

fun update_first :: "('a \<Rightarrow> bool) \<Rightarrow> ('a \<Rightarrow> 'a) \<Rightarrow> 'a list \<Rightarrow> 'a list" where
  "update_first P f [] = []"
| "update_first P f (x # xs) = (if P x then f x # xs else x # update_first P f xs)"

definition update_tool_call :: "js \<Rightarrow> (jobj \<Rightarrow> jobj) \<Rightarrow> jobj \<Rightarrow> jobj" where
  "update_tool_call i f obj =
     oset ''toolCalls''
       (JArr (update_first (\<lambda>tc. jprop tc ''id'' = i) (\<lambda>tc. JObj (f (fields_of tc)))
          (elements (oget obj ''toolCalls'')))) obj"

definition function_field :: "string \<Rightarrow> jobj \<Rightarrow> js" where
  "function_field k tc = jprop (oget tc ''function'') k"

definition set_function_field :: "string \<Rightarrow> js \<Rightarrow> jobj \<Rightarrow> jobj" where
  "set_function_field k v tc =
     oset ''function'' (JObj (oset k v (fields_of (oget tc ''function'')))) tc"

definition resolveOrCreateAssistantMessage :: "js \<Rightarrow> js \<Rightarrow> 'w apply_state \<Rightarrow> nat \<times> 'w apply_state" where
  "resolveOrCreateAssistantMessage parentMessageId toolCallId st =
     (if truthy parentMessageId then
        (case find_message parentMessageId st of
           Some r \<Rightarrow>
             if oget (heap st r) ''role'' = JStr ''assistant'' then (r, st)
             else push_message [(''id'', toolCallId), (''role'', JStr ''assistant''), (''toolCalls'', JArr [])] st
         | None \<Rightarrow>
             push_message [(''id'', parentMessageId), (''role'', JStr ''assistant''), (''toolCalls'', JArr [])] st)
      else push_message [(''id'', toolCallId), (''role'', JStr ''assistant''), (''toolCalls'', JArr [])] st)"

definition new_tool_call :: "event \<Rightarrow> jobj" where
  "new_tool_call e =
     applyEventMetadata e
       [(''id'', attr e ''toolCallId''), (''type'', JStr ''function''),
        (''function'', JObj [(''name'', attr e ''toolCallName''), (''arguments'', JStr '''')])]"

definition add_tool_call :: "event \<Rightarrow> bool \<Rightarrow> jobj \<Rightarrow> jobj" where
  "add_tool_call e wasCreated obj =
     (let tagged = (if wasCreated \<and> \<not> nullish (attr e ''subagentRunId'') \<and> oget obj ''subagentRunId'' = JUndef
                    then oset ''subagentRunId'' (attr e ''subagentRunId'') obj else obj)
      in oset ''toolCalls'' (JArr (elements (oget tagged ''toolCalls'') @ [JObj (new_tool_call e)])) tagged)"

definition restart_tool_call :: "event \<Rightarrow> bool \<Rightarrow> jobj \<Rightarrow> jobj" where
  "restart_tool_call e renamed tc =
     applyEventMetadata e (if renamed then set_function_field ''name'' (attr e ''toolCallName'') tc else tc)"

definition start_tool_call :: "event \<Rightarrow> 'w apply_state \<Rightarrow> 'w apply_state" where
  "start_tool_call e st0 =
     (let toolCallId = attr e ''toolCallId'';
          st = st0\<lparr>runToolCallIds := sadd toolCallId (runToolCallIds st0)\<rparr> in
      case find_tool_owner toolCallId st of
        Some r \<Rightarrow>
          let existing = fields_of (the (tool_call_in toolCallId (heap st r)));
              renamed = (function_field ''name'' existing \<noteq> attr e ''toolCallName'');
              st1 = write_object r (update_tool_call toolCallId (restart_tool_call e renamed)) st
          in if carries_metadata e \<or> renamed then publish st1 else st
      | None \<Rightarrow>
          let preexistingIds = map (\<lambda>m. oget m ''id'') (conversation st);
              (r, st1) = resolveOrCreateAssistantMessage (attr e ''parentMessageId'') toolCallId st;
              wasCreated = (oget (heap st1 r) ''id'' \<notin> set preexistingIds)
          in publish (write_object r (add_tool_call e wasCreated) st1))"

definition apply_tool_call_start ::
    "'w apply_env \<Rightarrow> event \<Rightarrow> 'w apply_state \<Rightarrow> apply_error + 'w apply_state" where
  "apply_tool_call_start env e st =
     unless_stopped env (OnTyped e []) st (\<lambda>st. Inr (start_tool_call e st))"

definition append_args :: "event \<Rightarrow> jobj \<Rightarrow> jobj" where
  "append_args e tc =
     applyEventMetadata e
       (set_function_field ''arguments''
          (JStr (text_of (function_field ''arguments'' tc) @ text_of (attr e ''delta''))) tc)"

definition apply_tool_call_args ::
    "'w apply_env \<Rightarrow> event \<Rightarrow> 'w apply_state \<Rightarrow> apply_error + 'w apply_state" where
  "apply_tool_call_args env e st =
     (let toolCallId = attr e ''toolCallId'' in
      case find_tool_owner toolCallId st of
        None \<Rightarrow> Inr st
      | Some r \<Rightarrow>
          let tc = fields_of (the (tool_call_in toolCallId (heap st r))) in
          unless_stopped env
            (OnTyped e [(''toolCallBuffer'', function_field ''arguments'' tc),
                        (''toolCallName'', function_field ''name'' tc)]) st
            (\<lambda>st. Inr (publish (write_object r (update_tool_call toolCallId (append_args e)) st))))"

definition apply_tool_call_end ::
    "'w apply_env \<Rightarrow> event \<Rightarrow> 'w apply_state \<Rightarrow> apply_error + 'w apply_state" where
  "apply_tool_call_end env e st =
     (let toolCallId = attr e ''toolCallId'' in
      case find_tool_owner toolCallId st of
        None \<Rightarrow> Inr st
      | Some r \<Rightarrow>
          let tc = fields_of (the (tool_call_in toolCallId (heap st r))) in
          (case run_hook env
             (OnTyped e [(''toolCallArgs'', function_field ''arguments'' tc),
                         (''toolCallName'', function_field ''name'' tc)]) st of
             Inl err \<Rightarrow> Inl err
           | Inr (stop, st1) \<Rightarrow>
               let st2 = (if \<not> stop \<and> carries_metadata e
                          then publish (write_object r (update_tool_call toolCallId (applyEventMetadata e)) st1)
                          else st1)
               in notify env False (OnNewToolCall (the (tool_call_in toolCallId (heap st2 r)))) st2))"

definition tool_message_of :: "event \<Rightarrow> jobj" where
  "tool_message_of e =
     applyEventMetadata e
       ([(''id'', attr e ''messageId''), (''toolCallId'', attr e ''toolCallId''),
         (''role'', if truthy (attr e ''role'') then attr e ''role'' else JStr ''tool''),
         (''content'', attr e ''content'')] @ tag_field e)"

text \<open>The position after the owner and the tool results that follow it.\<close>

definition result_position :: "js \<Rightarrow> jobj list \<Rightarrow> nat" where
  "result_position toolCallId msgs =
     (case find_index (\<lambda>m. oget m ''role'' = JStr ''assistant'' \<and> tool_call_in toolCallId m \<noteq> None) msgs of
        None \<Rightarrow> length msgs
      | Some ownerIndex \<Rightarrow>
          Suc ownerIndex +
          length (takeWhile (\<lambda>m. oget m ''role'' = JStr ''tool'') (drop (Suc ownerIndex) msgs)))"

definition insert_tool_result :: "event \<Rightarrow> 'w apply_state \<Rightarrow> 'w apply_state" where
  "insert_tool_result e st =
     (let (r, st1) = new_object (tool_message_of e)
            (st\<lparr>answeredToolCallIds := sadd (attr e ''toolCallId'') (answeredToolCallIds st)\<rparr>);
          n = result_position (attr e ''toolCallId'') (conversation st)
      in st1\<lparr>message_refs := take n (message_refs st1) @ r # drop n (message_refs st1)\<rparr>)"

definition apply_tool_call_result ::
    "'w apply_env \<Rightarrow> event \<Rightarrow> 'w apply_state \<Rightarrow> apply_error + 'w apply_state" where
  "apply_tool_call_result env e st =
     unless_stopped env (OnTyped e []) st (\<lambda>st.
       (case notify env False (OnNewMessage (tool_message_of e)) (insert_tool_result e st) of
          Inl err \<Rightarrow> Inl err
        | Inr st1 \<Rightarrow> Inr (publish st1)))"

subsection \<open>Application state\<close>

definition apply_state_snapshot ::
    "'w apply_env \<Rightarrow> event \<Rightarrow> 'w apply_state \<Rightarrow> apply_error + 'w apply_state" where
  "apply_state_snapshot env e st =
     unless_stopped env (OnTyped e []) st
       (\<lambda>st. Inr (publish_state (st\<lparr>app_state := attr e ''snapshot''\<rparr>)))"

definition apply_state_delta ::
    "'w apply_env \<Rightarrow> event \<Rightarrow> 'w apply_state \<Rightarrow> apply_error + 'w apply_state" where
  "apply_state_delta env e st =
     unless_stopped env (OnTyped e []) st
       (\<lambda>st. Inr (case applyPatch env (app_state st) (attr e ''delta'') of
                     None \<Rightarrow> st
                   | Some doc \<Rightarrow> publish_state (st\<lparr>app_state := doc\<rparr>)))"

subsection \<open>Message snapshots\<close>

definition ACTIVITY_HISTORY_METADATA :: string where
  "ACTIVITY_HISTORY_METADATA = ''@ag-ui/client''"

text \<open>\<open>JUndef\<close>: nothing declared; \<open>JNull\<close>: all types; an array: those types.\<close>

definition authoritativeActivityTypes :: "event \<Rightarrow> js" where
  "authoritativeActivityTypes e =
     (let metadata = attr e ''metadata''; value = jprop metadata ACTIVITY_HISTORY_METADATA;
          types = jprop value ''authoritativeActivityTypes'' in
      if \<not> truthy metadata \<or> \<not> has_own (fields_of metadata) ACTIVITY_HISTORY_METADATA then JUndef
      else if \<not> is_object value then JArr []
      else if \<not> has_own (fields_of value) ''authoritativeActivityTypes'' then JUndef
      else if types = JNull then JNull
      else if is_array types \<and> list_all is_string (elements types) then types
      else JArr [])"

definition withAuthoritativeActivityTypes :: "event \<Rightarrow> js list \<Rightarrow> event" where
  "withAuthoritativeActivityTypes e activityTypes =
     (let metadata = attr e ''metadata''; prior = jprop metadata ACTIVITY_HISTORY_METADATA;
          scope = authoritativeActivityTypes e;
          ownsAll = (scope = JNull \<or>
            scope = JUndef \<and> list_ex (\<lambda>m. jprop m ''role'' = JStr ''activity'') (elements (attr e ''messages''))) in
      with_prop ''metadata''
        (JObj (oset ACTIVITY_HISTORY_METADATA
           (JObj (oset ''authoritativeActivityTypes''
              (if ownsAll then JNull else JArr (fold sadd (elements scope @ activityTypes) []))
              (spread [] (fields_of prior))))
           (spread [] (fields_of metadata)))) e)"

definition is_preserved_client_only :: "js \<Rightarrow> jobj list \<Rightarrow> jobj \<Rightarrow> bool" where
  "is_preserved_client_only ownedActivityTypes newMessages m \<longleftrightarrow>
     (oget m ''role'' = JStr ''activity'' \<and>
        (case ownedActivityTypes of
           JArr types \<Rightarrow> oget m ''activityType'' \<notin> set types
         | owned \<Rightarrow> owned \<noteq> JNull \<and> \<not> list_ex (\<lambda>m. oget m ''role'' = JStr ''activity'') newMessages))
     \<or> (oget m ''role'' = JStr ''reasoning'' \<and>
        \<not> list_ex (\<lambda>m. oget m ''role'' = JStr ''reasoning'') newMessages)"

definition snapshot_map :: "jobj list \<Rightarrow> nat list \<Rightarrow> (js \<times> nat) list" where
  "snapshot_map newMessages refs =
     fold (\<lambda>(m, r). AList.update (oget m ''id'') r) (zip newMessages refs) []"

definition merge_snapshot :: "event \<Rightarrow> js list \<Rightarrow> 'w apply_state \<Rightarrow> 'w apply_state" where
  "merge_snapshot e rawNewMessages st =
     (let newMessages = map (\<lambda>m. without_null_tag (fields_of m)) rawNewMessages;
          owned = authoritativeActivityTypes e;
          (refs, st1) = new_objects newMessages st;
          snapshotMap = snapshot_map newMessages refs;
          id_of = (\<lambda>r. oget (heap st1 r) ''id'');
          kept = map (\<lambda>r. case map_of snapshotMap (id_of r) of None \<Rightarrow> r | Some s \<Rightarrow> s)
                   (filter (\<lambda>r. map_of snapshotMap (id_of r) \<noteq> None
                                \<or> is_preserved_client_only owned newMessages (heap st1 r))
                      (message_refs st1));
          existingIds = map id_of kept
      in publish (st1\<lparr>message_refs := kept @ filter (\<lambda>r. id_of r \<notin> set existingIds) refs\<rparr>))"

definition apply_messages_snapshot ::
    "'w apply_env \<Rightarrow> event \<Rightarrow> 'w apply_state \<Rightarrow> apply_error + 'w apply_state" where
  "apply_messages_snapshot env e st =
     unless_stopped env (OnTyped e []) st (\<lambda>st.
       (case attr e ''messages'' of
          JArr rawNewMessages \<Rightarrow> Inr (merge_snapshot e rawNewMessages st)
        | _ \<Rightarrow> Inl (NotIterable MESSAGES_SNAPSHOT)))"

subsection \<open>Activities\<close>

text \<open>
  These handlers remember the position of the message, not only the object. A subscriber that
  replaces the list by a shorter one makes the source write past its end and leave holes in the
  array; the model stops there with \<open>SparseMessages\<close>.
\<close>

definition set_message :: "nat \<Rightarrow> jobj \<Rightarrow> 'w apply_state \<Rightarrow> apply_error + 'w apply_state" where
  "set_message i obj st =
     (let (r, st1) = new_object obj st in
      if i < length (message_refs st1) then Inr (st1\<lparr>message_refs := (message_refs st1)[i := r]\<rparr>)
      else if i = length (message_refs st1) then Inr (st1\<lparr>message_refs := message_refs st1 @ [r]\<rparr>)
      else Inl SparseMessages)"

definition activity_message_of :: "event \<Rightarrow> jobj" where
  "activity_message_of e =
     [(''id'', attr e ''messageId''), (''role'', JStr ''activity''),
      (''activityType'', attr e ''activityType''), (''content'', attr e ''content'')] @ tag_field e"

definition replace_activity :: "event \<Rightarrow> jobj \<Rightarrow> jobj" where
  "replace_activity e existing =
     (let replaced = oset ''content'' (attr e ''content'')
                       (oset ''activityType'' (attr e ''activityType'') existing)
      in if nullish (attr e ''subagentRunId'') then odel ''subagentRunId'' replaced
         else oset ''subagentRunId'' (attr e ''subagentRunId'') replaced)"

definition find_position :: "js \<Rightarrow> 'w apply_state \<Rightarrow> nat option" where
  "find_position i st = find_index (\<lambda>r. oget (heap st r) ''id'' = i) (message_refs st)"

definition notify_created ::
    "'w apply_env \<Rightarrow> jobj \<Rightarrow> apply_error + 'w apply_state \<Rightarrow> apply_error + 'w apply_state" where
  "notify_created env created r =
     (case r of Inl err \<Rightarrow> Inl err | Inr st \<Rightarrow> notify env True (OnNewMessage created) (publish st))"

text \<open>\<open>replace ?? true\<close>.\<close>

definition replaces :: "event \<Rightarrow> bool" where
  "replaces e \<longleftrightarrow> nullish (attr e ''replace'') \<or> truthy (attr e ''replace'')"

definition snapshot_activity ::
    "'w apply_env \<Rightarrow> event \<Rightarrow> (nat \<times> jobj) option \<Rightarrow> 'w apply_state \<Rightarrow> apply_error + 'w apply_state" where
  "snapshot_activity env e existing st =
     (let replace = replaces e;
          activityMessage = applyEventMetadata e (activity_message_of e) in
      case existing of
        None \<Rightarrow> notify_created env activityMessage (Inr (snd (push_message activityMessage st)))
      | Some (i, obj) \<Rightarrow>
          if oget obj ''role'' = JStr ''activity'' then
            (if replace
             then map_sum id publish (set_message i (applyEventMetadata e (replace_activity e obj)) st)
             else Inr (publish (if i < length (message_refs st)
                                then write_object (message_refs st ! i) (applyEventMetadata e) st else st)))
          else if replace then notify_created env activityMessage (set_message i activityMessage st)
          else Inr (publish st))"

definition apply_activity_snapshot ::
    "'w apply_env \<Rightarrow> event \<Rightarrow> 'w apply_state \<Rightarrow> apply_error + 'w apply_state" where
  "apply_activity_snapshot env e st =
     (let existing = map_option (\<lambda>i. (i, message_refs st ! i)) (find_position (attr e ''messageId'') st);
          existingMessage = (case existing of None \<Rightarrow> JUndef | Some (i, r) \<Rightarrow> JObj (heap st r));
          activityMessage = (if jprop existingMessage ''role'' = JStr ''activity'' then existingMessage else JUndef)
      in unless_stopped env
           (OnTyped e [(''activityMessage'', activityMessage), (''existingMessage'', existingMessage)]) st
           (\<lambda>st1. snapshot_activity env e (map_option (\<lambda>(i, r). (i, heap st1 r)) existing) st1))"

definition patch_activity ::
    "'w apply_env \<Rightarrow> event \<Rightarrow> nat \<Rightarrow> nat \<Rightarrow> 'w apply_state \<Rightarrow> apply_error + 'w apply_state" where
  "patch_activity env e i r st =
     (let st1 = (if carries_metadata e then publish (write_object r (applyEventMetadata e) st) else st);
          content = oget (heap st1 r) ''content'';
          baseContent = (if nullish content then JObj [] else content);
          ops = (if nullish (attr e ''patch'') then JArr [] else attr e ''patch'') in
      case applyPatch env baseContent ops of
        None \<Rightarrow> Inr st1
      | Some doc \<Rightarrow>
          map_sum id publish
            (set_message i (oset ''activityType'' (attr e ''activityType'')
                              (oset ''content'' doc (heap st1 r))) st1))"

definition apply_activity_delta ::
    "'w apply_env \<Rightarrow> event \<Rightarrow> 'w apply_state \<Rightarrow> apply_error + 'w apply_state" where
  "apply_activity_delta env e st =
     (case find_position (attr e ''messageId'') st of
        None \<Rightarrow> Inr st
      | Some i \<Rightarrow>
          let r = message_refs st ! i in
          if \<not> is_activity st r then Inr st
          else unless_stopped env (OnTyped e [(''activityMessage'', JObj (heap st r))]) st
                 (\<lambda>st. patch_activity env e i r st))"

subsection \<open>Runs, steps and encrypted values\<close>

definition apply_hook_only ::
    "'w apply_env \<Rightarrow> event \<Rightarrow> 'w apply_state \<Rightarrow> apply_error + 'w apply_state" where
  "apply_hook_only env e st = map_sum id snd (run_hook env (OnTyped e []) st)"

text \<open>The handlers that run their hook and do nothing else.\<close>

definition apply_raw ::
    "'w apply_env \<Rightarrow> event \<Rightarrow> 'w apply_state \<Rightarrow> apply_error + 'w apply_state" where
  "apply_raw env e st = apply_hook_only env e st"

definition apply_custom ::
    "'w apply_env \<Rightarrow> event \<Rightarrow> 'w apply_state \<Rightarrow> apply_error + 'w apply_state" where
  "apply_custom env e st = apply_hook_only env e st"

definition apply_run_error ::
    "'w apply_env \<Rightarrow> event \<Rightarrow> 'w apply_state \<Rightarrow> apply_error + 'w apply_state" where
  "apply_run_error env e st = apply_hook_only env e st"

definition apply_step_started ::
    "'w apply_env \<Rightarrow> event \<Rightarrow> 'w apply_state \<Rightarrow> apply_error + 'w apply_state" where
  "apply_step_started env e st = apply_hook_only env e st"

definition apply_step_finished ::
    "'w apply_env \<Rightarrow> event \<Rightarrow> 'w apply_state \<Rightarrow> apply_error + 'w apply_state" where
  "apply_step_finished env e st = apply_hook_only env e st"

definition apply_reasoning_start ::
    "'w apply_env \<Rightarrow> event \<Rightarrow> 'w apply_state \<Rightarrow> apply_error + 'w apply_state" where
  "apply_reasoning_start env e st = apply_hook_only env e st"

definition apply_reasoning_end ::
    "'w apply_env \<Rightarrow> event \<Rightarrow> 'w apply_state \<Rightarrow> apply_error + 'w apply_state" where
  "apply_reasoning_end env e st = apply_hook_only env e st"

definition apply_subagent_started ::
    "'w apply_env \<Rightarrow> event \<Rightarrow> 'w apply_state \<Rightarrow> apply_error + 'w apply_state" where
  "apply_subagent_started env e st = apply_hook_only env e st"

definition apply_subagent_finished ::
    "'w apply_env \<Rightarrow> event \<Rightarrow> 'w apply_state \<Rightarrow> apply_error + 'w apply_state" where
  "apply_subagent_finished env e st = apply_hook_only env e st"

definition apply_subagent_error ::
    "'w apply_env \<Rightarrow> event \<Rightarrow> 'w apply_state \<Rightarrow> apply_error + 'w apply_state" where
  "apply_subagent_error env e st = apply_hook_only env e st"

lemmas hook_only_defs = apply_raw_def apply_custom_def apply_run_error_def
  apply_step_started_def apply_step_finished_def apply_reasoning_start_def
  apply_reasoning_end_def apply_subagent_started_def apply_subagent_finished_def
  apply_subagent_error_def

fun add_missing :: "jobj list \<Rightarrow> 'w apply_state \<Rightarrow> 'w apply_state" where
  "add_missing [] st = st"
| "add_missing (m # ms) st =
     add_missing ms
       (case find_message (oget m ''id'') st of
          Some _ \<Rightarrow> st
        | None \<Rightarrow> snd (push_message m st))"

definition apply_run_started ::
    "'w apply_env \<Rightarrow> event \<Rightarrow> 'w apply_state \<Rightarrow> apply_error + 'w apply_state" where
  "apply_run_started env e st =
     (case run_hook env (OnTyped e []) st of
        Inl err \<Rightarrow> Inl err
      | Inr (stop, st1) \<Rightarrow>
          let st2 = st1\<lparr>runToolCallIds := [], answeredToolCallIds := []\<rparr>;
              inputMessages = jprop (attr e ''input'') ''messages'' in
          if stop \<or> \<not> truthy inputMessages then Inr st2
          else (case inputMessages of
                  JArr ms \<Rightarrow> Inr (publish (add_missing (map (\<lambda>m. without_null_tag (fields_of m)) ms) st2))
                | _ \<Rightarrow> Inl (NotIterable RUN_STARTED)))"

definition pendingToolCallIdsOf :: "event \<Rightarrow> 'w apply_state \<Rightarrow> js list" where
  "pendingToolCallIdsOf e st =
     (let outcome = attr e ''outcome'';
          named = (if jprop outcome ''type'' = JStr ''success'' then jprop outcome ''pendingToolCallIds'' else JUndef)
      in if elements named \<noteq> [] then elements named
         else filter (\<lambda>i. i \<notin> set (answeredToolCallIds st)) (runToolCallIds st))"

definition finished_params :: "event \<Rightarrow> 'w apply_state \<Rightarrow> jobj" where
  "finished_params e st =
     (let outcome = attr e ''outcome'' in
      if jprop outcome ''type'' = JStr ''interrupt''
      then [(''outcome'', JStr ''interrupt''), (''interrupts'', jprop outcome ''interrupts'')]
      else if jprop outcome ''type'' = JStr ''cancelled'' then [(''outcome'', JStr ''cancelled'')]
      else [(''outcome'', JStr ''success''), (''result'', attr e ''result''),
            (''pendingToolCallIds'', JArr (pendingToolCallIdsOf e st))])"

definition apply_run_finished ::
    "'w apply_env \<Rightarrow> event \<Rightarrow> 'w apply_state \<Rightarrow> apply_error + 'w apply_state" where
  "apply_run_finished env e st =
     (let params = finished_params e st in
      unless_stopped env (OnTyped e params) st (\<lambda>st.
        if oget params ''outcome'' = JStr ''interrupt'' then
          (case oget params ''interrupts'' of
             JArr interrupts \<Rightarrow>
               Inr (st\<lparr>pendingInterrupts := map (\<lambda>i. JObj (without_null_tag (fields_of i))) interrupts\<rparr>)
           | _ \<Rightarrow> Inl (NotIterable RUN_FINISHED))
        else Inr (st\<lparr>pendingInterrupts := []\<rparr>)))"

definition set_encrypted_value :: "event \<Rightarrow> 'w apply_state \<Rightarrow> 'w apply_state" where
  "set_encrypted_value e st =
     (let entityId = attr e ''entityId''; enc = oset ''encryptedValue'' (attr e ''encryptedValue'') in
      if attr e ''subtype'' = JStr ''tool-call'' then
        (case find (\<lambda>r. oget (heap st r) ''role'' = JStr ''assistant''
                        \<and> tool_call_in entityId (heap st r) \<noteq> None) (message_refs st) of
           None \<Rightarrow> st
         | Some r \<Rightarrow> publish (write_object r (update_tool_call entityId enc) st))
      else
        (case find_message entityId st of
           None \<Rightarrow> st
         | Some r \<Rightarrow> if is_activity st r then st else publish (write_object r enc st)))"

definition apply_reasoning_encrypted_value ::
    "'w apply_env \<Rightarrow> event \<Rightarrow> 'w apply_state \<Rightarrow> apply_error + 'w apply_state" where
  "apply_reasoning_encrypted_value env e st =
     unless_stopped env (OnTyped e []) st (\<lambda>st. Inr (set_encrypted_value e st))"

subsection \<open>The reducer\<close>

definition apply_switch :: "'w apply_env \<Rightarrow> event \<Rightarrow> 'w apply_state \<Rightarrow> apply_error + 'w apply_state" where
  "apply_switch env e st =
     (case etype e of
        TEXT_MESSAGE_START \<Rightarrow> apply_text_message_start env e st
      | TEXT_MESSAGE_CONTENT \<Rightarrow> apply_text_message_content env e st
      | TEXT_MESSAGE_END \<Rightarrow> apply_text_message_end env e st
      | TOOL_CALL_START \<Rightarrow> apply_tool_call_start env e st
      | TOOL_CALL_ARGS \<Rightarrow> apply_tool_call_args env e st
      | TOOL_CALL_END \<Rightarrow> apply_tool_call_end env e st
      | TOOL_CALL_RESULT \<Rightarrow> apply_tool_call_result env e st
      | STATE_SNAPSHOT \<Rightarrow> apply_state_snapshot env e st
      | STATE_DELTA \<Rightarrow> apply_state_delta env e st
      | MESSAGES_SNAPSHOT \<Rightarrow> apply_messages_snapshot env e st
      | ACTIVITY_SNAPSHOT \<Rightarrow> apply_activity_snapshot env e st
      | ACTIVITY_DELTA \<Rightarrow> apply_activity_delta env e st
      | RUN_STARTED \<Rightarrow> apply_run_started env e st
      | RUN_FINISHED \<Rightarrow> apply_run_finished env e st
      | TEXT_MESSAGE_CHUNK \<Rightarrow> Inl (NotTransformed TEXT_MESSAGE_CHUNK)
      | TOOL_CALL_CHUNK \<Rightarrow> Inl (NotTransformed TOOL_CALL_CHUNK)
      | REASONING_MESSAGE_CHUNK \<Rightarrow> Inl (NotTransformed REASONING_MESSAGE_CHUNK)
      | REASONING_MESSAGE_START \<Rightarrow> apply_reasoning_message_start env e st
      | REASONING_MESSAGE_CONTENT \<Rightarrow> apply_reasoning_message_content env e st
      | REASONING_MESSAGE_END \<Rightarrow> apply_reasoning_message_end env e st
      | REASONING_ENCRYPTED_VALUE \<Rightarrow> apply_reasoning_encrypted_value env e st
      | RAW \<Rightarrow> apply_raw env e st
      | CUSTOM \<Rightarrow> apply_custom env e st
      | RUN_ERROR \<Rightarrow> apply_run_error env e st
      | STEP_STARTED \<Rightarrow> apply_step_started env e st
      | STEP_FINISHED \<Rightarrow> apply_step_finished env e st
      | REASONING_START \<Rightarrow> apply_reasoning_start env e st
      | REASONING_END \<Rightarrow> apply_reasoning_end env e st
      | SUBAGENT_STARTED \<Rightarrow> apply_subagent_started env e st
      | SUBAGENT_FINISHED \<Rightarrow> apply_subagent_finished env e st
      | SUBAGENT_ERROR \<Rightarrow> apply_subagent_error env e st
      | OTHER_TYPE _ \<Rightarrow> Inr st)"

definition apply_event :: "'w apply_env \<Rightarrow> ('w apply_state, event, apply_error, agent_mutation) stage" where
  "apply_event env st e =
     (case run_hook env (OnEvent e) st of
        Inl err \<Rightarrow> Inl err
      | Inr (stop, st1) \<Rightarrow>
          if stop then Inr (emitUpdates st1)
          else map_sum id emitUpdates (apply_switch env e st1))"

definition defaultApplyEvents ::
    "'w apply_env \<Rightarrow> 'w apply_state \<Rightarrow> event list \<Rightarrow> agent_mutation list \<times> apply_error option" where
  "defaultApplyEvents env st es =
     (let out = emitted (apply_event env) st es; err = failure (apply_event env) st es in
      if out = [] \<and> err = None \<and> subscribers env \<noteq> [] then ([no_mutation], None) else (out, err))"

lemma apply_switch_eq:
  "apply_switch env e st =
     (case etype e of
        TEXT_MESSAGE_START \<Rightarrow> apply_text_message_start env e st
      | TEXT_MESSAGE_CONTENT \<Rightarrow> apply_text_message_content env e st
      | TEXT_MESSAGE_END \<Rightarrow> apply_text_message_end env e st
      | TOOL_CALL_START \<Rightarrow> apply_tool_call_start env e st
      | TOOL_CALL_ARGS \<Rightarrow> apply_tool_call_args env e st
      | TOOL_CALL_END \<Rightarrow> apply_tool_call_end env e st
      | TOOL_CALL_RESULT \<Rightarrow> apply_tool_call_result env e st
      | STATE_SNAPSHOT \<Rightarrow> apply_state_snapshot env e st
      | STATE_DELTA \<Rightarrow> apply_state_delta env e st
      | MESSAGES_SNAPSHOT \<Rightarrow> apply_messages_snapshot env e st
      | ACTIVITY_SNAPSHOT \<Rightarrow> apply_activity_snapshot env e st
      | ACTIVITY_DELTA \<Rightarrow> apply_activity_delta env e st
      | RUN_STARTED \<Rightarrow> apply_run_started env e st
      | RUN_FINISHED \<Rightarrow> apply_run_finished env e st
      | TEXT_MESSAGE_CHUNK \<Rightarrow> Inl (NotTransformed TEXT_MESSAGE_CHUNK)
      | TOOL_CALL_CHUNK \<Rightarrow> Inl (NotTransformed TOOL_CALL_CHUNK)
      | REASONING_MESSAGE_CHUNK \<Rightarrow> Inl (NotTransformed REASONING_MESSAGE_CHUNK)
      | REASONING_MESSAGE_START \<Rightarrow> apply_reasoning_message_start env e st
      | REASONING_MESSAGE_CONTENT \<Rightarrow> apply_reasoning_message_content env e st
      | REASONING_MESSAGE_END \<Rightarrow> apply_reasoning_message_end env e st
      | REASONING_ENCRYPTED_VALUE \<Rightarrow> apply_reasoning_encrypted_value env e st
      | OTHER_TYPE _ \<Rightarrow> Inr st
      | _ \<Rightarrow> apply_hook_only env e st)"
  by (cases "etype e") (simp_all add: apply_switch_def hook_only_defs)

subsection \<open>The heap\<close>

lemma push_message_eq:
  "push_message obj st =
     (next_ref st, st\<lparr>heap := (heap st)(next_ref st := obj), next_ref := Suc (next_ref st),
        message_refs := message_refs st @ [next_ref st]\<rparr>)"
  by (simp add: push_message_def new_object_def)

definition bounded :: "'w apply_state \<Rightarrow> bool" where
  "bounded st \<longleftrightarrow> (\<forall>r \<in> set (message_refs st). r < next_ref st)"

text \<open>No message object is in the array twice.\<close>

definition unshared :: "'w apply_state \<Rightarrow> bool" where
  "unshared st \<longleftrightarrow> bounded st \<and> distinct (message_refs st)"

lemma conversation_world [simp]: "conversation (st\<lparr>world := w\<rparr>) = conversation st"
  by (simp add: conversation_def)

lemma conversation_publish [simp]: "conversation (publish st) = conversation st"
  by (simp add: conversation_def publish_def)

lemma bounded_new: "bounded st \<Longrightarrow> r \<in> set (message_refs st) \<Longrightarrow> ((heap st)(next_ref st := obj)) r = heap st r"
  by (auto simp: bounded_def)

lemma conversation_push:
  assumes "bounded st"
  shows "conversation (snd (push_message obj st)) = conversation st @ [obj]"
    and "bounded (snd (push_message obj st))"
  using assms by (auto simp: conversation_def push_message_eq bounded_def)

lemma unshared_push: "unshared st \<Longrightarrow> unshared (snd (push_message obj st))"
  by (auto simp: unshared_def bounded_def push_message_eq)

lemma new_objects_eq:
  "new_objects objs st =
     ([next_ref st ..< next_ref st + length objs],
      st\<lparr>heap := (\<lambda>r. if next_ref st \<le> r \<and> r < next_ref st + length objs
                     then objs ! (r - next_ref st) else heap st r),
         next_ref := next_ref st + length objs\<rparr>)"
proof (induction objs arbitrary: st)
  case Nil
  have "heap st = (\<lambda>r. if next_ref st \<le> r \<and> r < next_ref st then [] ! (r - next_ref st) else heap st r)"
    by (rule ext) auto
  then show ?case by simp
next
  case (Cons obj objs)
  have refs: "[next_ref st ..< next_ref st + length (obj # objs)] =
      next_ref st # [Suc (next_ref st) ..< Suc (next_ref st) + length objs]"
    by (subst upt_conv_Cons) simp_all
  have "(\<lambda>r. if Suc (next_ref st) \<le> r \<and> r < Suc (next_ref st) + length objs
            then objs ! (r - Suc (next_ref st)) else ((heap st)(next_ref st := obj)) r) =
        (\<lambda>r. if next_ref st \<le> r \<and> r < next_ref st + length (obj # objs)
            then (obj # objs) ! (r - next_ref st) else heap st r)"
    by (rule ext) (auto simp: nth_Cons' Suc_le_eq diff_Suc)
  then show ?case
    unfolding refs by (simp add: new_object_def Cons.IH cong: if_cong)
qed

lemma map_heap_new_objects:
  "new_objects objs st = (rs, st') \<Longrightarrow> map (heap st') rs = objs"
  by (auto simp: new_objects_eq intro!: nth_equalityI)

lemma new_objects_old:
  "new_objects objs st = (rs, st') \<Longrightarrow> r < next_ref st \<Longrightarrow> heap st' r = heap st r"
  by (auto simp: new_objects_eq)

lemma new_objects_refs:
  "new_objects objs st = (rs, st') \<Longrightarrow>
     message_refs st' = message_refs st \<and> distinct rs \<and>
     (\<forall>r \<in> set rs. next_ref st \<le> r \<and> r < next_ref st') \<and> next_ref st \<le> next_ref st'"
  by (auto simp: new_objects_eq)

text \<open>Writing through a reference found by a predicate updates the first message that has it.\<close>

lemma conversation_write:
  assumes "distinct (message_refs st)" and "find (\<lambda>r. P (heap st r)) (message_refs st) = Some r"
  shows "conversation (write_object r f st) = update_first P f (conversation st)"
proof -
  have "find (\<lambda>r. P (heap st r)) rs = Some r \<Longrightarrow> distinct rs \<Longrightarrow>
      map ((heap st)(r := f (heap st r))) rs = update_first P f (map (heap st) rs)" for rs
  proof (induction rs)
    case (Cons a rs)
    show ?case
    proof (cases "P (heap st a)")
      case True
      with Cons.prems show ?thesis by auto
    next
      case False
      with Cons show ?thesis by (auto simp: find_Some_iff)
    qed
  qed simp
  with assms show ?thesis by (simp add: conversation_def write_object_def)
qed

lemma update_first_none: "(\<And>x. x \<in> set xs \<Longrightarrow> \<not> P x) \<Longrightarrow> update_first P f xs = xs"
  by (induction xs) auto

lemma update_first_cong:
  "(\<And>x. x \<in> set xs \<Longrightarrow> P x \<Longrightarrow> f x = g x) \<Longrightarrow> update_first P f xs = update_first P g xs"
  by (induction xs) auto

lemma find_map_conv: "find P (map h xs) = map_option h (find (\<lambda>x. P (h x)) xs)"
  by (induction xs) auto

lemma find_heap: "find P (conversation st) = map_option (heap st) (find (\<lambda>r. P (heap st r)) (message_refs st))"
  by (simp add: conversation_def find_map_conv)

lemma find_index_find:
  "find_index P xs = (case find P xs of None \<Rightarrow> None | Some _ \<Rightarrow> find_index P xs)"
  by (induction xs) (auto split: option.splits)

lemma find_index_Some:
  "find_index P xs = Some i \<Longrightarrow> i < length xs \<and> find P xs = Some (xs ! i) \<and>
     xs[i := y] = update_first P (\<lambda>_. y) xs"
  by (induction xs arbitrary: i) (auto split: if_splits)

lemma find_index_None: "find_index P xs = None \<longleftrightarrow> find P xs = None"
  by (induction xs) auto

lemma update_first_map:
  "map h (update_first (\<lambda>x. P (h x)) (\<lambda>_. y) xs) = update_first P (\<lambda>_. h y) (map h xs)"
  by (induction xs) auto

lemma write_object_simps [simp]:
  "message_refs (write_object r f st) = message_refs st" "next_ref (write_object r f st) = next_ref st"
  "app_state (write_object r f st) = app_state st" "world (write_object r f st) = world st"
  "runToolCallIds (write_object r f st) = runToolCallIds st"
  "answeredToolCallIds (write_object r f st) = answeredToolCallIds st"
  "pendingInterrupts (write_object r f st) = pendingInterrupts st"
  "cur_messages (write_object r f st) = cur_messages st" "cur_state (write_object r f st) = cur_state st"
  by (simp_all add: write_object_def)

lemma publish_simps [simp]:
  "message_refs (publish st) = message_refs st" "next_ref (publish st) = next_ref st"
  "heap (publish st) = heap st"
  "app_state (publish st) = app_state st" "world (publish st) = world st"
  "runToolCallIds (publish st) = runToolCallIds st"
  "answeredToolCallIds (publish st) = answeredToolCallIds st"
  "pendingInterrupts (publish st) = pendingInterrupts st"
  "cur_messages (publish st)" "cur_state (publish st) = cur_state st"
  by (simp_all add: publish_def)

lemma push_message_simps [simp]:
  "app_state (snd (push_message obj st)) = app_state st" "world (snd (push_message obj st)) = world st"
  "runToolCallIds (snd (push_message obj st)) = runToolCallIds st"
  "answeredToolCallIds (snd (push_message obj st)) = answeredToolCallIds st"
  "pendingInterrupts (snd (push_message obj st)) = pendingInterrupts st"
  "cur_messages (snd (push_message obj st)) = cur_messages st"
  "cur_state (snd (push_message obj st)) = cur_state st"
  by (simp_all add: push_message_eq)

subsection \<open>Emissions mirror the reducer\<close>

text \<open>
  A consumer that keeps the last messages and the last state it was sent. \<open>tracked\<close> relates
  the values at the beginning of a step to the state the step has reached: whatever differs is
  recorded in \<open>currentMutation\<close>.
\<close>

definition consume :: "agent_mutation \<Rightarrow> jobj list \<times> js \<Rightarrow> jobj list \<times> js" where
  "consume m c =
     ((case m_messages m of None \<Rightarrow> fst c | Some ms \<Rightarrow> ms),
      if m_state m = JUndef then snd c else m_state m)"

definition tracked :: "jobj list \<times> js \<Rightarrow> 'w apply_state \<Rightarrow> bool" where
  "tracked c st \<longleftrightarrow> bounded st \<and>
     (cur_messages st \<or> conversation st = fst c) \<and>
     app_state st = (if cur_state st = JUndef then snd c else cur_state st)"

lemma tracked_emit:
  assumes "tracked c st" and "emitUpdates st = (out, st')"
  shows "fold consume out c = (conversation st', app_state st')" and "bounded st'"
    and "\<not> cur_messages st'" and "cur_state st' = JUndef"
  using assms by (auto simp: tracked_def emitUpdates_def consume_def conversation_def bounded_def split: if_splits)

lemma tracked_publish: "bounded st \<Longrightarrow> tracked c (st\<lparr>cur_messages := False\<rparr>) \<or> tracked c st \<or>
    app_state st = (if cur_state st = JUndef then snd c else cur_state st) \<Longrightarrow> tracked c (publish st)"
  by (auto simp: tracked_def bounded_def conversation_def publish_def)

lemma tracked_publishI:
  "bounded st \<Longrightarrow> app_state st = (if cur_state st = JUndef then snd c else cur_state st) \<Longrightarrow> tracked c (publish st)"
  by (simp add: tracked_def bounded_def)

lemma bounded_write [simp]: "bounded (write_object r f st) = bounded st"
  by (simp add: bounded_def)

lemma bounded_publish [simp]: "bounded (publish st) = bounded st"
  by (simp add: bounded_def)

lemma tracked_bounded: "tracked c st \<Longrightarrow> bounded st"
  by (simp add: tracked_def)

lemma tracked_state: "tracked c st \<Longrightarrow> app_state st = (if cur_state st = JUndef then snd c else cur_state st)"
  by (simp add: tracked_def)

lemma tracked_write: "tracked c st \<Longrightarrow> tracked c (publish (write_object r f st))"
  by (simp add: tracked_def)

lemma tracked_world [simp]: "tracked c (st\<lparr>world := w\<rparr>) = tracked c st"
  by (simp add: tracked_def bounded_def)

lemma tracked_push: "tracked c st \<Longrightarrow> tracked c (publish (write_object r f (snd (push_message obj st))))"
  by (simp add: tracked_def conversation_push)

lemma tracked_replace:
  assumes "tracked c st"
  shows "tracked c (publish (snd (new_objects objs st)\<lparr>message_refs := fst (new_objects objs st)\<rparr>))"
  using assms by (auto simp: tracked_def bounded_def new_objects_eq)

lemma tracked_publish_state:
  assumes "tracked c st" and "v \<noteq> JUndef"
  shows "tracked c (publish_state (st\<lparr>app_state := v\<rparr>))"
  using assms by (simp add: tracked_def publish_state_def bounded_def conversation_def)

lemma tracked_applyMutation: "tracked c st \<Longrightarrow> tracked c (applyMutation m st)"
proof -
  assume t: "tracked c st"
  let ?st1 = "case m_messages m of None \<Rightarrow> st
     | Some objs \<Rightarrow> (let (rs, st1) = new_objects objs st in publish (st1\<lparr>message_refs := rs\<rparr>))"
  have "tracked c ?st1" using t tracked_replace [OF t] by (simp add: Let_def case_prod_unfold split: option.split)
  then show ?thesis by (simp add: applyMutation_def Let_def tracked_publish_state)
qed

lemma tracked_run_hook: "tracked c st \<Longrightarrow> run_hook env call st = Inr (stop, st') \<Longrightarrow> tracked c st'"
  by (auto simp: run_hook_def intro!: tracked_applyMutation split: sum.splits prod.splits)

lemma tracked_unless_stopped:
  assumes "tracked c st" and "unless_stopped env call st body = Inr st'"
    and "\<And>st. tracked c st \<Longrightarrow> body st = Inr st' \<Longrightarrow> tracked c st'"
  shows "tracked c st'"
proof -
  from assms(2) obtain stop st1 where hook: "run_hook env call st = Inr (stop, st1)"
    and rest: "(if stop then Inr st1 else body st1) = Inr st'"
    by (auto simp: unless_stopped_def split: sum.splits prod.splits)
  have "tracked c st1" using assms(1) hook by (rule tracked_run_hook)
  with rest assms(3) show ?thesis by (cases stop) auto
qed

lemma tracked_notify: "tracked c st \<Longrightarrow> notify env awaited call st = Inr st' \<Longrightarrow> tracked c st'"
  by (auto simp: notify_def split: sum.splits)

lemma tracked_start_message: "tracked c st \<Longrightarrow> tracked c (start_message e obj st)"
  using tracked_push [of c st "fst (push_message obj st)" "applyEventMetadata e" obj]
  by (auto simp: start_message_def tracked_write case_prod_unfold Let_def split: option.split)

lemma tracked_message_content:
  "tracked c st \<Longrightarrow> message_content buffer env e st = Inr st' \<Longrightarrow> tracked c st'"
proof (cases "find_message (attr e ''messageId'') st")
  case (Some r)
  assume t: "tracked c st" and step: "message_content buffer env e st = Inr st'"
  show ?thesis
  proof (cases "is_activity st r")
    case False
    with step Some have "unless_stopped env (OnTyped e [(buffer, JStr (buffer_of (heap st r)))]) st
        (\<lambda>st. Inr (publish (write_object r (append_delta e) st))) = Inr st'"
      by (simp add: message_content_def)
    with t show ?thesis by (rule tracked_unless_stopped) (auto simp: tracked_write)
  qed (use t step Some in \<open>simp add: message_content_def\<close>)
qed (simp add: message_content_def)

lemma tracked_if_write: "tracked c st \<Longrightarrow> tracked c (if b then publish (write_object r f st) else st)"
  by (simp add: tracked_write)

lemma tracked_message_end:
  "tracked c st \<Longrightarrow> message_end buffer env e st = Inr st' \<Longrightarrow> tracked c st'"
proof (cases "find_message (attr e ''messageId'') st")
  case (Some r)
  assume t: "tracked c st" and step: "message_end buffer env e st = Inr st'"
  show ?thesis
  proof (cases "is_activity st r")
    case False
    with step Some obtain stop st1 where
      "run_hook env (OnTyped e [(buffer, JStr (buffer_of (heap st r)))]) st = Inr (stop, st1)"
      and rest: "\<exists>call. notify env False call
        (if \<not> stop \<and> carries_metadata e then publish (write_object r (applyEventMetadata e) st1) else st1) = Inr st'"
      by (fastforce simp: message_end_def Let_def split: sum.splits prod.splits)
    with t have "tracked c st1" by (blast intro: tracked_run_hook)
    with rest show ?thesis by (blast intro: tracked_notify tracked_if_write)
  qed (use t step Some in \<open>simp add: message_end_def\<close>)
qed (simp add: message_end_def)

lemma tracked_field_updates [simp]:
  "tracked c (st\<lparr>runToolCallIds := a\<rparr>) = tracked c st"
  "tracked c (st\<lparr>answeredToolCallIds := a\<rparr>) = tracked c st"
  "tracked c (st\<lparr>pendingInterrupts := i\<rparr>) = tracked c st"
  by (simp_all add: tracked_def bounded_def conversation_def)

lemma resolve_cases:
  "(\<exists>r. resolveOrCreateAssistantMessage p i st = (r, st)) \<or>
   (\<exists>obj. resolveOrCreateAssistantMessage p i st = push_message obj st)"
  by (cases "find_message p st"; cases "truthy p") (auto simp: resolveOrCreateAssistantMessage_def)

lemma tracked_start_tool_call: "tracked c st \<Longrightarrow> tracked c (start_tool_call e st)"
proof -
  assume t: "tracked c st"
  let ?i = "attr e ''toolCallId''" and ?p = "attr e ''parentMessageId''"
  let ?st = "st\<lparr>runToolCallIds := sadd ?i (runToolCallIds st)\<rparr>"
  have t': "tracked c ?st" using t by simp
  obtain r st1 where res: "resolveOrCreateAssistantMessage ?p ?i ?st = (r, st1)" by fastforce
  have "tracked c (publish (write_object r f st1))" for f
  proof -
    consider "st1 = ?st" | obj where "st1 = snd (push_message obj ?st)"
      using resolve_cases [of ?p ?i ?st] res by (metis snd_conv)
    then show ?thesis by cases (simp_all only: tracked_write [OF t'] tracked_push [OF t'])
  qed
  then show ?thesis
    using t' tracked_write [OF t'] by (auto simp: start_tool_call_def Let_def res split: option.split)
qed

lemma tracked_insert_tool_result:
  assumes "tracked c st"
  shows "bounded (insert_tool_result e st)"
    and "app_state (insert_tool_result e st) =
         (if cur_state (insert_tool_result e st) = JUndef then snd c else cur_state (insert_tool_result e st))"
  using assms
  by (auto simp: insert_tool_result_def new_object_def tracked_def bounded_def Let_def
      dest: in_set_takeD in_set_dropD) (meson in_set_takeD in_set_dropD less_SucI)+

lemma notify_fields: "notify env a call st = Inr st' \<Longrightarrow> \<exists>w. st' = st\<lparr>world := w\<rparr>"
  by (auto simp: notify_def split: sum.splits)

lemma tracked_tool_call_result:
  assumes "tracked c st" and "apply_tool_call_result env e st = Inr st'"
  shows "tracked c st'"
proof -
  have body: "tracked c st'"
    if "tracked c st" "(case notify env False m (insert_tool_result e st) of
          Inl err \<Rightarrow> Inl err | Inr st1 \<Rightarrow> Inr (publish st1)) = Inr st'" for st :: "'a apply_state" and m
  proof -
    from that(2) obtain w where "st' = publish ((insert_tool_result e st)\<lparr>world := w\<rparr>)"
      using notify_fields by (fastforce split: sum.splits)
    then show ?thesis
      using tracked_insert_tool_result [OF that(1), of e] by (simp add: tracked_def bounded_def)
  qed
  show ?thesis
    using assms(1) assms(2) [unfolded apply_tool_call_result_def] by (rule tracked_unless_stopped) (rule body)
qed

lemma tracked_merge_snapshot: "tracked c st \<Longrightarrow> tracked c (merge_snapshot e raw st)"
proof -
  assume t: "tracked c st"
  let ?new = "map (\<lambda>m. without_null_tag (fields_of m)) raw"
  obtain refs st1 where n: "new_objects ?new st = (refs, st1)" by fastforce
  note props = new_objects_refs [OF n]
  have "cur_state st1 = cur_state st" "app_state st1 = app_state st" using n by (auto simp: new_objects_eq)
  have vals: "map_of (fold (\<lambda>(m, r). AList.update (key m) r) (zip ms rs) al) k = Some s \<Longrightarrow>
      s \<in> set rs \<or> map_of al k = Some s" for key :: "jobj \<Rightarrow> js" and ms rs k s and al :: "(js \<times> nat) list"
  proof (induction ms arbitrary: rs al)
    case (Cons m ms)
    show ?case
    proof (cases rs)
      case (Cons r rs')
      with Cons.IH [of rs' "AList.update (key m) r al"] Cons.prems show ?thesis
        by (auto simp: update_conv' split: if_splits)
    qed (use Cons.prems in simp)
  qed simp
  have "map_of (snapshot_map ?new refs) k = Some s \<Longrightarrow> s < next_ref st1" for k s
    using vals [of "\<lambda>m. oget m ''id''" ?new refs "[]" k s] props by (auto simp: snapshot_map_def)
  with props t \<open>cur_state st1 = _\<close> \<open>app_state st1 = _\<close> show ?thesis
    by (auto simp: merge_snapshot_def n Let_def tracked_def bounded_def split: option.splits)
qed

lemma tracked_set_message:
  "tracked c st \<Longrightarrow> set_message i obj st = Inr st' \<Longrightarrow> tracked c (publish st')"
  by (auto simp: set_message_def new_object_def Let_def tracked_def bounded_def split: if_splits)
    (metis less_SucI set_update_subset_insert insert_iff lessI subsetD)+

lemma tracked_notify_created:
  "tracked c (publish st) \<Longrightarrow> notify_created env m (Inr st) = Inr st' \<Longrightarrow> tracked c st'"
  by (auto simp: notify_created_def intro: tracked_notify)

lemma tracked_snapshot_activity:
  assumes "tracked c st" and "snapshot_activity env e existing st = Inr st'"
  shows "tracked c st'"
proof -
  let ?m = "applyEventMetadata e (activity_message_of e)"
  have pub: "tracked c (publish st)" using assms(1) by (simp add: tracked_def)
  have pushed: "tracked c (publish (snd (push_message ?m st)))"
    using assms(1) by (simp add: tracked_def conversation_push)
  show ?thesis
  proof (cases existing)
    case None
    with assms(2) tracked_notify_created [OF pushed] show ?thesis
      by (simp add: snapshot_activity_def Let_def)
  next
    case (Some p)
    obtain i obj where p: "p = (i, obj)" by (cases p)
    consider (act) "oget obj ''role'' = JStr ''activity''"
      | (new) "oget obj ''role'' \<noteq> JStr ''activity''" "replaces e"
      | (keep) "oget obj ''role'' \<noteq> JStr ''activity''" "\<not> replaces e" by blast
    then show ?thesis
    proof cases
      case act
      with Some p assms tracked_set_message [OF assms(1)] pub show ?thesis
        by (auto simp: snapshot_activity_def Let_def map_sum_Inr tracked_write split: if_splits)
    next
      case new
      with Some p assms(2) obtain st1 where "set_message i ?m st = Inr st1" "notify_created env ?m (Inr st1) = Inr st'"
        by (cases "set_message i ?m st") (auto simp: snapshot_activity_def Let_def notify_created_def)
      then show ?thesis using tracked_set_message [OF assms(1)] tracked_notify_created by blast
    next
      case keep
      with Some p assms(2) pub show ?thesis by (simp add: snapshot_activity_def Let_def)
    qed
  qed
qed

lemma tracked_patch_activity:
  assumes "tracked c st" and "patch_activity env e i r st = Inr st'"
  shows "tracked c st'"
proof -
  let ?st1 = "if carries_metadata e then publish (write_object r (applyEventMetadata e) st) else st"
  have t: "tracked c ?st1" using assms(1) by (simp add: tracked_write)
  from assms(2) show ?thesis
    unfolding patch_activity_def Let_def
    using t tracked_set_message [OF t] by (auto simp: map_sum_Inr split: option.splits)
qed

lemma tracked_add_missing:
  "bounded st \<Longrightarrow> bounded (add_missing ms st) \<and> app_state (add_missing ms st) = app_state st \<and>
     cur_state (add_missing ms st) = cur_state st"
  by (induction ms arbitrary: st) (auto simp: conversation_push split: option.split)

lemma tracked_run_started:
  assumes "tracked c st" and "apply_run_started env e st = Inr st'"
  shows "tracked c st'"
proof -
  from assms(2) obtain stop st1 where hook: "run_hook env (OnTyped e []) st = Inr (stop, st1)"
    by (auto simp: apply_run_started_def split: sum.splits)
  let ?st2 = "st1\<lparr>runToolCallIds := [], answeredToolCallIds := []\<rparr>"
  have t: "tracked c ?st2" using tracked_run_hook [OF assms(1) hook] by simp
  have "tracked c (publish (add_missing ms ?st2))" for ms
    using tracked_add_missing [OF tracked_bounded [OF t], of ms] tracked_state [OF t]
    by (simp add: tracked_def)
  with t assms(2) hook show ?thesis
    by (auto simp: apply_run_started_def Let_def split: if_splits js.splits)
qed

lemma tracked_encrypted: "tracked c st \<Longrightarrow> tracked c (set_encrypted_value e st)"
  by (simp add: set_encrypted_value_def Let_def tracked_write split: option.split)

lemma tracked_tool_call_args:
  assumes "tracked c st" and "apply_tool_call_args env e st = Inr st'"
  shows "tracked c st'"
proof (cases "find_tool_owner (attr e ''toolCallId'') st")
  case (Some r)
  then show ?thesis
    using assms(2) [unfolded apply_tool_call_args_def Let_def Some option.case] assms(1)
    by (elim tracked_unless_stopped [rotated]) (auto simp: tracked_write)
qed (use assms in \<open>simp add: apply_tool_call_args_def\<close>)

lemma tracked_tool_call_end:
  assumes "tracked c st" and "apply_tool_call_end env e st = Inr st'"
  shows "tracked c st'"
proof (cases "find_tool_owner (attr e ''toolCallId'') st")
  case (Some r)
  let ?f = "update_tool_call (attr e ''toolCallId'') (applyEventMetadata e)"
  from assms(2) Some obtain call stop st1 where "run_hook env call st = Inr (stop, st1)"
    and rest: "\<exists>call. notify env False call
        (if \<not> stop \<and> carries_metadata e then publish (write_object r ?f st1) else st1) = Inr st'"
    by (fastforce simp: apply_tool_call_end_def Let_def split: sum.splits prod.splits)
  with assms(1) have "tracked c st1" by (blast intro: tracked_run_hook)
  with rest show ?thesis by (blast intro: tracked_notify tracked_if_write)
qed (use assms in \<open>simp add: apply_tool_call_end_def\<close>)

lemma tracked_activity_delta:
  assumes "tracked c st" and "apply_activity_delta env e st = Inr st'"
  shows "tracked c st'"
proof (cases "find_position (attr e ''messageId'') st")
  case (Some i)
  let ?r = "message_refs st ! i"
  show ?thesis
  proof (cases "is_activity st ?r")
    case True
    then have "unless_stopped env (OnTyped e [(''activityMessage'', JObj (heap st ?r))]) st
        (\<lambda>st. patch_activity env e i ?r st) = Inr st'"
      using assms(2) Some by (simp add: apply_activity_delta_def Let_def)
    with assms(1) show ?thesis by (rule tracked_unless_stopped) (rule tracked_patch_activity)
  qed (use Some assms in \<open>simp add: apply_activity_delta_def\<close>)
qed (use assms in \<open>simp add: apply_activity_delta_def\<close>)

text \<open>The state an event sets is a value: a snapshot is present, and a patch yields a document.\<close>

definition yields_state :: "'w apply_env \<Rightarrow> event \<Rightarrow> bool" where
  "yields_state env e \<longleftrightarrow> (etype e = STATE_SNAPSHOT \<longrightarrow> attr e ''snapshot'' \<noteq> JUndef)
     \<and> (\<forall>doc. applyPatch env doc (attr e ''delta'') \<noteq> Some JUndef)"

lemma tracked_switch:
  assumes t: "tracked c st" and step: "apply_switch env e st = Inr st'" and "yields_state env e"
  shows "tracked c st'"
proof -
  have hooked: "tracked c st'" if "unless_stopped env call st body = Inr st'"
      "\<And>st. tracked c st \<Longrightarrow> body st = Inr st' \<Longrightarrow> tracked c st'" for call body
    using t that by (rule tracked_unless_stopped)
  have only: "apply_hook_only env e st = Inr st' \<Longrightarrow> tracked c st'"
    using tracked_run_hook [OF t] by (auto simp: apply_hook_only_def map_sum_Inr)
  show ?thesis
  proof (cases "etype e")
    case TEXT_MESSAGE_START
    with step show ?thesis unfolding apply_switch_eq
      by (auto simp: apply_text_message_start_def tracked_start_message elim!: hooked)
  next
    case TEXT_MESSAGE_CONTENT
    with step t show ?thesis unfolding apply_switch_eq
      by (simp add: apply_text_message_content_def tracked_message_content)
  next
    case TEXT_MESSAGE_END
    with step t show ?thesis unfolding apply_switch_eq
      by (simp add: apply_text_message_end_def tracked_message_end)
  next
    case TOOL_CALL_START
    with step show ?thesis unfolding apply_switch_eq
      by (auto simp: apply_tool_call_start_def tracked_start_tool_call elim!: hooked)
  next
    case STATE_SNAPSHOT
    with step assms(3) show ?thesis unfolding apply_switch_eq
      by (auto simp: apply_state_snapshot_def yields_state_def tracked_publish_state elim!: hooked)
  next
    case STATE_DELTA
    with step assms(3) show ?thesis unfolding apply_switch_eq
      by (auto simp: apply_state_delta_def yields_state_def elim!: hooked intro!: tracked_publish_state
          split: option.splits)
  next
    case MESSAGES_SNAPSHOT
    with step show ?thesis unfolding apply_switch_eq
      by (auto simp: apply_messages_snapshot_def tracked_merge_snapshot elim!: hooked split: js.splits)
  next
    case ACTIVITY_SNAPSHOT
    with step show ?thesis unfolding apply_switch_eq
      by (auto simp: apply_activity_snapshot_def Let_def elim!: hooked intro: tracked_snapshot_activity)
  next
    case RUN_FINISHED
    with step show ?thesis unfolding apply_switch_eq
      by (auto simp: apply_run_finished_def Let_def elim!: hooked split: js.splits if_splits)
  next
    case REASONING_MESSAGE_START
    with step show ?thesis unfolding apply_switch_eq
      by (auto simp: apply_reasoning_message_start_def tracked_start_message elim!: hooked)
  next
    case REASONING_MESSAGE_CONTENT
    with step t show ?thesis unfolding apply_switch_eq
      by (simp add: apply_reasoning_message_content_def tracked_message_content)
  next
    case REASONING_MESSAGE_END
    with step t show ?thesis unfolding apply_switch_eq
      by (simp add: apply_reasoning_message_end_def tracked_message_end)
  next
    case REASONING_ENCRYPTED_VALUE
    with step show ?thesis unfolding apply_switch_eq
      by (auto simp: apply_reasoning_encrypted_value_def tracked_encrypted elim!: hooked)
  qed (use step t only tracked_tool_call_args [OF t] tracked_tool_call_end [OF t]
      tracked_tool_call_result [OF t] tracked_activity_delta [OF t] tracked_run_started [OF t] in \<open>auto simp: apply_switch_eq\<close>)
qed


text \<open>Between two events nothing is waiting to be emitted.\<close>

definition settled :: "'w apply_state \<Rightarrow> bool" where
  "settled st \<longleftrightarrow> bounded st \<and> \<not> cur_messages st \<and> cur_state st = JUndef"

lemma settled_tracked: "settled st \<Longrightarrow> tracked (conversation st, app_state st) st"
  by (simp add: settled_def tracked_def)

lemma apply_event_mirrored:
  assumes "settled st" and "apply_event env st e = Inr (out, st')" and "yields_state env e"
  shows "settled st'" and "fold consume out (conversation st, app_state st) = (conversation st', app_state st')"
proof -
  let ?c = "(conversation st, app_state st)"
  obtain stop st1 where hook: "run_hook env (OnEvent e) st = Inr (stop, st1)"
    using assms(2) by (auto simp: apply_event_def split: sum.splits)
  have t1: "tracked ?c st1" using settled_tracked [OF assms(1)] hook by (rule tracked_run_hook)
  obtain st2 where st2: "tracked ?c st2" "emitUpdates st2 = (out, st')"
  proof (cases stop)
    case True
    with assms(2) hook t1 that show ?thesis by (simp add: apply_event_def)
  next
    case False
    with assms(2) hook obtain st2 where "apply_switch env e st1 = Inr st2" "emitUpdates st2 = (out, st')"
      by (auto simp: apply_event_def map_sum_Inr)
    with tracked_switch [OF t1 _ assms(3)] that show ?thesis by blast
  qed
  show "settled st'" and "fold consume out ?c = (conversation st', app_state st')"
    using tracked_emit [OF st2] by (simp_all add: settled_def)
qed

lemma run_mirrored:
  assumes "settled st" and "\<And>e. e \<in> set es \<Longrightarrow> yields_state env e"
  shows "settled (final_state (apply_event env) st es) \<and>
    fold consume (emitted (apply_event env) st es) (conversation st, app_state st) =
      (conversation (final_state (apply_event env) st es), app_state (final_state (apply_event env) st es))"
  using assms
proof (induction es arbitrary: st)
  case (Cons e es)
  show ?case
  proof (cases "apply_event env st e")
    case (Inr p)
    obtain out st' where p: "p = (out, st')" by (cases p)
    with Inr apply_event_mirrored [OF Cons.prems(1)] Cons.prems(2)
    have "settled st'" "fold consume out (conversation st, app_state st) = (conversation st', app_state st')"
      by auto
    with Cons.IH [of st'] Cons.prems(2) Inr p show ?thesis by simp
  qed (use Cons.prems in simp)
qed simp

lemma settled_initial: "settled (initial_apply_state msgs st0 ints w)"
  by (auto simp: settled_def initial_apply_state_def Let_def new_objects_eq bounded_def)

lemma conversation_initial [simp]: "conversation (initial_apply_state msgs st0 ints w) = msgs"
proof -
  let ?st = "\<lparr>heap = (\<lambda>_. []), next_ref = 0, message_refs = [], app_state = st0,
         cur_messages = False, cur_state = JUndef, runToolCallIds = [], answeredToolCallIds = [],
         pendingInterrupts = ints, world = w\<rparr>"
  obtain rs st where n: "new_objects msgs ?st = (rs, st)" by fastforce
  with map_heap_new_objects [OF n] show ?thesis by (simp add: initial_apply_state_def conversation_def)
qed

lemma app_state_initial [simp]: "app_state (initial_apply_state msgs st0 ints w) = st0"
  by (simp add: initial_apply_state_def Let_def new_objects_eq)

end
