(* ===== verification/AGUI_Refine.thy ===== *)
theory AGUI_Refine
  imports AGUI_Apply
begin

section \<open>The reducer refines a heap-free reference\<close>

text \<open>
  The reducer of \<^verbatim>\<open>apply/default.ts\<close> works on shared objects and lets subscribers
  run between finding a message and writing to it. This theory defines what it computes when the
  subscribers only observe, as a function on plain lists of messages (\<open>chat_step\<close>), and
  proves the reducer equal to it, event by event and for whole streams, as long as no message
  object is in the array twice. Only a message snapshot can make an object appear twice, and only
  over a conversation that already holds two messages with one identifier.
\<close>

subsection \<open>The reference reducer\<close>

text \<open>
  What the reducer computes when its subscribers only observe, with neither heap, hooks nor
  pending mutation: one function per kind of event on the list of messages.
\<close>

record chat =
  chat_messages :: "jobj list"
  chat_state :: js
  chat_started :: "js list"
  chat_answered :: "js list"
  chat_interrupts :: "js list"

definition chat_of :: "'w apply_state \<Rightarrow> chat" where
  "chat_of st =
     \<lparr>chat_messages = conversation st, chat_state = app_state st, chat_started = runToolCallIds st,
      chat_answered = answeredToolCallIds st, chat_interrupts = pendingInterrupts st\<rparr>"

definition has_id :: "js \<Rightarrow> jobj \<Rightarrow> bool" where
  "has_id i m \<longleftrightarrow> oget m ''id'' = i"

definition activity :: "jobj \<Rightarrow> bool" where
  "activity m \<longleftrightarrow> oget m ''role'' = JStr ''activity''"

definition issued :: "js \<Rightarrow> jobj \<Rightarrow> bool" where
  "issued i m \<longleftrightarrow> tool_call_in i m \<noteq> None"

definition unless_activity :: "(jobj \<Rightarrow> jobj) \<Rightarrow> jobj \<Rightarrow> jobj" where
  "unless_activity f m = (if activity m then m else f m)"

definition chat_start :: "event \<Rightarrow> jobj \<Rightarrow> jobj list \<Rightarrow> jobj list" where
  "chat_start e new ms =
     (if list_ex (has_id (attr e ''messageId'')) ms
      then update_first (has_id (attr e ''messageId'')) (unless_activity (applyEventMetadata e)) ms
      else ms @ [applyEventMetadata e new])"

definition replayed_start :: "event \<Rightarrow> jobj \<Rightarrow> jobj" where
  "replayed_start e m =
     (let i = attr e ''toolCallId'';
          renamed = (function_field ''name'' (fields_of (the (tool_call_in i m))) \<noteq> attr e ''toolCallName'')
      in if carries_metadata e \<or> renamed then update_tool_call i (restart_tool_call e renamed) m else m)"

definition chat_tool_start :: "event \<Rightarrow> jobj list \<Rightarrow> jobj list" where
  "chat_tool_start e ms =
     (let i = attr e ''toolCallId''; parent = attr e ''parentMessageId'' in
      if list_ex (issued i) ms then
        update_first (issued i) (replayed_start e) ms
      else if truthy parent \<and>
              map_option (\<lambda>m. oget m ''role'') (find (has_id parent) ms) = Some (JStr ''assistant'')
      then update_first (has_id parent) (add_tool_call e False) ms
      else let new = (if truthy parent \<and> \<not> list_ex (has_id parent) ms then parent else i) in
           ms @ [add_tool_call e (\<not> list_ex (has_id new) ms)
                   [(''id'', new), (''role'', JStr ''assistant''), (''toolCalls'', JArr [])]])"

definition chat_result :: "event \<Rightarrow> jobj list \<Rightarrow> jobj list" where
  "chat_result e ms =
     (let n = result_position (attr e ''toolCallId'') ms in take n ms @ tool_message_of e # drop n ms)"

definition chat_snapshot :: "event \<Rightarrow> jobj list \<Rightarrow> jobj list" where
  "chat_snapshot e ms =
     (let new = map (\<lambda>m. without_null_tag (fields_of m)) (elements (attr e ''messages''));
          latest = (\<lambda>i. find (has_id i) (rev new));
          kept = map (\<lambda>m. case latest (oget m ''id'') of None \<Rightarrow> m | Some n \<Rightarrow> n)
                   (filter (\<lambda>m. latest (oget m ''id'') \<noteq> None
                      \<or> is_preserved_client_only (authoritativeActivityTypes e) new m) ms)
      in kept @ filter (\<lambda>n. \<not> list_ex (has_id (oget n ''id'')) kept) new)"

definition chat_activity_snapshot :: "event \<Rightarrow> jobj list \<Rightarrow> jobj list" where
  "chat_activity_snapshot e ms =
     (let new = applyEventMetadata e (activity_message_of e) in
      if list_ex (has_id (attr e ''messageId'')) ms
      then update_first (has_id (attr e ''messageId''))
             (\<lambda>m. if activity m then applyEventMetadata e (if replaces e then replace_activity e m else m)
                  else if replaces e then new else m) ms
      else ms @ [new])"

definition patched_activity :: "(js \<Rightarrow> js \<Rightarrow> js option) \<Rightarrow> event \<Rightarrow> jobj \<Rightarrow> jobj" where
  "patched_activity patch e m =
     (let m1 = applyEventMetadata e m; content = oget m1 ''content'' in
      case patch (if nullish content then JObj [] else content)
             (if nullish (attr e ''patch'') then JArr [] else attr e ''patch'') of
        None \<Rightarrow> m1
      | Some doc \<Rightarrow> oset ''activityType'' (attr e ''activityType'') (oset ''content'' doc m1))"

definition chat_add_missing :: "jobj list \<Rightarrow> jobj list \<Rightarrow> jobj list" where
  "chat_add_missing new ms =
     fold (\<lambda>m ms. if list_ex (has_id (oget m ''id'')) ms then ms else ms @ [m]) new ms"

definition chat_encrypted :: "event \<Rightarrow> jobj list \<Rightarrow> jobj list" where
  "chat_encrypted e ms =
     (let i = attr e ''entityId''; enc = oset ''encryptedValue'' (attr e ''encryptedValue'') in
      if attr e ''subtype'' = JStr ''tool-call''
      then update_first (\<lambda>m. oget m ''role'' = JStr ''assistant'' \<and> issued i m) (update_tool_call i enc) ms
      else update_first (has_id i) (unless_activity enc) ms)"

definition chat_message_step :: "(js \<Rightarrow> js \<Rightarrow> js option) \<Rightarrow> event \<Rightarrow> jobj list \<Rightarrow> jobj list" where
  "chat_message_step patch e ms =
     (let onMessage = (\<lambda>f. update_first (has_id (attr e ''messageId'')) f ms);
          onToolCall = (\<lambda>f. update_first (issued (attr e ''toolCallId''))
                              (update_tool_call (attr e ''toolCallId'') f) ms) in
      case etype e of
        TEXT_MESSAGE_START \<Rightarrow> chat_start e (text_message_of e) ms
      | REASONING_MESSAGE_START \<Rightarrow> chat_start e (reasoning_message_of e) ms
      | TEXT_MESSAGE_CONTENT \<Rightarrow> onMessage (unless_activity (append_delta e))
      | REASONING_MESSAGE_CONTENT \<Rightarrow> onMessage (unless_activity (append_delta e))
      | TEXT_MESSAGE_END \<Rightarrow> onMessage (unless_activity (applyEventMetadata e))
      | REASONING_MESSAGE_END \<Rightarrow> onMessage (unless_activity (applyEventMetadata e))
      | TOOL_CALL_START \<Rightarrow> chat_tool_start e ms
      | TOOL_CALL_ARGS \<Rightarrow> onToolCall (append_args e)
      | TOOL_CALL_END \<Rightarrow> if carries_metadata e then onToolCall (applyEventMetadata e) else ms
      | TOOL_CALL_RESULT \<Rightarrow> chat_result e ms
      | MESSAGES_SNAPSHOT \<Rightarrow> chat_snapshot e ms
      | ACTIVITY_SNAPSHOT \<Rightarrow> chat_activity_snapshot e ms
      | ACTIVITY_DELTA \<Rightarrow> onMessage (\<lambda>m. if activity m then patched_activity patch e m else m)
      | RUN_STARTED \<Rightarrow>
          chat_add_missing (map (\<lambda>m. without_null_tag (fields_of m))
            (elements (jprop (attr e ''input'') ''messages''))) ms
      | REASONING_ENCRYPTED_VALUE \<Rightarrow> chat_encrypted e ms
      | _ \<Rightarrow> ms)"

definition chat_state_step :: "(js \<Rightarrow> js \<Rightarrow> js option) \<Rightarrow> event \<Rightarrow> js \<Rightarrow> js" where
  "chat_state_step patch e s =
     (case etype e of
        STATE_SNAPSHOT \<Rightarrow> attr e ''snapshot''
      | STATE_DELTA \<Rightarrow> (case patch s (attr e ''delta'') of None \<Rightarrow> s | Some doc \<Rightarrow> doc)
      | _ \<Rightarrow> s)"

definition chat_step :: "(js \<Rightarrow> js \<Rightarrow> js option) \<Rightarrow> event \<Rightarrow> chat \<Rightarrow> chat" where
  "chat_step patch e c =
     \<lparr>chat_messages = chat_message_step patch e (chat_messages c),
      chat_state = chat_state_step patch e (chat_state c),
      chat_started = (case etype e of
          RUN_STARTED \<Rightarrow> []
        | TOOL_CALL_START \<Rightarrow> sadd (attr e ''toolCallId'') (chat_started c)
        | _ \<Rightarrow> chat_started c),
      chat_answered = (case etype e of
          RUN_STARTED \<Rightarrow> []
        | TOOL_CALL_RESULT \<Rightarrow> sadd (attr e ''toolCallId'') (chat_answered c)
        | _ \<Rightarrow> chat_answered c),
      chat_interrupts =
        (if etype e = RUN_FINISHED then
           (if jprop (attr e ''outcome'') ''type'' = JStr ''interrupt''
            then map (\<lambda>i. JObj (without_null_tag (fields_of i))) (elements (jprop (attr e ''outcome'') ''interrupts''))
            else [])
         else chat_interrupts c)\<rparr>"

subsection \<open>Observing subscribers\<close>

definition observing :: "'w apply_env \<Rightarrow> bool" where
  "observing env \<longleftrightarrow> (\<forall>s \<in> set (subscribers env). \<forall>w call ms st. snd (s w call ms st) = NoMutation)"

definition observed :: "'w apply_env \<Rightarrow> hook_call \<Rightarrow> 'w apply_state \<Rightarrow> 'w apply_state" where
  "observed env call st =
     st\<lparr>world := fold (\<lambda>s w. fst (s w call (conversation st) (app_state st))) (subscribers env) (world st)\<rparr>"

lemma observing_run_subscribers:
  assumes "\<forall>s \<in> set ss. \<forall>w call ms st. snd (s w call ms st) = NoMutation"
  shows "run_subscribers test ss call w ms st acc = Inr (fold (\<lambda>s w. fst (s w call ms st)) ss w, acc)"
  using assms
proof (induction ss arbitrary: w)
  case (Cons s ss)
  then have "s w call ms st = (fst (s w call ms st), NoMutation)" by (metis list.set_intros(1) prod.collapse)
  with Cons show ?case by (auto split: prod.split sub_result.split)
qed simp

lemma observing_notify_all:
  assumes "\<forall>s \<in> set ss. \<forall>w call ms st. snd (s w call ms st) = NoMutation"
  shows "notify_all a ss call w ms st False = Inr (fold (\<lambda>s w. fst (s w call ms st)) ss w)"
  using assms
proof (induction ss arbitrary: w)
  case (Cons s ss)
  then have "s w call ms st = (fst (s w call ms st), NoMutation)" by (metis list.set_intros(1) prod.collapse)
  with Cons show ?case by (auto split: prod.split sub_result.split)
qed simp

lemma observing_run_hook: "observing env \<Longrightarrow> run_hook env call st = Inr (False, observed env call st)"
  unfolding run_hook_def runSubscribersWithMutation_def
  by (subst observing_run_subscribers)
    (simp_all add: observing_def observed_def no_mutation_def applyMutation_def)

lemma observing_notify: "observing env \<Longrightarrow> notify env a call st = Inr (observed env call st)"
  unfolding notify_def by (subst observing_notify_all) (simp_all add: observing_def observed_def)

lemma observed_simps [simp]:
  "heap (observed env call st) = heap st" "next_ref (observed env call st) = next_ref st"
  "message_refs (observed env call st) = message_refs st" "app_state (observed env call st) = app_state st"
  "runToolCallIds (observed env call st) = runToolCallIds st"
  "answeredToolCallIds (observed env call st) = answeredToolCallIds st"
  "pendingInterrupts (observed env call st) = pendingInterrupts st"
  "conversation (observed env call st) = conversation st"
  "unshared (observed env call st) = unshared st" "chat_of (observed env call st) = chat_of st"
  "find_message i (observed env call st) = find_message i st"
  "find_position i (observed env call st) = find_position i st"
  "find_tool_owner i (observed env call st) = find_tool_owner i st"
  "is_activity (observed env call st) r = is_activity st r"
  by (simp_all add: observed_def conversation_def unshared_def bounded_def chat_of_def
      find_message_def find_position_def find_tool_owner_def is_activity_def)

lemma observing_unless_stopped:
  "observing env \<Longrightarrow> unless_stopped env call st body = body (observed env call st)"
  by (simp add: unless_stopped_def observing_run_hook)

subsection \<open>Refinement\<close>

definition with_messages :: "jobj list \<Rightarrow> chat \<Rightarrow> chat" where
  "with_messages ms c = c\<lparr>chat_messages := ms\<rparr>"

lemma chat_of_simps [simp]:
  "chat_messages (chat_of st) = conversation st" "chat_state (chat_of st) = app_state st"
  "chat_started (chat_of st) = runToolCallIds st" "chat_answered (chat_of st) = answeredToolCallIds st"
  "chat_interrupts (chat_of st) = pendingInterrupts st"
  by (simp_all add: chat_of_def)

lemma chat_of_publish [simp]: "chat_of (publish st) = chat_of st" "unshared (publish st) = unshared st"
  by (simp_all add: chat_of_def unshared_def)

lemma unshared_write [simp]: "unshared (write_object r f st) = unshared st"
  by (simp add: unshared_def)

lemma with_messages_same [simp]: "with_messages (conversation st) (chat_of st) = chat_of st"
  by (simp add: with_messages_def chat_of_def)

lemma chat_write:
  "unshared st \<Longrightarrow> find (\<lambda>r. P (heap st r)) (message_refs st) = Some r \<Longrightarrow>
     chat_of (write_object r f st) = with_messages (update_first P f (conversation st)) (chat_of st)"
  by (simp add: conversation_write unshared_def chat_of_def with_messages_def)

lemma chat_push:
  "unshared st \<Longrightarrow> chat_of (snd (push_message obj st)) = with_messages (conversation st @ [obj]) (chat_of st)"
  by (simp add: conversation_push unshared_def chat_of_def with_messages_def)

lemma chat_push_write:
  assumes "unshared st" and "push_message obj st = (r, st1)"
  shows "chat_of (write_object r f st1) = with_messages (conversation st @ [f obj]) (chat_of st)" and "unshared st1"
    and "heap st1 r = obj"
  using assms
  by (auto simp: push_message_eq chat_of_def with_messages_def conversation_def write_object_def
      unshared_def bounded_def less_Suc_eq)

lemma find_message_eq:
  "find_message i st = find (\<lambda>r. has_id i (heap st r)) (message_refs st)"
  by (simp add: find_message_def has_id_def)

lemma find_tool_owner_eq:
  "find_tool_owner i st = find (\<lambda>r. issued i (heap st r)) (message_refs st)"
  by (simp add: find_tool_owner_def issued_def)

lemma find_ref_None:
  "find (\<lambda>r. P (heap st r)) (message_refs st) = None \<longleftrightarrow> \<not> list_ex P (conversation st)"
  by (auto simp: conversation_def find_None_iff list_ex_iff)

lemma find_ref_Some:
  "find (\<lambda>r. P (heap st r)) (message_refs st) = Some r \<Longrightarrow>
     P (heap st r) \<and> r \<in> set (message_refs st) \<and> list_ex P (conversation st) \<and>
     find P (conversation st) = Some (heap st r)"
  by (auto simp: find_Some_iff find_heap list_ex_iff conversation_def)

lemma update_first_found:
  "find P xs = Some x \<Longrightarrow> f x = g x \<Longrightarrow> update_first P f xs = update_first P g xs"
  by (induction xs) (auto split: if_splits)

lemma update_first_id: "find P xs = Some x \<Longrightarrow> f x = x \<Longrightarrow> update_first P f xs = xs"
  by (induction xs) (auto split: if_splits)

lemma update_first_no_match: "\<not> list_ex P xs \<Longrightarrow> update_first P f xs = xs"
  by (rule update_first_none) (auto simp: list_ex_iff)

lemma is_activity_eq: "is_activity st r = activity (heap st r)"
  by (simp add: is_activity_def activity_def)

text \<open>A write guarded by the role of the message that was found.\<close>

lemma chat_write_guarded:
  assumes "unshared st" and "find_message i st = Some r"
  shows "chat_of (if is_activity st r then st else write_object r f st) =
    with_messages (update_first (has_id i) (unless_activity f) (conversation st)) (chat_of st)"
proof -
  note found = find_ref_Some [OF assms(2) [unfolded find_message_eq]]
  show ?thesis
  proof (cases "is_activity st r")
    case True
    with found update_first_id [of "has_id i" "conversation st" "heap st r" "unless_activity f"]
    show ?thesis by (simp add: unless_activity_def is_activity_eq)
  next
    case False
    with found update_first_found [of "has_id i" "conversation st" "heap st r" f "unless_activity f"]
      chat_write [OF assms(1) assms(2) [unfolded find_message_eq]]
    show ?thesis by (simp add: unless_activity_def is_activity_eq)
  qed
qed

lemma applyEventMetadata_absent: "\<not> carries_metadata e \<Longrightarrow> applyEventMetadata e = (\<lambda>m. m)"
  by (rule ext) (simp add: carries_metadata_def applyEventMetadata_def)

lemma write_id: "f = (\<lambda>m. m) \<Longrightarrow> write_object r f st = st"
  by (simp add: write_object_def)

lemma chat_start_message:
  assumes "unshared st"
  shows "chat_of (start_message e obj st) = with_messages (chat_start e obj (conversation st)) (chat_of st)
    \<and> unshared (start_message e obj st)"
proof (cases "find_message (attr e ''messageId'') st")
  case None
  obtain r st1 where p: "push_message obj st = (r, st1)" by fastforce
  from None have "\<not> list_ex (has_id (attr e ''messageId'')) (conversation st)"
    by (simp add: find_message_eq find_ref_None)
  with None p chat_push_write [OF assms p] show ?thesis by (simp add: start_message_def chat_start_def)
next
  case (Some r)
  have "chat_of (start_message e obj st) =
      chat_of (if is_activity st r then st else write_object r (applyEventMetadata e) st)"
    using Some write_id [OF applyEventMetadata_absent [of e], of r st] by (simp add: start_message_def)
  moreover have "list_ex (has_id (attr e ''messageId'')) (conversation st)"
    using Some find_ref_Some by (fastforce simp: find_message_eq)
  ultimately show ?thesis
    using chat_write_guarded [OF assms Some, of "applyEventMetadata e"] Some assms
    by (simp add: chat_start_def start_message_def)
qed

lemma no_message: "find_message i st = None \<Longrightarrow> update_first (has_id i) f (conversation st) = conversation st"
  by (simp add: find_message_eq find_ref_None update_first_no_match)

lemma chat_message_content:
  assumes "observing env" and "unshared st" and "message_content b env e st = Inr st'"
  shows "chat_of st' = with_messages (update_first (has_id (attr e ''messageId''))
      (unless_activity (append_delta e)) (conversation st)) (chat_of st) \<and> unshared st'"
proof (cases "find_message (attr e ''messageId'') st")
  case None
  with assms show ?thesis by (simp add: message_content_def no_message)
next
  case (Some r)
  let ?st = "observed env (OnTyped e [(b, JStr (buffer_of (heap st r)))]) st"
  from Some assms have "st' = (if is_activity st r then st else publish (write_object r (append_delta e) ?st))"
    by (auto simp: message_content_def observing_unless_stopped)
  moreover have "chat_of (write_object r f ?st) = chat_of (write_object r f st)" for f
    by (simp add: chat_of_def write_object_def conversation_def)
  ultimately show ?thesis
    using chat_write_guarded [OF assms(2) Some, of "append_delta e"] assms(2) by (auto split: if_splits)
qed

lemma chat_message_end:
  assumes "observing env" and "unshared st" and "message_end b env e st = Inr st'"
  shows "chat_of st' = with_messages (update_first (has_id (attr e ''messageId''))
      (unless_activity (applyEventMetadata e)) (conversation st)) (chat_of st) \<and> unshared st'"
proof (cases "find_message (attr e ''messageId'') st")
  case None
  with assms show ?thesis by (simp add: message_end_def no_message)
next
  case (Some r)
  let ?st = "observed env (OnTyped e [(b, JStr (buffer_of (heap st r)))]) st"
  let ?st2 = "if carries_metadata e then publish (write_object r (applyEventMetadata e) ?st) else ?st"
  from Some assms have "st' = (if is_activity st r then st else observed env (OnNewMessage (heap ?st2 r)) ?st2)"
    by (auto simp: message_end_def observing_run_hook observing_notify Let_def)
  moreover have "chat_of (write_object r f ?st) = chat_of (write_object r f st)" for f
    by (simp add: chat_of_def write_object_def conversation_def)
  ultimately show ?thesis
    using chat_write_guarded [OF assms(2) Some, of "applyEventMetadata e"] assms(2)
      write_id [OF applyEventMetadata_absent [of e], of r st]
    by (auto split: if_splits)
qed

lemma no_tool_call: "find_tool_owner i st = None \<Longrightarrow> update_first (issued i) f (conversation st) = conversation st"
  by (simp add: find_tool_owner_eq find_ref_None update_first_no_match)

lemma chat_write_found:
  assumes "unshared st" and "find (\<lambda>r. P (heap st r)) (message_refs st) = Some r" and "f (heap st r) = g (heap st r)"
  shows "chat_of (write_object r f st) = with_messages (update_first P g (conversation st)) (chat_of st)"
  using chat_write [OF assms(1,2), of f] find_ref_Some [OF assms(2)]
    update_first_found [of P "conversation st" "heap st r" f g] assms(3) by simp

lemma chat_keep_found:
  assumes "find (\<lambda>r. P (heap st r)) (message_refs st) = Some r" and "g (heap st r) = heap st r"
  shows "chat_of st = with_messages (update_first P g (conversation st)) (chat_of st)"
  using find_ref_Some [OF assms(1)] update_first_id [of P "conversation st" "heap st r" g] assms(2) by simp

definition fresh_assistant :: "js \<Rightarrow> jobj" where
  "fresh_assistant i = [(''id'', i), (''role'', JStr ''assistant''), (''toolCalls'', JArr [])]"

lemma resolve_simps:
  "resolveOrCreateAssistantMessage parent i st =
     (case (if truthy parent then find_message parent st else None) of
        Some r \<Rightarrow> if oget (heap st r) ''role'' = JStr ''assistant'' then (r, st)
                  else push_message (fresh_assistant i) st
      | None \<Rightarrow> push_message (fresh_assistant (if truthy parent then parent else i)) st)"
  by (simp add: resolveOrCreateAssistantMessage_def fresh_assistant_def split: option.split)

lemma new_tool_call_created:
  assumes u: "unshared st" and p: "push_message (fresh_assistant new) st = (r, st1)"
  shows "chat_of (write_object r (add_tool_call e (oget (heap st1 r) ''id'' \<notin> (\<lambda>m. oget m ''id'') ` set (conversation st))) st1) =
    with_messages (conversation st @ [add_tool_call e (\<not> list_ex (has_id new) (conversation st)) (fresh_assistant new)]) (chat_of st)"
    and "unshared st1"
proof -
  have "oget (heap st1 r) ''id'' \<notin> (\<lambda>m. oget m ''id'') ` set (conversation st) \<longleftrightarrow>
      \<not> list_ex (has_id new) (conversation st)"
    by (auto simp: chat_push_write(3) [OF u p] fresh_assistant_def list_ex_iff has_id_def)
  with chat_push_write [OF u p]
  show "chat_of (write_object r (add_tool_call e (oget (heap st1 r) ''id'' \<notin> (\<lambda>m. oget m ''id'') ` set (conversation st))) st1) =
    with_messages (conversation st @ [add_tool_call e (\<not> list_ex (has_id new) (conversation st)) (fresh_assistant new)]) (chat_of st)"
    and "unshared st1" by simp_all
qed

lemma chat_start_new_tool_call:
  assumes u: "unshared st" and none: "find_tool_owner (attr e ''toolCallId'') st = None"
    and r: "resolveOrCreateAssistantMessage (attr e ''parentMessageId'') (attr e ''toolCallId'') st = (r, st1)"
  shows "chat_of (write_object r (add_tool_call e (oget (heap st1 r) ''id'' \<notin> (\<lambda>m. oget m ''id'') ` set (conversation st))) st1) =
    with_messages (chat_tool_start e (conversation st)) (chat_of st) \<and> unshared st1"
proof -
  let ?i = "attr e ''toolCallId''" and ?p = "attr e ''parentMessageId''"
  have notissued: "\<not> list_ex (issued ?i) (conversation st)"
    using none by (simp add: find_tool_owner_eq find_ref_None)
  note created = new_tool_call_created [OF u]
  show ?thesis
  proof (cases "if truthy ?p then find_message ?p st else None")
    case None
    let ?new = "if truthy ?p then ?p else ?i"
    have p: "push_message (fresh_assistant ?new) st = (r, st1)" using r None by (simp add: resolve_simps)
    have "truthy ?p \<Longrightarrow> \<not> list_ex (has_id ?p) (conversation st) \<and> find (has_id ?p) (conversation st) = None"
      using None by (auto simp: find_message_eq list_ex_iff find_None_iff conversation_def)
    then have "chat_tool_start e (conversation st) = conversation st @
        [add_tool_call e (\<not> list_ex (has_id ?new) (conversation st)) (fresh_assistant ?new)]"
      using notissued by (simp add: chat_tool_start_def Let_def fresh_assistant_def)
    with created [OF p] show ?thesis by simp
  next
    case (Some q)
    then have tp: "truthy ?p" and q: "find_message ?p st = Some q" by (auto split: if_splits)
    note found = find_ref_Some [OF q [unfolded find_message_eq]]
    show ?thesis
    proof (cases "oget (heap st q) ''role'' = JStr ''assistant''")
      case True
      with r Some have eq: "r = q" "st1 = st" by (simp_all add: resolve_simps)
      have "oget (heap st q) ''id'' \<in> (\<lambda>m. oget m ''id'') ` set (conversation st)"
        using found by (auto simp: conversation_def)
      moreover have "chat_tool_start e (conversation st) = update_first (has_id ?p) (add_tool_call e False) (conversation st)"
        using notissued tp found True by (simp add: chat_tool_start_def Let_def)
      ultimately show ?thesis using chat_write [OF u q [unfolded find_message_eq]] eq u by simp
    next
      case False
      with r Some have p: "push_message (fresh_assistant ?i) st = (r, st1)" by (simp add: resolve_simps)
      have "chat_tool_start e (conversation st) = conversation st @
          [add_tool_call e (\<not> list_ex (has_id ?i) (conversation st)) (fresh_assistant ?i)]"
        using notissued tp found False by (simp add: chat_tool_start_def Let_def fresh_assistant_def)
      with created [OF p] show ?thesis by simp
    qed
  qed
qed

definition with_started :: "js \<Rightarrow> chat \<Rightarrow> chat" where
  "with_started i c = c\<lparr>chat_started := sadd i (chat_started c)\<rparr>"

lemma chat_start_tool_call:
  assumes "unshared st"
  shows "chat_of (start_tool_call e st) =
      with_messages (chat_tool_start e (conversation st)) (with_started (attr e ''toolCallId'') (chat_of st))
    \<and> unshared (start_tool_call e st)"
proof -
  let ?i = "attr e ''toolCallId''"
  let ?st = "st\<lparr>runToolCallIds := sadd ?i (runToolCallIds st)\<rparr>"
  have u: "unshared ?st" using assms by (simp add: unshared_def bounded_def)
  have c: "chat_of ?st = with_started ?i (chat_of st)" "conversation ?st = conversation st"
    by (simp_all add: chat_of_def with_started_def conversation_def)
  show ?thesis
  proof (cases "find_tool_owner ?i ?st")
    case None
    obtain r st1 where r: "resolveOrCreateAssistantMessage (attr e ''parentMessageId'') ?i ?st = (r, st1)" by fastforce
    from chat_start_new_tool_call [OF u None r] None r c show ?thesis
      by (simp add: start_tool_call_def Let_def)
  next
    case (Some r)
    note f = Some [unfolded find_tool_owner_eq]
    have "chat_tool_start e (conversation st) = update_first (issued ?i) (replayed_start e) (conversation st)"
      using find_ref_Some [OF f] c by (simp add: chat_tool_start_def Let_def)
    moreover have "chat_of (start_tool_call e st) =
        with_messages (update_first (issued ?i) (replayed_start e) (conversation ?st)) (chat_of ?st)"
      using Some chat_keep_found [OF f, of "replayed_start e"] chat_write_found [OF u f, of _ "replayed_start e"]
      by (simp add: start_tool_call_def Let_def replayed_start_def)
    ultimately show ?thesis using c u Some by (simp add: start_tool_call_def Let_def)
  qed
qed

lemma chat_observed_write:
  "chat_of (write_object r f (observed env call st)) = chat_of (write_object r f st)"
  by (simp add: chat_of_def write_object_def conversation_def)

lemma chat_tool_call_args:
  assumes "observing env" and "unshared st" and "apply_tool_call_args env e st = Inr st'"
  shows "chat_of st' = with_messages (update_first (issued (attr e ''toolCallId''))
      (update_tool_call (attr e ''toolCallId'') (append_args e)) (conversation st)) (chat_of st) \<and> unshared st'"
proof (cases "find_tool_owner (attr e ''toolCallId'') st")
  case None
  with assms show ?thesis by (simp add: apply_tool_call_args_def no_tool_call)
next
  case (Some r)
  then show ?thesis
    using assms(2,3) chat_write [OF assms(2) Some [unfolded find_tool_owner_eq]]
    by (auto simp: apply_tool_call_args_def Let_def observing_unless_stopped [OF assms(1)] chat_observed_write)
qed

lemma chat_tool_call_end:
  assumes "observing env" and "unshared st" and "apply_tool_call_end env e st = Inr st'"
  shows "chat_of st' = with_messages (if carries_metadata e then
      update_first (issued (attr e ''toolCallId''))
        (update_tool_call (attr e ''toolCallId'') (applyEventMetadata e)) (conversation st)
      else conversation st) (chat_of st) \<and> unshared st'"
proof (cases "find_tool_owner (attr e ''toolCallId'') st")
  case None
  with assms show ?thesis by (simp add: apply_tool_call_end_def no_tool_call)
next
  case (Some r)
  then show ?thesis
    using assms(2,3) chat_write [OF assms(2) Some [unfolded find_tool_owner_eq]]
    by (auto simp: apply_tool_call_end_def Let_def observing_run_hook [OF assms(1)]
        observing_notify [OF assms(1)] chat_observed_write)
qed

definition with_answered :: "js \<Rightarrow> chat \<Rightarrow> chat" where
  "with_answered i c = c\<lparr>chat_answered := sadd i (chat_answered c)\<rparr>"

lemma chat_insert_tool_result:
  assumes "unshared st"
  shows "chat_of (insert_tool_result e st) =
      with_messages (chat_result e (conversation st)) (with_answered (attr e ''toolCallId'') (chat_of st))
    \<and> unshared (insert_tool_result e st)"
proof -
  let ?n = "result_position (attr e ''toolCallId'') (conversation st)" and ?r = "next_ref st"
  let ?h = "(heap st)(?r := tool_message_of e)"
  have old: "r \<in> set (message_refs st) \<Longrightarrow> r < ?r" for r
    using assms by (simp add: unshared_def bounded_def)
  have agree: "map ?h (message_refs st) = conversation st"
    using old by (auto simp: conversation_def)
  have mem: "r \<in> set (take ?n (message_refs st)) \<or> r \<in> set (drop ?n (message_refs st)) \<Longrightarrow> r < ?r" for r
    using old in_set_takeD in_set_dropD by fast
  have "conversation (insert_tool_result e st) = chat_result e (conversation st)"
    unfolding conversation_def [of "insert_tool_result e st"]
    by (simp add: insert_tool_result_def new_object_def Let_def chat_result_def take_map [symmetric]
        drop_map [symmetric] agree del: fun_upd_apply) (simp add: agree [symmetric] take_map drop_map)
  moreover have "unshared (insert_tool_result e st)"
  proof -
    have "distinct (take ?n (message_refs st) @ drop ?n (message_refs st))"
      using assms by (simp add: unshared_def)
    then have "distinct (take ?n (message_refs st) @ ?r # drop ?n (message_refs st))"
      using mem by (fastforce simp del: append_take_drop_id)
    with mem show ?thesis
      by (auto simp: insert_tool_result_def new_object_def Let_def unshared_def bounded_def less_Suc_eq)
  qed
  ultimately show ?thesis
    by (simp add: chat_of_def with_messages_def with_answered_def insert_tool_result_def new_object_def Let_def)
qed

lemma chat_tool_call_result:
  assumes "observing env" and "unshared st" and "apply_tool_call_result env e st = Inr st'"
  shows "chat_of st' = with_messages (chat_result e (conversation st))
      (with_answered (attr e ''toolCallId'') (chat_of st)) \<and> unshared st'"
proof -
  let ?st = "observed env (OnTyped e []) st"
  have "chat_of st' = chat_of (insert_tool_result e ?st) \<and> unshared st' = unshared (insert_tool_result e ?st)"
    using assms(3) unfolding apply_tool_call_result_def observing_unless_stopped [OF assms(1)] observing_notify [OF assms(1)]
    by auto
  with chat_insert_tool_result [of ?st e] assms(2) show ?thesis by simp
qed

lemma snapshot_map_find:
  "map_of (snapshot_map (map h rs) rs) i = find (\<lambda>r. has_id i (h r)) (rev rs)"
proof -
  have "map_of (fold (\<lambda>(m, r). AList.update (oget m ''id'') r) (map (\<lambda>r. (h r, r)) rs) []) i =
      find (\<lambda>r. has_id i (h r)) (rev rs)"
    by (induction rs rule: rev_induct) (auto simp: update_conv' has_id_def)
  moreover have "zip (map h rs) rs = map (\<lambda>r. (h r, r)) rs" by (induction rs) auto
  ultimately show ?thesis by (simp add: snapshot_map_def)
qed

lemma find_rev_conv: "find P (rev (map h xs)) = map_option h (find (\<lambda>x. P (h x)) (rev xs))"
  by (simp add: rev_map find_map_conv)

text \<open>The references after a snapshot was merged, over the references before it.\<close>

definition merged_refs :: "(nat \<Rightarrow> jobj) \<Rightarrow> (jobj \<Rightarrow> bool) \<Rightarrow> nat list \<Rightarrow> nat list \<Rightarrow> nat list" where
  "merged_refs h preserved old refs =
     (let at = (\<lambda>r. find (\<lambda>s. has_id (oget (h r) ''id'') (h s)) (rev refs));
          kept = map (\<lambda>r. case at r of None \<Rightarrow> r | Some s \<Rightarrow> s)
                   (filter (\<lambda>r. at r \<noteq> None \<or> preserved (h r)) old)
      in kept @ filter (\<lambda>s. \<not> list_ex (has_id (oget (h s) ''id'')) (map h kept)) refs)"

lemma merge_snapshot_refs:
  assumes "new_objects (map (\<lambda>m. without_null_tag (fields_of m)) raw) st = (refs, st1)"
  shows "merge_snapshot e raw st = publish (st1\<lparr>message_refs :=
    merged_refs (heap st1) (is_preserved_client_only (authoritativeActivityTypes e)
      (map (\<lambda>m. without_null_tag (fields_of m)) raw)) (message_refs st1) refs\<rparr>)"
proof -
  have lookup: "map_of (snapshot_map (map (\<lambda>m. without_null_tag (fields_of m)) raw) refs) i =
      find (\<lambda>r. has_id i (heap st1 r)) (rev refs)" for i
    using snapshot_map_find [of "heap st1" refs i] map_heap_new_objects [OF assms] by simp
  have ex: "list_ex (has_id i) (map (heap st1) kept) \<longleftrightarrow> i \<in> (\<lambda>r. oget (heap st1 r) ''id'') ` set kept" for i kept
    by (auto simp: list_ex_iff has_id_def)
  show ?thesis by (simp add: merge_snapshot_def assms merged_refs_def lookup ex Let_def)
qed

lemma map_merged_refs:
  assumes "map h refs = new"
  shows "map h (merged_refs h preserved old refs) =
    (let latest = (\<lambda>i. find (has_id i) (rev new));
         kept = map (\<lambda>m. case latest (oget m ''id'') of None \<Rightarrow> m | Some n \<Rightarrow> n)
                  (filter (\<lambda>m. latest (oget m ''id'') \<noteq> None \<or> preserved m) (map h old))
     in kept @ filter (\<lambda>n. \<not> list_ex (has_id (oget n ''id'')) kept) new)"
proof -
  let ?at = "\<lambda>r. find (\<lambda>s. has_id (oget (h r) ''id'') (h s)) (rev refs)"
  let ?kept = "map (\<lambda>r. case ?at r of None \<Rightarrow> r | Some s \<Rightarrow> s) (filter (\<lambda>r. ?at r \<noteq> None \<or> preserved (h r)) old)"
  have latest: "find (has_id i) (rev new) = map_option h (find (\<lambda>s. has_id i (h s)) (rev refs))" for i
    using assms find_rev_conv [of "has_id i" h refs] by simp
  have kept: "map h ?kept = map (\<lambda>m. case find (has_id (oget m ''id'')) (rev new) of None \<Rightarrow> m | Some n \<Rightarrow> n)
      (filter (\<lambda>m. find (has_id (oget m ''id'')) (rev new) \<noteq> None \<or> preserved m) (map h old))"
    by (simp add: latest filter_map comp_def split: option.split)
  have rest: "map h (filter (\<lambda>s. Q (h s)) refs) = filter Q new" for Q
    using assms by (auto simp: filter_map comp_def)
  show ?thesis
    unfolding merged_refs_def Let_def map_append kept
      rest [of "\<lambda>m. \<not> list_ex (has_id (oget m ''id''))
        (map (\<lambda>m. case find (has_id (oget m ''id'')) (rev new) of None \<Rightarrow> m | Some n \<Rightarrow> n)
          (filter (\<lambda>m. find (has_id (oget m ''id'')) (rev new) \<noteq> None \<or> preserved m) (map h old)))"] ..
qed

lemma find_ref_Some_set: "find P xs = Some x \<Longrightarrow> P x \<and> x \<in> set xs"
  by (auto simp: find_Some_iff)

lemma distinct_merged_refs:
  assumes "distinct old" and "distinct refs" and "\<And>r. r \<in> set old \<Longrightarrow> r < n" and "\<And>s. s \<in> set refs \<Longrightarrow> n \<le> s"
    and ids: "distinct (map (\<lambda>r. oget (h r) ''id'') old)"
  shows "distinct (merged_refs h preserved old refs)" and "set (merged_refs h preserved old refs) \<subseteq> set old \<union> set refs"
proof -
  let ?at = "\<lambda>r. find (\<lambda>s. has_id (oget (h r) ''id'') (h s)) (rev refs)"
  let ?f = "\<lambda>r. case ?at r of None \<Rightarrow> r | Some s \<Rightarrow> s"
  let ?old = "filter (\<lambda>r. ?at r \<noteq> None \<or> preserved (h r)) old"
  have at: "?at r = Some s \<Longrightarrow> s \<in> set refs \<and> oget (h s) ''id'' = oget (h r) ''id''" for r s
    using find_ref_Some_set [of "\<lambda>s. has_id (oget (h r) ''id'') (h s)" "rev refs" s] by (simp add: has_id_def)
  have fid: "oget (h (?f r)) ''id'' = oget (h r) ''id''" for r
    using at [of r] by (cases "?at r") simp_all
  have inj: "inj_on ?f (set ?old)"
  proof (rule inj_onI)
    fix r r' assume mem: "r \<in> set ?old" "r' \<in> set ?old" and eq: "?f r = ?f r'"
    have "oget (h r) ''id'' = oget (h r') ''id''" using fid [of r] fid [of r'] unfolding eq by simp
    moreover have "r \<in> set old" "r' \<in> set old" using mem by simp_all
    ultimately show "r = r'" using ids by (auto simp: distinct_map inj_on_def)
  qed
  have own: "s \<in> set (map ?f ?old) \<Longrightarrow> list_ex (has_id (oget (h s) ''id'')) (map h (map ?f ?old))" for s
    by (auto simp: list_ex_iff has_id_def)
  show "distinct (merged_refs h preserved old refs)"
    unfolding merged_refs_def Let_def using assms(1,2) inj own by (auto simp: distinct_map)
  show "set (merged_refs h preserved old refs) \<subseteq> set old \<union> set refs"
    unfolding merged_refs_def Let_def using at by (auto split: option.splits)
qed

lemma chat_merge_snapshot:
  assumes "unshared st" and "attr e ''messages'' = JArr raw"
    and "distinct (map (\<lambda>m. oget m ''id'') (conversation st))"
  shows "chat_of (merge_snapshot e raw st) = with_messages (chat_snapshot e (conversation st)) (chat_of st)
    \<and> unshared (merge_snapshot e raw st)"
proof -
  let ?new = "map (\<lambda>m. without_null_tag (fields_of m)) raw"
  obtain refs st1 where n: "new_objects ?new st = (refs, st1)" by fastforce
  let ?preserved = "is_preserved_client_only (authoritativeActivityTypes e) ?new"
  note props = new_objects_refs [OF n] and refs = map_heap_new_objects [OF n]
  have bnd: "r \<in> set (message_refs st) \<Longrightarrow> r < next_ref st" for r
    using assms(1) by (simp add: unshared_def bounded_def)
  then have old: "map (heap st1) (message_refs st1) = conversation st"
    using props new_objects_old [OF n] by (auto simp: conversation_def)
  have ids: "distinct (map (\<lambda>r. oget (heap st1 r) ''id'') (message_refs st1))"
    using assms(3) unfolding old [symmetric] by (simp add: comp_def)
  have d: "distinct (merged_refs (heap st1) ?preserved (message_refs st1) refs)"
    and s: "set (merged_refs (heap st1) ?preserved (message_refs st1) refs) \<subseteq> set (message_refs st1) \<union> set refs"
    using assms(1) props bnd
    by (intro distinct_merged_refs [of "message_refs st1" refs "next_ref st"] ids; auto simp: unshared_def)+
  have fields: "app_state st1 = app_state st" "runToolCallIds st1 = runToolCallIds st"
    "answeredToolCallIds st1 = answeredToolCallIds st" "pendingInterrupts st1 = pendingInterrupts st"
    using n by (auto simp: new_objects_eq)
  have "conversation (merge_snapshot e raw st) = chat_snapshot e (conversation st)"
    unfolding merge_snapshot_refs [OF n] conversation_publish conversation_def [of "_ \<lparr>message_refs := _\<rparr>"]
    using map_merged_refs [OF refs, of ?preserved "message_refs st1"] old
    by (simp add: chat_snapshot_def assms(2) Let_def)
  moreover have "unshared (merge_snapshot e raw st)"
    unfolding merge_snapshot_refs [OF n]
    using d s props bnd by (fastforce simp: unshared_def bounded_def)
  ultimately show ?thesis
    using fields by (simp add: chat_of_def with_messages_def merge_snapshot_refs [OF n])
qed

lemma find_position_Some:
  assumes "find_position i st = Some n"
  shows "n < length (message_refs st)"
    and "find (\<lambda>r. has_id i (heap st r)) (message_refs st) = Some (message_refs st ! n)"
    and "(message_refs st)[n := r] = update_first (\<lambda>r. has_id i (heap st r)) (\<lambda>_. r) (message_refs st)"
  using find_index_Some [OF assms [unfolded find_position_def]] by (simp_all add: has_id_def)

lemma find_position_None: "find_position i st = None \<longleftrightarrow> \<not> list_ex (has_id i) (conversation st)"
  using find_ref_None [of "has_id i" st] by (simp add: find_position_def find_index_None has_id_def)

lemma set_update_first: "set (update_first P (\<lambda>_. y) xs) \<subseteq> insert y (set xs)"
  by (induction xs) auto

lemma distinct_update_first: "distinct xs \<Longrightarrow> y \<notin> set xs \<Longrightarrow> distinct (update_first P (\<lambda>_. y) xs)"
proof (induction xs)
  case (Cons x xs)
  then show ?case using set_update_first [of P y xs] by auto
qed simp

lemma map_update_first:
  assumes "\<And>x. x \<in> set xs \<Longrightarrow> h' x = h x" and "h' y = z"
  shows "map h' (update_first (\<lambda>x. P (h x)) (\<lambda>_. y) xs) = update_first P (\<lambda>_. z) (map h xs)"
  using assms by (induction xs) auto

lemma chat_set_message:
  assumes "unshared st" and "find_position i st = Some n" and "set_message n obj st = Inr st'"
  shows "chat_of st' = with_messages (update_first (has_id i) (\<lambda>_. obj) (conversation st)) (chat_of st) \<and> unshared st'"
proof -
  note pos = find_position_Some [OF assms(2)]
  let ?r = "next_ref st" and ?h = "(heap st)(next_ref st := obj)"
  let ?refs = "update_first (\<lambda>r. has_id i (heap st r)) (\<lambda>_. ?r) (message_refs st)"
  have st': "st' = st\<lparr>heap := ?h, next_ref := Suc ?r, message_refs := ?refs\<rparr>"
    using assms(3) pos(1,3) by (simp add: set_message_def new_object_def)
  have old: "r \<in> set (message_refs st) \<Longrightarrow> r < ?r" for r
    using assms(1) by (simp add: unshared_def bounded_def)
  have "map ?h ?refs = update_first (has_id i) (\<lambda>_. obj) (map (heap st) (message_refs st))"
    by (rule map_update_first) (use old in auto)
  moreover have "distinct ?refs"
    using assms(1) old by (intro distinct_update_first) (auto simp: unshared_def)
  moreover have "r \<in> set ?refs \<Longrightarrow> r < Suc ?r" for r
    using set_update_first [of _ ?r "message_refs st"] old by (fastforce simp: less_Suc_eq)
  ultimately show ?thesis
    by (simp add: st' chat_of_def with_messages_def conversation_def unshared_def bounded_def)
qed

lemma set_message_found:
  "find_position i st = Some n \<Longrightarrow> \<exists>st'. set_message n obj st = Inr st'"
  using find_position_Some(1) by (fastforce simp: set_message_def new_object_def)

text \<open>Replacing the found message by a function of it.\<close>

lemma chat_set_found:
  assumes "unshared st" and "find_position i st = Some n"
    and "obj = f (heap st (message_refs st ! n))" and "set_message n obj st = Inr st'"
  shows "chat_of st' = with_messages (update_first (has_id i) f (conversation st)) (chat_of st) \<and> unshared st'"
proof -
  have "update_first (has_id i) (\<lambda>_. obj) (conversation st) = update_first (has_id i) f (conversation st)"
    using find_ref_Some [OF find_position_Some(2) [OF assms(2)]] assms(3)
    by (intro update_first_found [of _ _ "heap st (message_refs st ! n)"]) auto
  with chat_set_message [OF assms(1,2,4)] show ?thesis by simp
qed

definition snapshot_of_activity :: "event \<Rightarrow> jobj \<Rightarrow> jobj" where
  "snapshot_of_activity e m =
     (if activity m then applyEventMetadata e (if replaces e then replace_activity e m else m)
      else if replaces e then applyEventMetadata e (activity_message_of e) else m)"

lemma chat_activity_snapshot_eq:
  "chat_activity_snapshot e ms =
     (if list_ex (has_id (attr e ''messageId'')) ms
      then update_first (has_id (attr e ''messageId'')) (snapshot_of_activity e) ms
      else ms @ [applyEventMetadata e (activity_message_of e)])"
proof -
  have "(\<lambda>m. if activity m then applyEventMetadata e (if replaces e then replace_activity e m else m)
      else if replaces e then applyEventMetadata e (activity_message_of e) else m) = snapshot_of_activity e"
    by (rule ext) (simp add: snapshot_of_activity_def)
  then show ?thesis by (simp add: chat_activity_snapshot_def Let_def)
qed

lemma chat_apply_activity_snapshot:
  assumes obs: "observing env" and u: "unshared st" and step: "apply_activity_snapshot env e st = Inr st'"
  shows "chat_of st' = with_messages (chat_activity_snapshot e (conversation st)) (chat_of st) \<and> unshared st'"
proof (cases "find_position (attr e ''messageId'') st")
  case None
  then have "\<not> list_ex (has_id (attr e ''messageId'')) (conversation st)" by (simp add: find_position_None)
  with None step u show ?thesis
    by (auto simp: apply_activity_snapshot_def Let_def observing_unless_stopped [OF obs] snapshot_activity_def
        notify_created_def observing_notify [OF obs] chat_activity_snapshot_eq chat_push unshared_push)
next
  case (Some n)
  let ?m = "heap st (message_refs st ! n)" and ?i = "attr e ''messageId''"
  obtain call where call: "snapshot_activity env e (Some (n, ?m)) (observed env call st) = Inr st'"
    using step Some by (auto simp: apply_activity_snapshot_def Let_def observing_unless_stopped [OF obs])
  let ?st = "observed env call st"
  have pos: "find_position ?i ?st = Some n" "unshared ?st" using Some u by simp_all
  have spec: "chat_activity_snapshot e (conversation st) = update_first (has_id ?i) (snapshot_of_activity e) (conversation st)"
    using Some find_position_None [of ?i st] by (auto simp: chat_activity_snapshot_eq)
  have act: "oget ?m ''role'' = JStr ''activity'' \<longleftrightarrow> activity ?m" by (simp add: activity_def)
  note found = chat_set_found [OF pos(2,1), of _ "snapshot_of_activity e"]
  consider (replace) "activity ?m" "replaces e" | (merge) "activity ?m" "\<not> replaces e"
    | (new) "\<not> activity ?m" "replaces e" | (keep) "\<not> activity ?m" "\<not> replaces e" by blast
  then show ?thesis
  proof cases
    case replace
    then obtain st1 where "set_message n (applyEventMetadata e (replace_activity e ?m)) ?st = Inr st1" "st' = publish st1"
      using call act by (auto simp: snapshot_activity_def Let_def map_sum_Inr)
    then show ?thesis using found [of _ st1] replace spec by (simp add: snapshot_of_activity_def)
  next
    case merge
    then have "st' = publish (write_object (message_refs st ! n) (applyEventMetadata e) ?st)"
      using call act find_position_Some(1) [OF Some] by (simp add: snapshot_activity_def Let_def)
    moreover have "chat_of (write_object (message_refs st ! n) (applyEventMetadata e) st) =
        with_messages (update_first (has_id ?i) (snapshot_of_activity e) (conversation st)) (chat_of st)"
      by (rule chat_write_found [OF u find_position_Some(2) [OF Some]]) (simp add: snapshot_of_activity_def merge)
    ultimately show ?thesis using spec u by (simp add: chat_observed_write)
  next
    case new
    then obtain st1 where "set_message n (applyEventMetadata e (activity_message_of e)) ?st = Inr st1"
      using set_message_found [OF pos(1)] by blast
    moreover have "st' = observed env (OnNewMessage (applyEventMetadata e (activity_message_of e))) (publish st1)"
      using call act new calculation
      by (simp add: snapshot_activity_def Let_def notify_created_def observing_notify [OF obs])
    ultimately show ?thesis using found [of _ st1] new spec by (simp add: snapshot_of_activity_def)
  next
    case keep
    with call act spec u chat_keep_found [OF find_position_Some(2) [OF Some], of "snapshot_of_activity e"]
    show ?thesis by (auto simp: snapshot_activity_def Let_def snapshot_of_activity_def)
  qed
qed

definition patched :: "'w apply_env \<Rightarrow> event \<Rightarrow> jobj \<Rightarrow> jobj" where
  "patched env e m = (if activity m then patched_activity (applyPatch env) e m else m)"

lemma chat_patch_activity:
  assumes u: "unshared st" and pos: "find_position (attr e ''messageId'') st = Some n"
    and act: "activity (heap st (message_refs st ! n))"
    and step: "patch_activity env e n (message_refs st ! n) st = Inr st'"
  shows "chat_of st' = with_messages (update_first (has_id (attr e ''messageId'')) (patched env e) (conversation st))
      (chat_of st) \<and> unshared st'"
proof -
  let ?r = "message_refs st ! n" and ?i = "attr e ''messageId''"
  let ?st1 = "if carries_metadata e then publish (write_object ?r (applyEventMetadata e) st) else st"
  have st1: "?st1 = st \<or> ?st1 = publish (write_object ?r (applyEventMetadata e) st)" by simp
  have heap1: "heap ?st1 ?r = applyEventMetadata e (heap st ?r)"
    by (simp add: write_object_def applyEventMetadata_absent)
  have other: "s \<noteq> ?r \<Longrightarrow> heap ?st1 s = heap st s" for s by (simp add: write_object_def)
  have u1: "unshared ?st1" and refs1: "message_refs ?st1 = message_refs st" using u by simp_all
  note f = find_position_Some(2) [OF pos]
  have chat1: "chat_of ?st1 = with_messages (update_first (has_id ?i) (applyEventMetadata e) (conversation st)) (chat_of st)"
    using chat_write [OF u f] chat_keep_found [OF f, of "applyEventMetadata e"]
    by (cases "carries_metadata e") (simp_all add: applyEventMetadata_absent)
  have "find_position ?i ?st1 = find_position ?i st"
    unfolding find_position_def refs1
    by (rule arg_cong2 [of _ _ _ _ find_index])
      (auto intro!: ext simp: write_object_def applyEventMetadata_def)
  with pos have pos1: "find_position ?i ?st1 = Some n" by simp
  let ?content = "oget (heap ?st1 ?r) ''content''"
  let ?patch = "applyPatch env (if nullish ?content then JObj [] else ?content)
      (if nullish (attr e ''patch'') then JArr [] else attr e ''patch'')"
  show ?thesis
  proof (cases ?patch)
    case None
    with step have "st' = ?st1" by (simp add: patch_activity_def Let_def)
    moreover have "update_first (has_id ?i) (applyEventMetadata e) (conversation st) =
        update_first (has_id ?i) (patched env e) (conversation st)"
      using find_ref_Some [OF f] None heap1
      by (intro update_first_found [of _ _ "heap st ?r"]) (auto simp: patched_def act patched_activity_def Let_def)
    ultimately show ?thesis using chat1 u1 by simp
  next
    case (Some doc)
    let ?obj = "oset ''activityType'' (attr e ''activityType'') (oset ''content'' doc (heap ?st1 ?r))"
    from step Some obtain st2 where st2: "set_message n ?obj ?st1 = Inr st2" "st' = publish st2"
      by (auto simp: patch_activity_def Let_def map_sum_Inr)
    have collapse: "(\<And>m. has_id ?i m \<Longrightarrow> has_id ?i (g m)) \<Longrightarrow>
        update_first (has_id ?i) (\<lambda>_. x) (update_first (has_id ?i) g ms) = update_first (has_id ?i) (\<lambda>_. x) ms"
      for g x ms by (induction ms) auto
    have "update_first (has_id ?i) (\<lambda>_. ?obj) (conversation ?st1) =
        update_first (has_id ?i) (\<lambda>_. ?obj) (conversation st)"
      using arg_cong [OF chat1, of chat_messages] collapse [of "applyEventMetadata e" ?obj "conversation st"]
      by (simp add: with_messages_def has_id_def applyEventMetadata_def)
    also have "\<dots> = update_first (has_id ?i) (patched env e) (conversation st)"
      using find_ref_Some [OF f] Some heap1
      by (intro update_first_found [of _ _ "heap st ?r"]) (auto simp: patched_def act patched_activity_def Let_def)
    finally show ?thesis
      using chat_set_message [OF u1 pos1 st2(1)] chat1 st2(2) by (simp add: with_messages_def)
  qed
qed

lemma chat_apply_activity_delta:
  assumes "observing env" and "unshared st" and "apply_activity_delta env e st = Inr st'"
  shows "chat_of st' = with_messages (update_first (has_id (attr e ''messageId'')) (patched env e) (conversation st))
      (chat_of st) \<and> unshared st'"
proof (cases "find_position (attr e ''messageId'') st")
  case None
  then have "\<not> list_ex (has_id (attr e ''messageId'')) (conversation st)" by (simp add: find_position_None)
  with None assms show ?thesis by (simp add: apply_activity_delta_def update_first_no_match)
next
  case (Some n)
  let ?m = "heap st (message_refs st ! n)"
  show ?thesis
  proof (cases "activity ?m")
    case True
    obtain call where "patch_activity env e n (message_refs st ! n) (observed env call st) = Inr st'"
      using assms(3) Some True by (auto simp: apply_activity_delta_def Let_def is_activity_eq observing_unless_stopped [OF assms(1)])
    with chat_patch_activity [of "observed env call st" e n env st'] Some True assms(2) show ?thesis by simp
  next
    case False
    with Some assms chat_keep_found [OF find_position_Some(2) [OF Some], of "patched env e"] show ?thesis
      by (simp add: apply_activity_delta_def is_activity_eq patched_def)
  qed
qed

lemma chat_add_missing_eq:
  "unshared st \<Longrightarrow> chat_of (add_missing ms st) = with_messages (chat_add_missing ms (conversation st)) (chat_of st)
     \<and> unshared (add_missing ms st)"
proof (induction ms arbitrary: st)
  case (Cons m ms)
  let ?st = "case find_message (oget m ''id'') st of Some _ \<Rightarrow> st | None \<Rightarrow> snd (push_message m st)"
  have u: "unshared ?st" using Cons.prems by (simp add: unshared_push split: option.split)
  have c: "chat_of ?st = with_messages
      (if list_ex (has_id (oget m ''id'')) (conversation st) then conversation st else conversation st @ [m]) (chat_of st)"
    using Cons.prems find_ref_None [of "has_id (oget m ''id'')" st]
    by (auto simp: chat_push find_message_eq split: option.split)
  from arg_cong [OF c, of chat_messages] have "conversation ?st =
      (if list_ex (has_id (oget m ''id'')) (conversation st) then conversation st else conversation st @ [m])"
    by (simp add: with_messages_def)
  with Cons.IH [OF u] c u show ?case by (auto simp: chat_add_missing_def with_messages_def)
qed (simp add: chat_add_missing_def)

lemma chat_encrypted_eq:
  assumes "unshared st"
  shows "chat_of (set_encrypted_value e st) = with_messages (chat_encrypted e (conversation st)) (chat_of st)
    \<and> unshared (set_encrypted_value e st)"
proof (cases "attr e ''subtype'' = JStr ''tool-call''")
  case True
  let ?P = "\<lambda>m. oget m ''role'' = JStr ''assistant'' \<and> issued (attr e ''entityId'') m"
  show ?thesis
  proof (cases "find (\<lambda>r. ?P (heap st r)) (message_refs st)")
    case None
    with True assms find_ref_None [of ?P st] show ?thesis
      by (simp add: set_encrypted_value_def chat_encrypted_def issued_def update_first_no_match Let_def)
  next
    case (Some r)
    with True assms chat_write [OF assms Some] show ?thesis
      by (simp add: set_encrypted_value_def chat_encrypted_def issued_def Let_def)
  qed
next
  case False
  show ?thesis
  proof (cases "find_message (attr e ''entityId'') st")
    case None
    with False assms show ?thesis by (simp add: set_encrypted_value_def chat_encrypted_def no_message Let_def)
  next
    case (Some r)
    with False assms chat_write_guarded [OF assms Some, of "oset ''encryptedValue'' (attr e ''encryptedValue'')"]
    show ?thesis by (simp add: set_encrypted_value_def chat_encrypted_def Let_def split: if_splits)
  qed
qed

definition mergeable :: "event \<Rightarrow> 'w apply_state \<Rightarrow> bool" where
  "mergeable e st \<longleftrightarrow>
     (etype e = MESSAGES_SNAPSHOT \<longrightarrow> distinct (map (\<lambda>m. oget m ''id'') (conversation st)))"

lemma with_messages_simps [simp]:
  "chat_messages (with_messages ms c) = ms" "chat_state (with_messages ms c) = chat_state c"
  "chat_started (with_messages ms c) = chat_started c" "chat_answered (with_messages ms c) = chat_answered c"
  "chat_interrupts (with_messages ms c) = chat_interrupts c"
  by (simp_all add: with_messages_def)

lemma chat_eqI:
  "chat_messages c = chat_messages d \<Longrightarrow> chat_state c = chat_state d \<Longrightarrow> chat_started c = chat_started d \<Longrightarrow>
   chat_answered c = chat_answered d \<Longrightarrow> chat_interrupts c = chat_interrupts d \<Longrightarrow> c = (d :: chat)"
  by simp

lemma chat_run_started:
  assumes obs: "observing env" and u: "unshared st" and step: "apply_run_started env e st = Inr st'"
  shows "chat_of st' = \<lparr>chat_messages = chat_add_missing (map (\<lambda>m. without_null_tag (fields_of m))
            (elements (jprop (attr e ''input'') ''messages''))) (conversation st), chat_state = app_state st,
          chat_started = [], chat_answered = [], chat_interrupts = pendingInterrupts st\<rparr> \<and> unshared st'"
proof -
  let ?st = "(observed env (OnTyped e []) st)\<lparr>runToolCallIds := [], answeredToolCallIds := []\<rparr>"
  let ?ms = "jprop (attr e ''input'') ''messages''"
  have u': "unshared ?st" using u by (simp add: unshared_def bounded_def)
  have c: "conversation ?st = conversation st" "chat_of ?st = (chat_of st)\<lparr>chat_started := [], chat_answered := []\<rparr>"
    by (simp_all add: conversation_def chat_of_def)
  from step have "(if \<not> truthy ?ms then Inr ?st else (case ?ms of
      JArr ms \<Rightarrow> Inr (publish (add_missing (map (\<lambda>m. without_null_tag (fields_of m)) ms) ?st))
    | _ \<Rightarrow> Inl (NotIterable RUN_STARTED))) = Inr st'"
    by (simp add: apply_run_started_def observing_run_hook [OF obs] Let_def)
  then consider "st' = ?st" "elements ?ms = []"
    | ms where "?ms = JArr ms" "st' = publish (add_missing (map (\<lambda>m. without_null_tag (fields_of m)) ms) ?st)"
    by (cases ?ms) (auto split: if_splits)
  then show ?thesis
  proof cases
    case 1
    with u' c show ?thesis by (simp add: chat_add_missing_def chat_of_def)
  next
    case 2
    with chat_add_missing_eq [OF u', of "map (\<lambda>m. without_null_tag (fields_of m)) ms"] c show ?thesis
      by (simp add: chat_of_def with_messages_def)
  qed
qed

lemma chat_run_finished:
  assumes obs: "observing env" and u: "unshared st" and step: "apply_run_finished env e st = Inr st'"
  shows "chat_of st' = (chat_of st)\<lparr>chat_interrupts :=
      (if jprop (attr e ''outcome'') ''type'' = JStr ''interrupt''
       then map (\<lambda>i. JObj (without_null_tag (fields_of i))) (elements (jprop (attr e ''outcome'') ''interrupts''))
       else [])\<rparr> \<and> unshared st'"
proof -
  let ?st = "observed env (OnTyped e (finished_params e st)) st" and ?o = "attr e ''outcome''"
  have up: "chat_of (?st\<lparr>pendingInterrupts := is\<rparr>) = (chat_of st)\<lparr>chat_interrupts := is\<rparr>"
    "unshared (?st\<lparr>pendingInterrupts := is\<rparr>)" for "is"
    using u by (simp_all add: chat_of_def conversation_def unshared_def bounded_def)
  have outcome: "oget (finished_params e st) ''outcome'' = JStr ''interrupt'' \<longleftrightarrow> jprop ?o ''type'' = JStr ''interrupt''"
    by (simp add: finished_params_def Let_def)
  have ints: "jprop ?o ''type'' = JStr ''interrupt'' \<Longrightarrow> oget (finished_params e st) ''interrupts'' = jprop ?o ''interrupts''"
    by (simp add: finished_params_def Let_def)
  show ?thesis
  proof (cases "jprop ?o ''type'' = JStr ''interrupt''")
    case True
    with step outcome ints obtain xs where "jprop ?o ''interrupts'' = JArr xs"
      "st' = ?st\<lparr>pendingInterrupts := map (\<lambda>i. JObj (without_null_tag (fields_of i))) xs\<rparr>"
      by (cases "jprop ?o ''interrupts''") (auto simp: apply_run_finished_def Let_def observing_unless_stopped [OF obs])
    with True up show ?thesis by simp
  next
    case False
    with step outcome up show ?thesis
      by (auto simp: apply_run_finished_def Let_def observing_unless_stopped [OF obs])
  qed
qed

lemma chat_state_update:
  "unshared st \<Longrightarrow> chat_of (publish_state (st\<lparr>app_state := v\<rparr>)) = (chat_of st)\<lparr>chat_state := v\<rparr> \<and>
     unshared (publish_state (st\<lparr>app_state := v\<rparr>))"
  by (simp add: publish_state_def chat_of_def conversation_def unshared_def bounded_def)

lemma chat_hook_only:
  "observing env \<Longrightarrow> apply_hook_only env e st = Inr (observed env (OnTyped e []) st)"
  by (simp add: apply_hook_only_def observing_run_hook)

lemmas chat_step_simps = chat_step_def chat_message_step_def chat_state_step_def

lemma patched_eq: "patched env e = (\<lambda>m. if activity m then patched_activity (applyPatch env) e m else m)"
  by (rule ext) (simp add: patched_def)

lemma switch_refines:
  assumes obs: "observing env" and u: "unshared st" and m: "mergeable e st"
    and step: "apply_switch env e st = Inr st'"
  shows "chat_of st' = chat_step (applyPatch env) e (chat_of st) \<and> unshared st'"
proof -
  note hook = observing_unless_stopped [OF obs]
  have u': "unshared (observed env call st)" for call using u by simp
  have contents: "\<And>b. message_content b env e st = Inr st' \<Longrightarrow> etype e \<in> {TEXT_MESSAGE_CONTENT, REASONING_MESSAGE_CONTENT} \<Longrightarrow> ?thesis"
    using chat_message_content [OF obs u] by (fastforce intro!: chat_eqI simp: chat_step_simps Let_def)
  have ends: "\<And>b. message_end b env e st = Inr st' \<Longrightarrow> etype e \<in> {TEXT_MESSAGE_END, REASONING_MESSAGE_END} \<Longrightarrow> ?thesis"
    using chat_message_end [OF obs u] by (fastforce intro!: chat_eqI simp: chat_step_simps Let_def)
  have only: "apply_switch env e st = apply_hook_only env e st \<Longrightarrow>
      chat_step (applyPatch env) e (chat_of st) = chat_of st \<Longrightarrow> ?thesis"
    using step u by (auto simp: chat_hook_only [OF obs])
  show ?thesis
  proof (cases "etype e")
    case TEXT_MESSAGE_START
    with step chat_start_message [OF u'] show ?thesis
      by (auto intro!: chat_eqI simp: apply_switch_eq apply_text_message_start_def hook chat_step_simps)
  next
    case REASONING_MESSAGE_START
    with step chat_start_message [OF u'] show ?thesis
      by (auto intro!: chat_eqI simp: apply_switch_eq apply_reasoning_message_start_def hook chat_step_simps)
  next
    case TEXT_MESSAGE_CONTENT
    with step contents show ?thesis by (simp add: apply_switch_eq apply_text_message_content_def)
  next
    case REASONING_MESSAGE_CONTENT
    with step contents show ?thesis by (simp add: apply_switch_eq apply_reasoning_message_content_def)
  next
    case TEXT_MESSAGE_END
    with step ends show ?thesis by (simp add: apply_switch_eq apply_text_message_end_def)
  next
    case REASONING_MESSAGE_END
    with step ends show ?thesis by (simp add: apply_switch_eq apply_reasoning_message_end_def)
  next
    case TOOL_CALL_START
    with step chat_start_tool_call [OF u'] show ?thesis
      by (auto intro!: chat_eqI simp: apply_switch_eq apply_tool_call_start_def hook chat_step_simps with_started_def)
  next
    case TOOL_CALL_ARGS
    with step chat_tool_call_args [OF obs u] show ?thesis
      by (auto intro!: chat_eqI simp: apply_switch_eq chat_step_simps)
  next
    case TOOL_CALL_END
    with step chat_tool_call_end [OF obs u] show ?thesis
      by (auto intro!: chat_eqI simp: apply_switch_eq chat_step_simps)
  next
    case TOOL_CALL_RESULT
    with step chat_tool_call_result [OF obs u] show ?thesis
      by (auto intro!: chat_eqI simp: apply_switch_eq chat_step_simps with_answered_def)
  next
    case STATE_SNAPSHOT
    with step chat_state_update [OF u'] show ?thesis
      by (auto intro!: chat_eqI simp: apply_switch_eq apply_state_snapshot_def hook chat_step_simps)
  next
    case STATE_DELTA
    with step chat_state_update [OF u'] u' show ?thesis
      by (auto intro!: chat_eqI simp: apply_switch_eq apply_state_delta_def hook chat_step_simps split: option.splits)
  next
    case MESSAGES_SNAPSHOT
    with step obtain raw where raw: "attr e ''messages'' = JArr raw"
      "st' = merge_snapshot e raw (observed env (OnTyped e []) st)"
      by (cases "attr e ''messages''") (auto simp: apply_switch_eq apply_messages_snapshot_def hook)
    with m MESSAGES_SNAPSHOT have "distinct (map (\<lambda>m. oget m ''id'') (conversation (observed env (OnTyped e []) st)))"
      by (simp add: mergeable_def)
    with chat_merge_snapshot [OF u' raw(1)] raw(2) MESSAGES_SNAPSHOT show ?thesis
      by (auto intro!: chat_eqI simp: chat_step_simps)
  next
    case ACTIVITY_SNAPSHOT
    with step chat_apply_activity_snapshot [OF obs u] show ?thesis
      by (auto intro!: chat_eqI simp: apply_switch_eq chat_step_simps)
  next
    case ACTIVITY_DELTA
    with step chat_apply_activity_delta [OF obs u] show ?thesis
      by (auto intro!: chat_eqI simp: apply_switch_eq chat_step_simps patched_eq)
  next
    case RUN_STARTED
    with step chat_run_started [OF obs u] show ?thesis
      by (auto intro!: chat_eqI simp: apply_switch_eq chat_step_simps)
  next
    case RUN_FINISHED
    with step chat_run_finished [OF obs u] show ?thesis
      by (auto intro!: chat_eqI simp: apply_switch_eq chat_step_simps)
  next
    case REASONING_ENCRYPTED_VALUE
    with step chat_encrypted_eq [OF u'] show ?thesis
      by (auto intro!: chat_eqI simp: apply_switch_eq apply_reasoning_encrypted_value_def hook chat_step_simps)
  next
    case (OTHER_TYPE x)
    with step u show ?thesis by (auto intro!: chat_eqI simp: apply_switch_eq chat_step_simps)
  qed (use step only in \<open>auto intro!: only chat_eqI simp: apply_switch_eq chat_step_simps\<close>)
qed

lemma emit_chat:
  "emitUpdates st = (out, st') \<Longrightarrow> chat_of st' = chat_of st \<and> unshared st' = unshared st"
  by (auto simp: emitUpdates_def chat_of_def conversation_def unshared_def bounded_def)

lemma event_refines:
  assumes obs: "observing env" and u: "unshared st" and m: "mergeable e st"
    and step: "apply_event env st e = Inr (out, st')"
  shows "chat_of st' = chat_step (applyPatch env) e (chat_of st) \<and> unshared st'"
proof -
  let ?st = "observed env (OnEvent e) st"
  from step obtain st1 where "apply_switch env e ?st = Inr st1" "emitUpdates st1 = (out, st')"
    by (auto simp: apply_event_def observing_run_hook [OF obs] map_sum_Inr)
  with switch_refines [OF obs, of ?st e st1] u m emit_chat [of st1 out st'] show ?thesis
    by (simp add: mergeable_def)
qed

text \<open>Every snapshot of the stream finds a conversation without duplicated identifiers.\<close>

definition merge_guard :: "event \<Rightarrow> chat \<Rightarrow> bool" where
  "merge_guard e c \<longleftrightarrow>
     (etype e = MESSAGES_SNAPSHOT \<longrightarrow> distinct (map (\<lambda>m. oget m ''id'') (chat_messages c)))"

definition snapshots_mergeable :: "(js \<Rightarrow> js \<Rightarrow> js option) \<Rightarrow> chat \<Rightarrow> event list \<Rightarrow> bool" where
  "snapshots_mergeable patch = guarded merge_guard (chat_step patch)"

interpretation reducer: simulated_stage "apply_event env" "\<lambda>st. observing env \<and> unshared st" chat_of
  "chat_step (applyPatch env)" merge_guard
proof unfold_locales
  fix st st' :: "'a apply_state" and e out
  assume "observing env \<and> unshared st" "merge_guard e (chat_of st)" "apply_event env st e = Inr (out, st')"
  then show "chat_of st' = chat_step (applyPatch env) e (chat_of st) \<and> observing env \<and> unshared st'"
    using event_refines [of env st e out st'] by (simp add: mergeable_def merge_guard_def)
qed

lemma run_refines:
  assumes "observing env" and "unshared st" and "accepts (apply_event env) st es"
    and "snapshots_mergeable (applyPatch env) (chat_of st) es"
  shows "chat_of (final_state (apply_event env) st es) = fold (chat_step (applyPatch env)) es (chat_of st)
    \<and> unshared (final_state (apply_event env) st es)"
  using reducer.run_simulated [of env st es] assms by (simp add: snapshots_mergeable_def)

lemma unshared_initial: "unshared (initial_apply_state msgs st0 ints w)"
  by (auto simp: unshared_def initial_apply_state_def Let_def new_objects_eq bounded_def)

subsection \<open>Finding messages after a step\<close>

lemma find_update_first_other:
  assumes "\<And>x. P (f x) = P x" and "find P xs = Some x"
  shows "find P (update_first Q f xs) = Some x \<or> Q x \<and> find P (update_first Q f xs) = Some (f x)"
  using assms(2) by (induction xs) (auto simp: assms(1) split: if_splits)

lemma find_update_first_same:
  assumes "\<And>x. P (f x) = P x" and "find P xs = Some x"
  shows "find P (update_first P f xs) = Some (f x)"
  using assms(2) by (induction xs) (auto simp: assms(1) split: if_splits)

lemma find_append_left: "find P xs = Some x \<Longrightarrow> find P (xs @ ys) = Some x"
  by (induction xs) (auto split: if_splits)

lemma find_insert: "find P (a @ b) = Some x \<Longrightarrow> \<not> P y \<Longrightarrow> find P (a @ y # b) = Some x"
  by (induction a) (auto split: if_splits)

lemma find_ext: "(\<And>x. P x = Q x) \<Longrightarrow> find P xs = find Q xs"
  by (induction xs) auto

text \<open>Updates that leave a field of the message alone.\<close>

definition leaves :: "string \<Rightarrow> (jobj \<Rightarrow> jobj) \<Rightarrow> bool" where
  "leaves k f \<longleftrightarrow> (\<forall>m. oget (f m) k = oget m k)"

lemma leaves_metadata: "k \<noteq> ''metadata'' \<Longrightarrow> leaves k (applyEventMetadata e)"
  by (simp add: leaves_def applyEventMetadata_def)

lemma leaves_update_tool_call: "k \<noteq> ''toolCalls'' \<Longrightarrow> leaves k (update_tool_call i f)"
  by (simp add: leaves_def update_tool_call_def)

lemma leaves_add_tool_call: "k \<noteq> ''toolCalls'' \<Longrightarrow> k \<noteq> ''subagentRunId'' \<Longrightarrow> leaves k (add_tool_call e b)"
  by (simp add: leaves_def add_tool_call_def Let_def)

lemma leaves_replayed_start: "k \<noteq> ''toolCalls'' \<Longrightarrow> leaves k (replayed_start e)"
  by (simp add: leaves_def replayed_start_def Let_def leaves_update_tool_call [unfolded leaves_def])

lemma leaves_append_delta: "k \<noteq> ''metadata'' \<Longrightarrow> k \<noteq> ''content'' \<Longrightarrow> leaves k (append_delta e)"
  by (simp add: leaves_def append_delta_def applyEventMetadata_def)

lemma leaves_unless_activity: "leaves k f \<Longrightarrow> leaves k (unless_activity f)"
  by (simp add: leaves_def unless_activity_def)

lemma leaves_oset: "k \<noteq> k' \<Longrightarrow> leaves k (oset k' v)"
  by (simp add: leaves_def)

lemma leaves_patched:
  "k \<noteq> ''metadata'' \<Longrightarrow> k \<noteq> ''content'' \<Longrightarrow> k \<noteq> ''activityType'' \<Longrightarrow>
     leaves k (\<lambda>m. if activity m then patched_activity patch e m else m)"
  by (simp add: leaves_def patched_activity_def applyEventMetadata_def Let_def split: option.split)

lemmas leaves_intros = leaves_metadata leaves_update_tool_call leaves_add_tool_call leaves_replayed_start
  leaves_append_delta leaves_unless_activity leaves_oset leaves_patched

lemma leaves_has_id: "leaves ''id'' f \<Longrightarrow> has_id i (f m) = has_id i m"
  by (simp add: leaves_def has_id_def)

end
