(* ===== verification/AGUI_Conversation.thy ===== *)
theory AGUI_Conversation
  imports AGUI_Refine
begin

section \<open>What the reducer makes of a stream\<close>

text \<open>
  Properties of the conversation that \<^verbatim>\<open>apply/default.ts\<close> builds, proved on the
  reference reducer of the previous theory and stated for the reducer itself: streamed text and
  tool-call arguments accumulate, replayed starts change nothing, tool results stand next to their
  calls, snapshots replace what the backend owns, activities stay structured, the pending tool
  calls are those started and not answered, and the emissions rebuild the conversation.
\<close>

subsection \<open>Streamed text\<close>


definition streams_to :: "js \<Rightarrow> event \<Rightarrow> bool" where
  "streams_to i e \<longleftrightarrow> etype e \<in> {TEXT_MESSAGE_CONTENT, REASONING_MESSAGE_CONTENT} \<and> attr e ''messageId'' = i"

text \<open>The events that may put another message under an identifier.\<close>

definition rebuilds :: "js \<Rightarrow> event \<Rightarrow> bool" where
  "rebuilds i e \<longleftrightarrow> etype e = MESSAGES_SNAPSHOT \<or>
     etype e \<in> {ACTIVITY_SNAPSHOT, TOOL_CALL_RESULT} \<and> attr e ''messageId'' = i"

definition continues :: "js \<Rightarrow> jobj \<Rightarrow> string \<Rightarrow> jobj list \<Rightarrow> bool" where
  "continues i m delta ms' \<longleftrightarrow>
     (\<exists>m'. find (has_id i) ms' = Some m' \<and> oget m' ''role'' = oget m ''role'' \<and>
       (\<not> activity m \<longrightarrow> buffer_of m' = buffer_of m @ delta))"

lemma buffer_leaves: "leaves ''content'' f \<Longrightarrow> buffer_of (f m) = buffer_of m"
  by (simp add: leaves_def buffer_of_def)

lemma continues_update:
  assumes "find (has_id i) ms = Some m" and "leaves ''id'' f" and "leaves ''role'' f" and "leaves ''content'' f"
  shows "continues i m [] (update_first Q f ms)"
  using find_update_first_other [of "has_id i" f ms m Q] assms
  by (auto simp: continues_def leaves_has_id buffer_leaves leaves_def [of "''role''"])

lemma continues_same: "find (has_id i) ms = Some m \<Longrightarrow> continues i m [] ms"
  by (simp add: continues_def)

lemma continues_append: "find (has_id i) ms = Some m \<Longrightarrow> continues i m [] (ms @ ns)"
  by (simp add: continues_def find_append_left)

lemma chat_add_missing_appends: "\<exists>ns. chat_add_missing new ms = ms @ ns"
  unfolding chat_add_missing_def by (induction new arbitrary: ms) (auto, metis append_assoc)

lemma buffer_append_delta: "buffer_of (append_delta e m) = buffer_of m @ text_of (attr e ''delta'')"
  by (simp add: append_delta_def buffer_of_def applyEventMetadata_def)

lemma continues_content:
  assumes "find (has_id i) ms = Some m"
  shows "continues i m (if attr e ''messageId'' = i then text_of (attr e ''delta'') else [])
    (update_first (has_id (attr e ''messageId'')) (unless_activity (append_delta e)) ms)"
proof -
  let ?f = "unless_activity (append_delta e)"
  have l: "leaves ''id'' ?f" "leaves ''role'' ?f" by (simp_all add: leaves_intros)
  show ?thesis
  proof (cases "attr e ''messageId'' = i")
    case True
    then have "find (has_id i) (update_first (has_id i) ?f ms) = Some (?f m)"
      using assms l(1) by (intro find_update_first_same) (simp_all add: leaves_has_id)
    with True l(2) show ?thesis
      by (auto simp: continues_def leaves_def unless_activity_def buffer_append_delta)
  next
    case False
    have "has_id i m" using assms by (auto simp: find_Some_iff)
    with False have "\<not> has_id (attr e ''messageId'') m" by (auto simp: has_id_def)
    with False find_update_first_other [of "has_id i" ?f ms m "has_id (attr e ''messageId'')"] assms l(1)
    show ?thesis by (auto simp: continues_def leaves_has_id)
  qed
qed

lemma tool_message_id: "oget (tool_message_of e) ''id'' = attr e ''messageId''"
  by (simp add: tool_message_of_def applyEventMetadata_def)

lemma chat_start_continues:
  assumes "find (has_id i) ms = Some m" shows "continues i m [] (chat_start e new ms)"
  using assms by (auto simp: chat_start_def leaves_intros intro!: continues_update continues_append)

lemma chat_tool_start_continues:
  assumes "find (has_id i) ms = Some m" shows "continues i m [] (chat_tool_start e ms)"
  using assms by (auto simp: chat_tool_start_def Let_def leaves_intros intro!: continues_update continues_append)

lemma chat_activity_continues:
  assumes "find (has_id i) ms = Some m" and "attr e ''messageId'' \<noteq> i"
  shows "continues i m [] (chat_activity_snapshot e ms)"
proof (cases "list_ex (has_id (attr e ''messageId'')) ms")
  case True
  have "find (has_id i) ms = Some m \<Longrightarrow> find (has_id i) (update_first (has_id (attr e ''messageId'')) f ms) = Some m"
    if "\<And>m. has_id (attr e ''messageId'') m \<Longrightarrow> \<not> has_id i (f m)" for f ms
    using assms(2) that by (induction ms) (auto simp: has_id_def split: if_splits)
  moreover have "has_id (attr e ''messageId'') m \<Longrightarrow> \<not> has_id i (snapshot_of_activity e m)" for m
    using assms(2) by (auto simp: has_id_def snapshot_of_activity_def applyEventMetadata_def replace_activity_def
        activity_message_of_def Let_def split: if_splits)
  ultimately show ?thesis using assms(1) True by (simp add: chat_activity_snapshot_eq continues_same)
qed (use assms in \<open>simp add: chat_activity_snapshot_eq continues_append\<close>)

lemma step_continues:
  assumes f: "find (has_id i) ms = Some m" and "\<not> rebuilds i e"
  shows "continues i m (if streams_to i e then text_of (attr e ''delta'') else []) (chat_message_step patch e ms)"
proof -
  note upd = continues_update [OF f]
  show ?thesis
  proof (cases "etype e")
    case TOOL_CALL_RESULT
    with assms have "\<not> has_id i (tool_message_of e)" by (auto simp: rebuilds_def has_id_def tool_message_id)
    with f have "continues i m [] (chat_result e ms)"
      by (intro continues_same) (simp add: chat_result_def Let_def find_insert)
    with TOOL_CALL_RESULT show ?thesis by (simp add: chat_message_step_def streams_to_def)
  next
    case RUN_STARTED
    then show ?thesis
      using chat_add_missing_appends [of "map (\<lambda>m. without_null_tag (fields_of m))
          (elements (jprop (attr e ''input'') ''messages''))" ms] continues_append [OF f]
      by (auto simp: chat_message_step_def streams_to_def)
  next
    case ACTIVITY_SNAPSHOT
    with assms show ?thesis
      by (simp add: chat_message_step_def streams_to_def rebuilds_def chat_activity_continues)
  next
    case ACTIVITY_DELTA
    let ?f = "\<lambda>m. if activity m then patched_activity patch e m else m"
    have idf: "has_id i (?f x) = has_id i x" for x
      using leaves_has_id [OF leaves_patched [of "''id''" patch e], of i x] by simp
    have "find (has_id i) (update_first Q ?f ms) = Some m \<or> find (has_id i) (update_first Q ?f ms) = Some (?f m)" for Q
      using find_update_first_other [of "has_id i" ?f, OF idf f, of Q] by blast
    moreover have "oget (?f m) ''role'' = oget m ''role''"
      using leaves_patched [of "''role''" patch e] by (simp add: leaves_def)
    ultimately have "continues i m [] (update_first Q ?f ms)" for Q
      unfolding continues_def by (cases "find (has_id i) (update_first Q ?f ms) = Some m") (simp, fastforce)
    with ACTIVITY_DELTA show ?thesis by (simp add: chat_message_step_def streams_to_def)
  qed (use f assms continues_content [OF f] in \<open>auto simp: chat_message_step_def streams_to_def rebuilds_def
      chat_start_continues chat_tool_start_continues chat_encrypted_def Let_def leaves_intros
      continues_same [OF f] intro!: upd\<close>)
qed


lemma run_continues:
  assumes "find (has_id i) (chat_messages c) = Some m" and "\<not> activity m"
    and "\<And>e. e \<in> set es \<Longrightarrow> \<not> rebuilds i e"
  shows "continues i m (concat (map (\<lambda>e. text_of (attr e ''delta'')) (filter (streams_to i) es)))
    (chat_messages (fold (chat_step patch) es c))"
  using assms
proof (induction es arbitrary: c m)
  case (Cons e es)
  let ?c = "chat_step patch e c"
  have "continues i m (if streams_to i e then text_of (attr e ''delta'') else []) (chat_messages ?c)"
    using step_continues [OF Cons.prems(1)] Cons.prems(3) by (simp add: chat_step_def)
  then obtain m' where m': "find (has_id i) (chat_messages ?c) = Some m'" "oget m' ''role'' = oget m ''role''"
    "buffer_of m' = buffer_of m @ (if streams_to i e then text_of (attr e ''delta'') else [])"
    using Cons.prems(2) by (auto simp: continues_def)
  with Cons.prems(2) have "\<not> activity m'" by (simp add: activity_def)
  with Cons.IH [OF m'(1)] Cons.prems m' show ?case by (auto simp: continues_def)
qed (simp add: continues_same)

text \<open>No snapshot, nothing to merge.\<close>

lemma no_snapshot_mergeable: "\<not> list_ex (\<lambda>e. etype e = MESSAGES_SNAPSHOT) es \<Longrightarrow> snapshots_mergeable patch c es"
  unfolding snapshots_mergeable_def by (rule guarded_all) (auto simp: merge_guard_def list_ex_iff)

subsection \<open>Tool-call arguments\<close>

definition call_at :: "js \<Rightarrow> jobj list \<Rightarrow> js option" where
  "call_at i ms = Option.bind (find (issued i) ms) (tool_call_in i)"

definition args_text :: "js \<Rightarrow> string" where
  "args_text tc = text_of (function_field ''arguments'' (fields_of tc))"

text \<open>An update that keeps the call \<open>i\<close> of a message, up to what is not its arguments.\<close>

definition keeps_call :: "js \<Rightarrow> (jobj \<Rightarrow> jobj) \<Rightarrow> bool" where
  "keeps_call i f \<longleftrightarrow> (\<forall>m. map_option args_text (tool_call_in i (f m)) = map_option args_text (tool_call_in i m))"

lemma issued_args: "issued i m \<longleftrightarrow> map_option args_text (tool_call_in i m) \<noteq> None"
  by (simp add: issued_def)

lemma keeps_issued: "keeps_call i f \<Longrightarrow> issued i (f m) = issued i m"
  by (simp add: issued_args keeps_call_def)

lemma call_at_args: "map_option args_text (call_at i ms) = Option.bind (find (issued i) ms) (\<lambda>m. map_option args_text (tool_call_in i m))"
  by (cases "find (issued i) ms") (simp_all add: call_at_def)

lemma call_at_Cons: "call_at i (m # ms) = (if issued i m then tool_call_in i m else call_at i ms)"
  by (simp add: call_at_def)

lemma call_at_Nil [simp]: "call_at i [] = None"
  by (simp add: call_at_def)

lemma call_at_None: "call_at i ms = None \<longleftrightarrow> \<not> list_ex (issued i) ms"
  by (induction ms) (auto simp: call_at_Cons issued_def)

lemma call_at_keeps:
  "keeps_call i f \<Longrightarrow> map_option args_text (call_at i (update_first Q f ms)) = map_option args_text (call_at i ms)"
  by (induction ms) (auto simp: call_at_Cons keeps_issued keeps_call_def)

lemma call_at_append: "call_at i (ms @ ns) = (if list_ex (issued i) ms then call_at i ms else call_at i ns)"
  by (induction ms) (auto simp: call_at_Cons)

lemma call_at_insert: "\<not> issued i m \<Longrightarrow> call_at i (a @ m # b) = call_at i (a @ b)"
  by (induction a) (auto simp: call_at_Cons)

lemma keeps_call_leaves: "leaves ''toolCalls'' f \<Longrightarrow> keeps_call i f"
  by (simp add: leaves_def keeps_call_def tool_call_in_def)

lemma jprop_fields: "jprop tc k = oget (fields_of tc) k"
  by (cases tc) simp_all

lemma tool_call_in_update:
  assumes "leaves ''id'' g"
  shows "tool_call_in i (update_tool_call j g m) =
    (if i = j then map_option (\<lambda>tc. JObj (g (fields_of tc))) (tool_call_in i m) else tool_call_in i m)"
proof -
  have "find (\<lambda>tc. jprop tc ''id'' = i) (update_first (\<lambda>tc. jprop tc ''id'' = j) (\<lambda>tc. JObj (g (fields_of tc))) tcs) =
     (if i = j then map_option (\<lambda>tc. JObj (g (fields_of tc))) (find (\<lambda>tc. jprop tc ''id'' = i) tcs)
      else find (\<lambda>tc. jprop tc ''id'' = i) tcs)" for tcs
    using assms by (induction tcs) (auto simp: leaves_def jprop_fields)
  then show ?thesis by (simp add: tool_call_in_def update_tool_call_def)
qed

lemma keeps_call_update:
  assumes "leaves ''id'' g" and "\<And>tc. function_field ''arguments'' (g tc) = function_field ''arguments'' tc"
  shows "keeps_call i (update_tool_call j g)"
  using assms(2)
  by (auto simp: keeps_call_def tool_call_in_update [OF assms(1)] args_text_def option.map_comp intro!: option.map_cong)

lemma function_field_metadata [simp]: "function_field k (applyEventMetadata e tc) = function_field k tc"
  by (simp add: function_field_def applyEventMetadata_def)

lemma function_field_set [simp]:
  "function_field k (set_function_field k' v tc) = (if k = k' then v else function_field k tc)"
proof -
  have "oget (fields_of v) k = jprop v k" for v by (cases v) simp_all
  then show ?thesis by (simp add: function_field_def set_function_field_def)
qed

lemma leaves_restart: "k \<noteq> ''metadata'' \<Longrightarrow> k \<noteq> ''function'' \<Longrightarrow> leaves k (restart_tool_call e b)"
  by (simp add: leaves_def restart_tool_call_def applyEventMetadata_def set_function_field_def)

lemma leaves_append_args: "k \<noteq> ''metadata'' \<Longrightarrow> k \<noteq> ''function'' \<Longrightarrow> leaves k (append_args e)"
  by (simp add: leaves_def append_args_def applyEventMetadata_def set_function_field_def)

lemma keeps_call_replayed: "keeps_call i (replayed_start e)"
proof -
  have "keeps_call i (update_tool_call j (restart_tool_call e b))" for j b
    by (rule keeps_call_update) (simp_all add: leaves_restart restart_tool_call_def)
  then show ?thesis by (simp add: keeps_call_def replayed_start_def Let_def)
qed

lemma find_append: "find P (xs @ ys) = (case find P xs of None \<Rightarrow> find P ys | Some x \<Rightarrow> Some x)"
  by (induction xs) auto

lemma keeps_call_add: "attr e ''toolCallId'' \<noteq> i \<Longrightarrow> keeps_call i (add_tool_call e b)"
  by (auto simp: keeps_call_def add_tool_call_def tool_call_in_def Let_def find_append new_tool_call_def
      applyEventMetadata_def split: option.split)

lemma tool_message_calls: "\<not> issued i (tool_message_of e)"
  by (simp add: issued_def tool_call_in_def tool_message_of_def applyEventMetadata_def tag_field_def)

lemma args_step_append:
  "call_at i ms = Some tc \<Longrightarrow>
   map_option args_text (call_at i (update_first (issued i) (update_tool_call i (append_args e)) ms)) =
     Some (args_text tc @ text_of (attr e ''delta''))"
proof (induction ms)
  case (Cons m ms)
  have l: "leaves ''id'' (append_args e)" by (simp add: leaves_append_args)
  have up: "tool_call_in i (update_tool_call i (append_args e) m) =
      map_option (\<lambda>tc. JObj (append_args e (fields_of tc))) (tool_call_in i m)"
    by (simp add: tool_call_in_update [OF l])
  then have "issued i (update_tool_call i (append_args e) m) = issued i m" by (simp add: issued_def)
  moreover have "args_text (JObj (append_args e (fields_of tc))) = args_text tc @ text_of (attr e ''delta'')"
    by (simp add: args_text_def append_args_def)
  ultimately show ?case using Cons up by (cases "issued i m") (auto simp: call_at_Cons)
qed simp

definition argues_to :: "js \<Rightarrow> event \<Rightarrow> bool" where
  "argues_to i e \<longleftrightarrow> etype e = TOOL_CALL_ARGS \<and> attr e ''toolCallId'' = i"

lemma step_args:
  assumes c: "call_at i ms = Some tc" and "etype e \<notin> {MESSAGES_SNAPSHOT, ACTIVITY_SNAPSHOT}"
  shows "map_option args_text (call_at i (chat_message_step patch e ms)) =
    Some (args_text tc @ (if argues_to i e then text_of (attr e ''delta'') else []))"
proof -
  have ex: "list_ex (issued i) ms" using c call_at_None [of i ms] by simp
  have keep: "keeps_call i f \<Longrightarrow> map_option args_text (call_at i (update_first Q f ms)) = Some (args_text tc)" for Q f
    using c by (simp add: call_at_keeps)
  have app: "map_option args_text (call_at i (ms @ ns)) = Some (args_text tc)" for ns
    using c ex by (simp add: call_at_append)
  have tools: "keeps_call i (update_tool_call j g)" if "leaves ''id'' g" "leaves ''function'' g" for j g
    using that by (intro keeps_call_update) (auto simp: leaves_def function_field_def)
  show ?thesis
  proof (cases "etype e")
    case TOOL_CALL_START
    have "keeps_call i (add_tool_call e b)" if "\<not> list_ex (issued (attr e ''toolCallId'')) ms" for b
      using that ex by (intro keeps_call_add) auto
    with TOOL_CALL_START keep app keeps_call_replayed show ?thesis
      by (auto simp: chat_message_step_def argues_to_def chat_tool_start_def Let_def)
  next
    case TOOL_CALL_ARGS
    show ?thesis
    proof (cases "attr e ''toolCallId'' = i")
      case True
      with TOOL_CALL_ARGS args_step_append [OF c] show ?thesis by (simp add: chat_message_step_def argues_to_def)
    next
      case False
      then have "keeps_call i (update_tool_call (attr e ''toolCallId'') (append_args e))"
        by (simp add: keeps_call_def tool_call_in_update leaves_append_args)
      with TOOL_CALL_ARGS False keep show ?thesis by (simp add: chat_message_step_def argues_to_def)
    qed
  next
    case TOOL_CALL_RESULT
    have "call_at i (chat_result e ms) = call_at i ms"
      by (simp add: chat_result_def Let_def call_at_insert tool_message_calls)
    with TOOL_CALL_RESULT c show ?thesis by (simp add: chat_message_step_def argues_to_def)
  next
    case RUN_STARTED
    obtain ns where "chat_add_missing (map (\<lambda>m. without_null_tag (fields_of m))
        (elements (jprop (attr e ''input'') ''messages''))) ms = ms @ ns" using chat_add_missing_appends by blast
    with RUN_STARTED app show ?thesis by (simp add: chat_message_step_def argues_to_def)
  next
    case REASONING_ENCRYPTED_VALUE
    with keep tools show ?thesis
      by (auto simp: chat_message_step_def argues_to_def chat_encrypted_def Let_def leaves_intros keeps_call_leaves)
  qed (use assms keep app tools in \<open>auto simp: chat_message_step_def argues_to_def chat_start_def leaves_intros keeps_call_leaves\<close>)
qed

lemma run_args:
  assumes "call_at i (chat_messages c) = Some tc"
    and "\<And>e. e \<in> set es \<Longrightarrow> etype e \<notin> {MESSAGES_SNAPSHOT, ACTIVITY_SNAPSHOT}"
  shows "map_option args_text (call_at i (chat_messages (fold (chat_step patch) es c))) =
    Some (args_text tc @ concat (map (\<lambda>e. text_of (attr e ''delta'')) (filter (argues_to i) es)))"
  using assms
proof (induction es arbitrary: c tc)
  case (Cons e es)
  let ?c = "chat_step patch e c"
  have "map_option args_text (call_at i (chat_messages ?c)) =
      Some (args_text tc @ (if argues_to i e then text_of (attr e ''delta'') else []))"
    using step_args [OF Cons.prems(1)] Cons.prems(2) by (simp add: chat_step_def)
  then obtain tc' where tc': "call_at i (chat_messages ?c) = Some tc'"
    "args_text tc' = args_text tc @ (if argues_to i e then text_of (attr e ''delta'') else [])" by auto
  from Cons.IH [OF tc'(1)] Cons.prems(2) tc'(2) show ?case by (cases "argues_to i e") simp_all
qed simp

subsection \<open>Message snapshots\<close>

definition message_ids :: "jobj list \<Rightarrow> js list" where
  "message_ids ms = map (\<lambda>m. oget m ''id'') ms"

definition snapshot_messages :: "event \<Rightarrow> jobj list" where
  "snapshot_messages e = map (\<lambda>m. without_null_tag (fields_of m)) (elements (attr e ''messages''))"

definition client_only :: "event \<Rightarrow> jobj \<Rightarrow> bool" where
  "client_only e m \<longleftrightarrow>
     oget m ''id'' \<notin> set (message_ids (snapshot_messages e)) \<and>
     is_preserved_client_only (authoritativeActivityTypes e) (snapshot_messages e) m"

lemma find_distinct_ids:
  assumes "distinct (message_ids ns)"
  shows "find (has_id i) (rev ns) = Some n \<longleftrightarrow> n \<in> set ns \<and> oget n ''id'' = i"
proof
  assume "find (has_id i) (rev ns) = Some n"
  then show "n \<in> set ns \<and> oget n ''id'' = i" using find_ref_Some_set [of "has_id i" "rev ns" n] by (simp add: has_id_def)
next
  assume n: "n \<in> set ns \<and> oget n ''id'' = i"
  have "find (has_id i) (rev ns) \<noteq> None" using n by (auto simp: find_None_iff has_id_def)
  then obtain n' where n': "find (has_id i) (rev ns) = Some n'" by blast
  with find_ref_Some_set [of "has_id i" "rev ns" n'] have "n' \<in> set ns" "oget n' ''id'' = i" by (simp_all add: has_id_def)
  with n assms have "n' = n" by (auto simp: message_ids_def distinct_map inj_on_def)
  with n' show "find (has_id i) (rev ns) = Some n" by simp
qed

lemma find_no_id: "find (has_id i) (rev ns) = None \<longleftrightarrow> i \<notin> set (message_ids ns)"
  by (auto simp: find_None_iff has_id_def message_ids_def)

text \<open>The first half of a merged snapshot: the messages the conversation already had.\<close>

definition kept_messages :: "event \<Rightarrow> jobj list \<Rightarrow> jobj list" where
  "kept_messages e ms =
     map (\<lambda>m. case find (has_id (oget m ''id'')) (rev (snapshot_messages e)) of None \<Rightarrow> m | Some n \<Rightarrow> n)
       (filter (\<lambda>m. oget m ''id'' \<in> set (message_ids (snapshot_messages e)) \<or> client_only e m) ms)"

lemma chat_snapshot_eq:
  "chat_snapshot e ms = kept_messages e ms @
     filter (\<lambda>n. oget n ''id'' \<notin> set (message_ids (kept_messages e ms))) (snapshot_messages e)"
proof -
  have keep: "find (has_id i) (rev (snapshot_messages e)) \<noteq> None \<longleftrightarrow> i \<in> set (message_ids (snapshot_messages e))" for i
    using find_no_id [of i "snapshot_messages e"] by simp
  have pres: "oget m ''id'' \<in> set (message_ids (snapshot_messages e)) \<or>
      is_preserved_client_only (authoritativeActivityTypes e) (snapshot_messages e) m \<longleftrightarrow>
      oget m ''id'' \<in> set (message_ids (snapshot_messages e)) \<or> client_only e m" for m
    by (auto simp: client_only_def)
  have ex: "list_ex (has_id i) ks \<longleftrightarrow> i \<in> set (message_ids ks)" for i ks
    by (auto simp: list_ex_iff has_id_def message_ids_def)
  show ?thesis
    by (simp only: chat_snapshot_def Let_def kept_messages_def snapshot_messages_def [symmetric] keep pres ex)
qed

lemma set_kept_messages:
  assumes "distinct (message_ids (snapshot_messages e))"
  shows "set (kept_messages e ms) =
    {n \<in> set (snapshot_messages e). oget n ''id'' \<in> set (message_ids ms)} \<union> {m \<in> set ms. client_only e m}"
    (is "_ = ?R")
proof -
  let ?new = "snapshot_messages e"
  let ?f = "\<lambda>m. case find (has_id (oget m ''id'')) (rev ?new) of None \<Rightarrow> m | Some n \<Rightarrow> n"
  have f1: "n \<in> set ?new \<Longrightarrow> oget n ''id'' = oget m ''id'' \<Longrightarrow> ?f m = n" for m n
    using find_distinct_ids [OF assms, of "oget m ''id''" n] by simp
  have f2: "client_only e m \<Longrightarrow> ?f m = m" for m
    using find_no_id [of "oget m ''id''" ?new] by (simp add: client_only_def)
  have ids: "i \<in> set (message_ids ns) \<longleftrightarrow> (\<exists>n \<in> set ns. oget n ''id'' = i)" for i ns by (auto simp: message_ids_def)
  show ?thesis
  proof (intro set_eqI iffI)
    fix x assume "x \<in> set (kept_messages e ms)"
    then obtain m where m: "m \<in> set ms" "x = ?f m" "oget m ''id'' \<in> set (message_ids ?new) \<or> client_only e m"
      by (auto simp: kept_messages_def)
    show "x \<in> ?R"
    proof (cases "client_only e m")
      case True
      with m f2 show ?thesis by simp
    next
      case False
      with m obtain n where n: "n \<in> set ?new" "oget n ''id'' = oget m ''id''" by (auto simp: ids)
      with f1 m have "x = n" by simp
      with n m show ?thesis by (auto simp: ids)
    qed
  next
    fix x assume "x \<in> ?R"
    then consider m where "x \<in> set ?new" "m \<in> set ms" "oget m ''id'' = oget x ''id''" | "x \<in> set ms" "client_only e x"
      by (auto simp: ids)
    then show "x \<in> set (kept_messages e ms)"
    proof cases
      case 1
      have "x = ?f m" using f1 [of x m] 1 by simp
      moreover have "oget m ''id'' \<in> set (message_ids ?new)" using 1 by (auto simp: ids)
      ultimately show ?thesis
        using 1 unfolding kept_messages_def set_map by (intro image_eqI [where x = m]) auto
    next
      case 2
      then have "x = ?f x" using f2 by simp
      with 2 show ?thesis unfolding kept_messages_def set_map by (intro image_eqI [where x = x]) auto
    qed
  qed
qed

lemma message_ids_kept:
  "message_ids (kept_messages e ms) =
     message_ids (filter (\<lambda>m. oget m ''id'' \<in> set (message_ids (snapshot_messages e)) \<or> client_only e m) ms)"
proof -
  have "oget (case find (has_id (oget m ''id'')) (rev ns) of None \<Rightarrow> m | Some n \<Rightarrow> n) ''id'' = oget m ''id''" for m ns
    using find_ref_Some_set [of "has_id (oget m ''id'')" "rev ns"] by (auto simp: has_id_def split: option.split)
  then show ?thesis by (simp add: message_ids_def kept_messages_def)
qed

lemma snapshot_merged:
  assumes new: "distinct (message_ids (snapshot_messages e))" and old: "distinct (message_ids ms)"
  shows "set (chat_snapshot e ms) = set (snapshot_messages e) \<union> {m \<in> set ms. client_only e m}"
    and "distinct (message_ids (chat_snapshot e ms))"
proof -
  let ?new = "snapshot_messages e"
  have sub: "set (message_ids (kept_messages e ms)) \<subseteq> set (message_ids ms)"
    unfolding message_ids_kept by (auto simp: message_ids_def)
  have "n \<in> set ?new \<Longrightarrow> oget n ''id'' \<in> set (message_ids (kept_messages e ms)) \<Longrightarrow> n \<in> set (kept_messages e ms)" for n
    using set_kept_messages [OF new, of ms] sub by auto
  then show "set (chat_snapshot e ms) = set ?new \<union> {m \<in> set ms. client_only e m}"
    unfolding chat_snapshot_eq using set_kept_messages [OF new, of ms] by auto
  have "distinct (message_ids (kept_messages e ms))"
    unfolding message_ids_kept using old by (simp add: message_ids_def distinct_map_filter)
  then show "distinct (message_ids (chat_snapshot e ms))"
    unfolding chat_snapshot_eq using new
    by (auto simp: message_ids_def distinct_map_filter) (metis imageI)
qed

lemma snapshot_again:
  assumes new: "distinct (message_ids (snapshot_messages e))" and old: "distinct (message_ids ms)"
  shows "chat_snapshot e (chat_snapshot e ms) = chat_snapshot e ms"
proof -
  let ?new = "snapshot_messages e" and ?res = "chat_snapshot e ms"
  have all: "m \<in> set ?new \<or> client_only e m" if "m \<in> set ?res" for m
    using snapshot_merged(1) [OF assms] that by auto
  have f: "(case find (has_id (oget m ''id'')) (rev ?new) of None \<Rightarrow> m | Some n \<Rightarrow> n) = m" if "m \<in> set ?res" for m
    using all [OF that] find_distinct_ids [OF new, of "oget m ''id''" m] find_no_id [of "oget m ''id''" ?new]
    by (auto simp: client_only_def)
  have "filter (\<lambda>m. oget m ''id'' \<in> set (message_ids ?new) \<or> client_only e m) ?res = ?res"
    using all by (intro filter_True) (auto simp: message_ids_def)
  then have kept: "kept_messages e ?res = ?res" using f by (simp add: kept_messages_def map_idI)
  have "n \<in> set ?new \<Longrightarrow> oget n ''id'' \<in> set (message_ids ?res)" for n
    using snapshot_merged(1) [OF assms] by (auto simp: message_ids_def)
  then show ?thesis unfolding chat_snapshot_eq [of e ?res] kept by (simp add: filter_empty_conv)
qed

subsection \<open>Pending tool calls\<close>

definition tool_ids :: "event_type \<Rightarrow> event list \<Rightarrow> js set" where
  "tool_ids t es = (\<lambda>e. attr e ''toolCallId'') ` {e \<in> set es. etype e = t}"

lemma tool_ids_Cons: "tool_ids t (e # es) = (if etype e = t then {attr e ''toolCallId''} else {}) \<union> tool_ids t es"
  by (auto simp: tool_ids_def)

lemma tallies:
  assumes "\<And>e. e \<in> set es \<Longrightarrow> etype e \<noteq> RUN_STARTED"
  shows "set (chat_started (fold (chat_step patch) es c)) = set (chat_started c) \<union> tool_ids TOOL_CALL_START es"
    and "set (chat_answered (fold (chat_step patch) es c)) = set (chat_answered c) \<union> tool_ids TOOL_CALL_RESULT es"
    and "distinct (chat_started c) \<Longrightarrow> distinct (chat_started (fold (chat_step patch) es c))"
proof -
  have started: "chat_started (chat_step patch e c) =
      (if etype e = TOOL_CALL_START then sadd (attr e ''toolCallId'') (chat_started c) else chat_started c)"
    if "etype e \<noteq> RUN_STARTED" for e c using that by (cases "etype e") (simp_all add: chat_step_def)
  have answered: "chat_answered (chat_step patch e c) =
      (if etype e = TOOL_CALL_RESULT then sadd (attr e ''toolCallId'') (chat_answered c) else chat_answered c)"
    if "etype e \<noteq> RUN_STARTED" for e c using that by (cases "etype e") (simp_all add: chat_step_def)
  show "set (chat_started (fold (chat_step patch) es c)) = set (chat_started c) \<union> tool_ids TOOL_CALL_START es"
    using assms by (induction es arbitrary: c) (auto simp: tool_ids_Cons started tool_ids_def [of _ "[]"])
  show "set (chat_answered (fold (chat_step patch) es c)) = set (chat_answered c) \<union> tool_ids TOOL_CALL_RESULT es"
    using assms by (induction es arbitrary: c) (auto simp: tool_ids_Cons answered tool_ids_def [of _ "[]"])
  show "distinct (chat_started c) \<Longrightarrow> distinct (chat_started (fold (chat_step patch) es c))"
    using assms by (induction es arbitrary: c) (auto simp: started)
qed

subsection \<open>What can fail\<close>

definition apply_fault :: "event \<Rightarrow> apply_error option" where
  "apply_fault e =
     (let input = jprop (attr e ''input'') ''messages''; outcome = attr e ''outcome'' in
      if etype e \<in> {TEXT_MESSAGE_CHUNK, TOOL_CALL_CHUNK, REASONING_MESSAGE_CHUNK} then Some (NotTransformed (etype e))
      else if etype e = MESSAGES_SNAPSHOT \<and> \<not> is_array (attr e ''messages'')
        \<or> etype e = RUN_STARTED \<and> truthy input \<and> \<not> is_array input
        \<or> etype e = RUN_FINISHED \<and> jprop outcome ''type'' = JStr ''interrupt'' \<and> \<not> is_array (jprop outcome ''interrupts'')
      then Some (NotIterable (etype e))
      else None)"

lemma observing_never_fails:
  assumes "observing env"
  shows "\<exists>st'. message_content b env e st = Inr st'" and "\<exists>st'. message_end b env e st = Inr st'"
    and "\<exists>st'. apply_tool_call_args env e st = Inr st'" and "\<exists>st'. apply_tool_call_end env e st = Inr st'"
    and "\<exists>st'. apply_tool_call_result env e st = Inr st'"
    and "\<exists>st'. apply_activity_snapshot env e st = Inr st'" and "\<exists>st'. apply_activity_delta env e st = Inr st'"
proof -
  note simps = observing_unless_stopped [OF assms] observing_run_hook [OF assms] observing_notify [OF assms] Let_def
  show "\<exists>st'. message_content b env e st = Inr st'"
    by (simp add: message_content_def simps split: option.split)
  show "\<exists>st'. message_end b env e st = Inr st'"
    by (simp add: message_end_def simps split: option.split)
  show "\<exists>st'. apply_tool_call_args env e st = Inr st'"
    by (simp add: apply_tool_call_args_def simps split: option.split)
  show "\<exists>st'. apply_tool_call_end env e st = Inr st'"
    by (simp add: apply_tool_call_end_def simps split: option.split)
  show "\<exists>st'. apply_tool_call_result env e st = Inr st'"
    by (simp add: apply_tool_call_result_def simps)
  have set_ok: "\<exists>st''. set_message i obj st' = Inr st''"
    if "find_position (attr e ''messageId'') st = Some i" "message_refs st' = message_refs st" for i obj and st' :: "'a apply_state"
    using find_position_Some(1) [OF that(1)] that(2) by (simp add: set_message_def new_object_def)
  show "\<exists>st'. apply_activity_snapshot env e st = Inr st'"
  proof (cases "find_position (attr e ''messageId'') st")
    case (Some i)
    obtain call where call: "apply_activity_snapshot env e st =
        snapshot_activity env e (Some (i, heap st (message_refs st ! i))) (observed env call st)"
      using Some by (simp add: apply_activity_snapshot_def simps)
    obtain f where f: "\<And>obj. set_message i obj (observed env call st) = Inr (f obj)"
      using set_ok [OF Some, of "observed env call st"] by (metis observed_simps(3))
    show ?thesis by (simp add: call snapshot_activity_def notify_created_def simps f)
  qed (simp add: apply_activity_snapshot_def snapshot_activity_def notify_created_def simps)
  show "\<exists>st'. apply_activity_delta env e st = Inr st'"
  proof (cases "find_position (attr e ''messageId'') st")
    case (Some i)
    have "\<exists>st''. patch_activity env e i r (observed env call st) = Inr st''" for r call
    proof -
      let ?st1 = "if carries_metadata e then publish (write_object r (applyEventMetadata e) (observed env call st))
        else observed env call st"
      have "\<exists>st''. set_message i obj ?st1 = Inr st''" for obj by (rule set_ok [OF Some]) simp
      then show ?thesis by (auto simp: patch_activity_def Let_def map_sum_Inr split: option.split)
    qed
    with Some show ?thesis by (simp add: apply_activity_delta_def simps)
  qed (simp add: apply_activity_delta_def)
qed

lemma switch_verdict:
  assumes obs: "observing env"
  shows "case apply_fault e of Some err \<Rightarrow> apply_switch env e st = Inl err | None \<Rightarrow> \<exists>st'. apply_switch env e st = Inr st'"
proof -
  note simps = observing_unless_stopped [OF obs] observing_run_hook [OF obs] chat_hook_only [OF obs] apply_fault_def
  show ?thesis
  proof (cases "etype e")
    case MESSAGES_SNAPSHOT
    then show ?thesis
      by (cases "attr e ''messages''") (simp_all add: apply_switch_eq apply_messages_snapshot_def simps)
  next
    case RUN_STARTED
    then show ?thesis
      by (cases "jprop (attr e ''input'') ''messages''") (simp_all add: apply_switch_eq apply_run_started_def simps Let_def)
  next
    case RUN_FINISHED
    then show ?thesis
      by (cases "jprop (attr e ''outcome'') ''interrupts''")
        (simp_all add: apply_switch_eq apply_run_finished_def finished_params_def simps Let_def)
  qed (simp_all add: apply_switch_eq simps observing_never_fails [OF obs] apply_text_message_start_def
      apply_reasoning_message_start_def apply_tool_call_start_def apply_text_message_content_def
      apply_reasoning_message_content_def apply_text_message_end_def apply_reasoning_message_end_def
      apply_state_snapshot_def apply_state_delta_def apply_reasoning_encrypted_value_def)
qed

subsection \<open>Replayed starts\<close>

lemma spread_disjoint: "fst ` set a \<inter> fst ` set b = {} \<Longrightarrow> distinct (map fst b) \<Longrightarrow> spread a b = a @ b"
proof (induction b arbitrary: a)
  case (Cons p b)
  obtain k v where p: "p = (k, v)" by (cases p)
  have "oset k v a = a @ [(k, v)]"
    unfolding oset_def using Cons.prems(1) p by (intro alist_update_new) (auto simp: map_of_eq_None_iff)
  moreover have "spread (a @ [(k, v)]) b = (a @ [(k, v)]) @ b" using Cons p by (intro Cons.IH) auto
  ultimately show ?case using p by simp
qed simp

lemma spread_present: "(\<And>k v. (k, v) \<in> set b \<Longrightarrow> map_of a k = Some v) \<Longrightarrow> spread a b = a"
proof (induction b)
  case (Cons p b)
  obtain k v where p: "p = (k, v)" by (cases p)
  with Cons.prems have "oset k v a = a" by (intro oset_same) auto
  with Cons p show ?case by simp
qed simp

lemma map_of_spread: "distinct (map fst b) \<Longrightarrow> (k, v) \<in> set b \<Longrightarrow> map_of (spread a b) k = Some v"
proof (induction b arbitrary: a)
  case (Cons p b)
  show ?case
  proof (cases "(k, v) \<in> set b")
    case False
    with Cons.prems have "p = (k, v)" by simp
    moreover have "k \<notin> fst ` set b" using Cons.prems calculation by auto
    then have "map_of (spread x b) k = map_of x k" for x
      by (induction b arbitrary: x) (auto simp: oset_def update_conv')
    ultimately show ?thesis by (simp add: oset_def update_conv')
  qed (use Cons in \<open>cases p; auto\<close>)
qed simp

lemma spread_twice: "distinct (map fst b) \<Longrightarrow> spread (spread a b) b = spread a b"
  by (rule spread_present) (rule map_of_spread)

text \<open>Merging the same metadata a second time changes nothing.\<close>

lemma mergeMetadata_twice:
  assumes "distinct (map fst (fields_of incoming))"
  shows "mergeMetadata (mergeMetadata existing incoming) incoming = mergeMetadata existing incoming"
proof -
  have nil: "spread [] (spread [] x) = spread [] x" for x
    using spread_disjoint [of "[]" "spread [] x"] by simp
  have two: "spread [] (spread (spread [] x) y) = spread (spread [] x) y" for x y
    using spread_disjoint [of "[]" "spread (spread [] x) y"] by simp
  show ?thesis using assms by (simp add: mergeMetadata_def nil two spread_twice)
qed

definition plain_metadata :: "event \<Rightarrow> bool" where
  "plain_metadata e \<longleftrightarrow> distinct (map fst (fields_of (attr e ''metadata'')))"

lemma applyEventMetadata_twice:
  "plain_metadata e \<Longrightarrow> applyEventMetadata e (applyEventMetadata e m) = applyEventMetadata e m"
  by (simp add: applyEventMetadata_def oset_oset mergeMetadata_twice plain_metadata_def)

lemma update_first_twice:
  assumes "\<And>x. P x \<Longrightarrow> P (g x)"
  shows "update_first P f (update_first P g xs) = update_first P (\<lambda>x. f (g x)) xs"
  using assms by (induction xs) auto

lemma update_first_ident: "(\<And>x. x \<in> set xs \<Longrightarrow> P x \<Longrightarrow> f x = x) \<Longrightarrow> update_first P f xs = xs"
  by (induction xs) auto

lemma update_tool_call_twice:
  assumes "leaves ''id'' g"
  shows "update_tool_call i f (update_tool_call i g m) = update_tool_call i (\<lambda>tc. f (g tc)) m"
proof -
  have "jprop tc ''id'' = i \<Longrightarrow> jprop (JObj (g (fields_of tc))) ''id'' = i" for tc
    using assms by (simp add: leaves_def jprop_fields)
  then show ?thesis
    by (simp add: update_tool_call_def oset_oset update_first_twice)
qed

lemma restart_twice:
  "plain_metadata e \<Longrightarrow> restart_tool_call e False (restart_tool_call e b tc) = restart_tool_call e b tc"
  by (simp add: restart_tool_call_def applyEventMetadata_twice)

lemma replayed_name:
  assumes "tool_call_in (attr e ''toolCallId'') m = Some tc"
    and "b = (function_field ''name'' (fields_of tc) \<noteq> attr e ''toolCallName'')"
  shows "function_field ''name'' (restart_tool_call e b (fields_of tc)) = attr e ''toolCallName''"
  using assms(2) by (simp add: restart_tool_call_def)

lemma replayed_start_twice:
  assumes "plain_metadata e" and "issued (attr e ''toolCallId'') m"
  shows "replayed_start e (replayed_start e m) = replayed_start e m"
proof -
  let ?i = "attr e ''toolCallId''"
  obtain tc where tc: "tool_call_in ?i m = Some tc" using assms(2) by (auto simp: issued_def)
  let ?b = "function_field ''name'' (fields_of tc) \<noteq> attr e ''toolCallName''"
  let ?m = "update_tool_call ?i (restart_tool_call e ?b) m"
  have l: "leaves ''id'' (restart_tool_call e ?b)" by (simp add: leaves_restart)
  have tc': "tool_call_in ?i ?m = Some (JObj (restart_tool_call e ?b (fields_of tc)))"
    by (simp add: tool_call_in_update [OF l] tc)
  have m: "replayed_start e m = (if carries_metadata e \<or> ?b then ?m else m)"
    by (simp add: replayed_start_def Let_def tc)
  have "replayed_start e ?m = ?m"
    using replayed_name [OF tc refl] restart_twice [OF assms(1), of ?b]
    by (simp add: replayed_start_def Let_def tc' update_tool_call_twice [OF l])
  with m show ?thesis by (simp split: if_splits)
qed

lemma replayed_start_new:
  assumes "plain_metadata e" and "\<not> issued (attr e ''toolCallId'') m"
  shows "replayed_start e (add_tool_call e b m) = add_tool_call e b m"
proof -
  let ?i = "attr e ''toolCallId''"
  let ?t = "if b \<and> \<not> nullish (attr e ''subagentRunId'') \<and> oget m ''subagentRunId'' = JUndef
    then oset ''subagentRunId'' (attr e ''subagentRunId'') m else m"
  let ?tcs = "elements (oget m ''toolCalls'')"
  have add: "add_tool_call e b m = oset ''toolCalls'' (JArr (?tcs @ [JObj (new_tool_call e)])) ?t"
    by (simp add: add_tool_call_def Let_def)
  have none: "tc \<in> set ?tcs \<Longrightarrow> jprop tc ''id'' \<noteq> ?i" for tc
    using assms(2) by (auto simp: issued_def tool_call_in_def find_None_iff)
  have id: "oget (new_tool_call e) ''id'' = ?i" by (simp add: new_tool_call_def applyEventMetadata_def)
  have "find (\<lambda>tc. jprop tc ''id'' = ?i) (?tcs @ [JObj (new_tool_call e)]) = Some (JObj (new_tool_call e))"
    using none id by (auto simp: find_append find_None_iff split: option.split dest!: find_ref_Some_set)
  then have tc: "tool_call_in ?i (add_tool_call e b m) = Some (JObj (new_tool_call e))"
    by (simp add: add tool_call_in_def)
  have name: "function_field ''name'' (new_tool_call e) = attr e ''toolCallName''"
    by (simp add: new_tool_call_def applyEventMetadata_def function_field_def)
  have "restart_tool_call e False (new_tool_call e) = new_tool_call e"
    using applyEventMetadata_twice [OF assms(1)] by (simp add: restart_tool_call_def new_tool_call_def)
  moreover have "update_first (\<lambda>tc. jprop tc ''id'' = ?i) f (xs @ [JObj (new_tool_call e)]) = xs @ [f (JObj (new_tool_call e))]"
    if "\<And>tc. tc \<in> set xs \<Longrightarrow> jprop tc ''id'' \<noteq> ?i" for f xs
    using that id by (induction xs) auto
  ultimately have "update_tool_call ?i (restart_tool_call e False) (add_tool_call e b m) = add_tool_call e b m"
    using none by (simp add: update_tool_call_def add oset_oset)
  then show ?thesis by (simp add: replayed_start_def Let_def tc name)
qed

lemma issued_replayed: "issued i (replayed_start e m) = issued i m"
  using keeps_call_replayed by (rule keeps_issued)

lemma set_update_first_cases: "x \<in> set (update_first P f xs) \<Longrightarrow> x \<in> set xs \<or> (\<exists>y \<in> set xs. x = f y)"
  by (induction xs) (auto split: if_splits)

lemma chat_tool_start_twice:
  assumes "plain_metadata e"
  shows "chat_tool_start e (chat_tool_start e ms) = chat_tool_start e ms"
proof -
  let ?i = "attr e ''toolCallId''" and ?p = "attr e ''parentMessageId''"
  show ?thesis
  proof (cases "list_ex (issued ?i) ms")
    case True
    have "update_first (issued ?i) (replayed_start e) (update_first (issued ?i) (replayed_start e) ms) =
        update_first (issued ?i) (replayed_start e) ms"
      by (simp add: update_first_twice issued_replayed)
        (rule update_first_cong, simp add: replayed_start_twice [OF assms])
    moreover have "list_ex (issued ?i) (update_first (issued ?i) (replayed_start e) ms)"
      using True by (induction ms) (auto simp: issued_replayed)
    ultimately show ?thesis using True by (simp add: chat_tool_start_def Let_def)
  next
    case False
    have again: "chat_tool_start e ms' = ms'"
      if "list_ex (issued ?i) ms'" and "\<And>x. x \<in> set ms' \<Longrightarrow> issued ?i x \<Longrightarrow> \<exists>b m. x = add_tool_call e b m \<and> \<not> issued ?i m"
      for ms'
    proof -
      have "update_first (issued ?i) (replayed_start e) ms' = ms'"
        using that(2) replayed_start_new [OF assms] by (intro update_first_ident) metis
      with that(1) show ?thesis by (simp add: chat_tool_start_def Let_def)
    qed
    have new: "issued ?i (add_tool_call e b m)" for b m
    proof -
      have "JObj (new_tool_call e) \<in> set (elements (oget (add_tool_call e b m) ''toolCalls''))"
        by (simp add: add_tool_call_def Let_def)
      moreover have "jprop (JObj (new_tool_call e)) ''id'' = ?i" by (simp add: new_tool_call_def applyEventMetadata_def)
      ultimately show ?thesis unfolding issued_def tool_call_in_def find_None_iff by blast
    qed
    have fresh: "\<not> issued ?i (fresh_assistant x)" for x by (simp add: issued_def tool_call_in_def fresh_assistant_def)
    show ?thesis
    proof (cases "truthy ?p \<and> map_option (\<lambda>m. oget m ''role'') (find (has_id ?p) ms) = Some (JStr ''assistant'')")
      case True
      then have start: "chat_tool_start e ms = update_first (has_id ?p) (add_tool_call e False) ms"
        using False by (simp add: chat_tool_start_def Let_def)
      have ex: "find P xs \<noteq> None \<Longrightarrow> (\<And>x. Q (f x)) \<Longrightarrow> list_ex Q (update_first P f xs)" for P Q f and xs :: "jobj list"
        by (induction xs) auto
      have "list_ex (issued ?i) (chat_tool_start e ms)" unfolding start using True new by (intro ex) auto
      moreover have "\<exists>b m. x = add_tool_call e b m \<and> \<not> issued ?i m" if "x \<in> set (chat_tool_start e ms)" "issued ?i x" for x
        using that set_update_first_cases [of x] False unfolding start by (fastforce simp: list_ex_iff)
      ultimately show ?thesis by (rule again)
    next
      case notp: False
      let ?new = "if truthy ?p \<and> \<not> list_ex (has_id ?p) ms then ?p else ?i"
      have "chat_tool_start e ms = ms @ [add_tool_call e (\<not> list_ex (has_id ?new) ms) (fresh_assistant ?new)]"
        unfolding chat_tool_start_def Let_def fresh_assistant_def using False notp by (simp only: if_False)
      then obtain b x where start: "chat_tool_start e ms = ms @ [add_tool_call e b (fresh_assistant x)]" by blast
      show ?thesis
      proof (rule again)
        show "list_ex (issued ?i) (chat_tool_start e ms)" by (simp add: start new)
        fix y assume "y \<in> set (chat_tool_start e ms)" "issued ?i y"
        with False have "y = add_tool_call e b (fresh_assistant x)" by (auto simp: start list_ex_iff)
        then show "\<exists>b m. y = add_tool_call e b m \<and> \<not> issued ?i m" using fresh by blast
      qed
    qed
  qed
qed

subsection \<open>Activities and results\<close>

lemma member_update_first: "m \<in> set ms \<Longrightarrow> (P m \<Longrightarrow> f m = m) \<Longrightarrow> m \<in> set (update_first P f ms)"
  by (induction ms) auto

lemma member_update_other: "m \<in> set ms \<Longrightarrow> find P ms = Some x \<Longrightarrow> x \<noteq> m \<Longrightarrow> m \<in> set (update_first P f ms)"
  by (induction ms) (auto split: if_splits)

lemma step_keeps_activity:
  assumes m: "m \<in> set ms" "activity m" "oget m ''toolCalls'' = JUndef"
    and e: "etype e \<notin> {MESSAGES_SNAPSHOT, ACTIVITY_SNAPSHOT, ACTIVITY_DELTA}"
  shows "m \<in> set (chat_message_step patch e ms)"
proof -
  have guarded: "m \<in> set (update_first P (unless_activity f) ms)" for P f
    using m by (intro member_update_first) (simp_all add: unless_activity_def)
  have "\<not> issued i m" for i using m(3) by (simp add: issued_def tool_call_in_def)
  then have tool: "m \<in> set (update_first (issued i) f ms)"
    "m \<in> set (update_first (\<lambda>m. Q m \<and> issued i m) f ms)" for i f Q
    using m(1) by (auto intro: member_update_first)
  have parent: "m \<in> set (update_first (has_id p) f ms)"
    if "map_option (\<lambda>m. oget m ''role'') (find (has_id p) ms) = Some (JStr ''assistant'')" for p f
    using that m by (auto simp: activity_def intro: member_update_other)
  show ?thesis
  proof (cases "etype e")
    case RUN_STARTED
    then show ?thesis
      using m(1) chat_add_missing_appends [of "map (\<lambda>m. without_null_tag (fields_of m))
          (elements (jprop (attr e ''input'') ''messages''))" ms] by (auto simp: chat_message_step_def)
  next
    case TOOL_CALL_RESULT
    have "set ms \<subseteq> set (chat_result e ms)"
      by (auto simp: chat_result_def Let_def) (metis UnE append_take_drop_id set_append)
    with TOOL_CALL_RESULT m(1) show ?thesis by (auto simp: chat_message_step_def)
  next
    case TOOL_CALL_START
    then show ?thesis
      using m(1) tool parent by (simp add: chat_message_step_def chat_tool_start_def Let_def)
  qed (use m(1) e guarded tool in \<open>simp_all add: chat_message_step_def chat_start_def chat_encrypted_def Let_def\<close>)
qed

lemma find_index_append:
  "\<not> list_ex P pre \<Longrightarrow> P m \<Longrightarrow> find_index P (pre @ m # post) = Some (length pre)"
  by (induction pre) auto

lemma result_after_owner:
  assumes "ms = pre @ m # tools @ rest" and "oget m ''role'' = JStr ''assistant''" and "issued i m"
    and "\<not> list_ex (\<lambda>x. oget x ''role'' = JStr ''assistant'' \<and> issued i x) pre"
    and "list_all (\<lambda>x. oget x ''role'' = JStr ''tool'') tools"
    and "rest = [] \<or> oget (hd rest) ''role'' \<noteq> JStr ''tool''" and "attr e ''toolCallId'' = i"
  shows "chat_result e ms = pre @ m # tools @ tool_message_of e # rest"
proof -
  have "find_index (\<lambda>x. oget x ''role'' = JStr ''assistant'' \<and> tool_call_in i x \<noteq> None) ms = Some (length pre)"
    unfolding assms(1) by (rule find_index_append) (use assms(2-4) in \<open>simp_all add: issued_def\<close>)
  moreover have "takeWhile (\<lambda>x. oget x ''role'' = JStr ''tool'') (tools @ rest) = tools"
  proof -
    have "takeWhile (\<lambda>x. oget x ''role'' = JStr ''tool'') rest = []" using assms(6) by (cases rest) auto
    with assms(5) show ?thesis by (simp add: takeWhile_append2 list_all_iff)
  qed
  ultimately have "result_position i ms = Suc (length pre) + length tools"
    by (simp add: result_position_def assms(1))
  with assms(1,7) show ?thesis by (simp add: chat_result_def Let_def)
qed

lemma result_without_owner:
  assumes "\<not> list_ex (\<lambda>x. oget x ''role'' = JStr ''assistant'' \<and> issued (attr e ''toolCallId'') x) ms"
  shows "chat_result e ms = ms @ [tool_message_of e]"
proof -
  have "find_index (\<lambda>x. oget x ''role'' = JStr ''assistant'' \<and> tool_call_in (attr e ''toolCallId'') x \<noteq> None) ms = None"
    using assms by (auto simp: find_index_None find_None_iff list_ex_iff issued_def)
  then show ?thesis by (simp add: chat_result_def result_position_def)
qed

lemma conversation_step:
  assumes "observing env" and "unshared st" and "mergeable e st" and "apply_event env st e = Inr (out, st')"
  shows "conversation st' = chat_message_step (applyPatch env) e (conversation st)"
  using arg_cong [OF conjunct1 [OF event_refines [OF assms]], of chat_messages] by (simp add: chat_step_def)

lemma conversation_run:
  assumes "observing env" and "unshared st" and "accepts (apply_event env) st es"
    and "\<not> list_ex (\<lambda>e. etype e = MESSAGES_SNAPSHOT) es"
  shows "conversation (final_state (apply_event env) st es) =
    chat_messages (fold (chat_step (applyPatch env)) es (chat_of st))"
  using run_refines [OF assms(1-3) no_snapshot_mergeable [OF assms(4)]] by (metis chat_of_simps(1))

subsection \<open>A stale reference\<close>

lemma conversation_replaced:
  assumes "m_messages m = Some ms"
  shows "conversation (applyMutation m st) = ms" and "r < next_ref st \<Longrightarrow> r \<notin> set (message_refs (applyMutation m st))"
proof -
  obtain rs st1 where n: "new_objects ms st = (rs, st1)" by fastforce
  have "conversation (applyMutation m st) = map (heap st1) rs"
    by (simp add: applyMutation_def assms n conversation_def publish_state_def Let_def)
  with map_heap_new_objects [OF n] show "conversation (applyMutation m st) = ms" by simp
  show "r < next_ref st \<Longrightarrow> r \<notin> set (message_refs (applyMutation m st))"
    using new_objects_refs [OF n] by (auto simp: applyMutation_def assms n publish_state_def Let_def)
qed

lemma write_elsewhere: "r \<notin> set (message_refs st) \<Longrightarrow> conversation (write_object r f st) = conversation st"
  by (auto simp: conversation_def write_object_def)

lemma observing_accepts:
  assumes "observing env" and "list_all (\<lambda>e. apply_fault e = None) es"
  shows "accepts (apply_event env) st es"
  using assms(2)
proof (induction es arbitrary: st)
  case (Cons e es)
  obtain st1 where "apply_switch env e (observed env (OnEvent e) st) = Inr st1"
    using switch_verdict [OF assms(1), of e "observed env (OnEvent e) st"] Cons.prems by auto
  then have "apply_event env st e = Inr (emitUpdates st1)" by (simp add: apply_event_def observing_run_hook [OF assms(1)])
  with Cons show ?case by (cases "emitUpdates st1") (simp add: accepts_Cons)
qed simp

subsection \<open>Properties\<close>

text \<open>
  A concrete environment: one subscriber that records the hooks it sees, and a patch function that
  overwrites the fields the patch names.
\<close>

definition recorder :: "hook_call list subscriber" where
  "recorder w call ms st = (call # w, NoMutation)"

definition demo_patch :: "js \<Rightarrow> js \<Rightarrow> js option" where
  "demo_patch doc delta = (if is_object delta then Some (JObj (spread (fields_of doc) (fields_of delta))) else None)"

definition demo_env :: "hook_call list apply_env" where
  "demo_env = \<lparr>subscribers = [recorder], isTestEnvironment = False, applyPatch = demo_patch\<rparr>"

lemma observing_demo: "observing demo_env"
  by (simp add: observing_def demo_env_def recorder_def)

definition demo_start :: "hook_call list apply_state" where
  "demo_start = initial_apply_state [[(''id'', JStr ''u1''), (''role'', JStr ''user''), (''content'', JStr ''hi'')]]
     (JObj []) [] []"

lemma unshared_demo: "unshared demo_start"
  by (simp add: demo_start_def unshared_initial)

definition demo_stream :: "event list" where
  "demo_stream =
     [ev TEXT_MESSAGE_START [(''messageId'', ''m1'')],
      ev TOOL_CALL_START [(''toolCallId'', ''t1''), (''toolCallName'', ''f''), (''parentMessageId'', ''m1'')],
      ev TEXT_MESSAGE_CONTENT [(''messageId'', ''m1''), (''delta'', ''he'')],
      ev TOOL_CALL_ARGS [(''toolCallId'', ''t1''), (''delta'', ''{}'')],
      ev TEXT_MESSAGE_CONTENT [(''messageId'', ''m1''), (''delta'', ''llo'')],
      ev TEXT_MESSAGE_START [(''messageId'', ''m2'')],
      ev TOOL_CALL_START [(''toolCallId'', ''t2''), (''toolCallName'', ''g'')],
      ev TOOL_CALL_RESULT [(''messageId'', ''r1''), (''toolCallId'', ''t1''), (''content'', ''ok'')],
      ev TEXT_MESSAGE_END [(''messageId'', ''m1'')]]"

definition demo_mid :: "hook_call list apply_state" where
  "demo_mid = final_state (apply_event demo_env) demo_start (take 2 demo_stream)"

definition demo_chat :: chat where
  "demo_chat = \<lparr>chat_messages = [[(''id'', JStr ''u1''), (''role'', JStr ''user''), (''content'', JStr ''hi'')]],
     chat_state = JObj [], chat_started = [], chat_answered = [], chat_interrupts = []\<rparr>"

lemma chat_of_demo: "chat_of demo_start = demo_chat"
  by (simp add: chat_of_def demo_start_def demo_chat_def) (simp add: initial_apply_state_def Let_def new_objects_eq)

lemma demo_run:
  assumes "list_all (\<lambda>e. apply_fault e = None \<and> etype e \<noteq> MESSAGES_SNAPSHOT) es"
  shows "accepts (apply_event demo_env) demo_start es"
    and "chat_of (final_state (apply_event demo_env) demo_start es) = fold (chat_step demo_patch) es demo_chat"
    and "unshared (final_state (apply_event demo_env) demo_start es)"
proof -
  have acc: "accepts (apply_event demo_env) demo_start es"
    using assms by (intro observing_accepts observing_demo) (simp add: list_all_iff)
  have "\<not> list_ex (\<lambda>e. etype e = MESSAGES_SNAPSHOT) es" using assms by (auto simp: list_all_iff list_ex_iff)
  from run_refines [OF observing_demo unshared_demo acc no_snapshot_mergeable [OF this]] acc
  show "accepts (apply_event demo_env) demo_start es"
    and "chat_of (final_state (apply_event demo_env) demo_start es) = fold (chat_step demo_patch) es demo_chat"
    and "unshared (final_state (apply_event demo_env) demo_start es)"
    by (simp_all add: chat_of_demo) (simp add: demo_env_def)
qed

lemma demo_stream_ok: "list_all (\<lambda>e. apply_fault e = None \<and> etype e \<noteq> MESSAGES_SNAPSHOT) demo_stream"
  by code_simp

lemma demo_mid_chat:
  "unshared demo_mid" "conversation demo_mid = chat_messages (fold (chat_step demo_patch) (take 2 demo_stream) demo_chat)"
  "final_state (apply_event demo_env) demo_mid (drop 2 demo_stream) = final_state (apply_event demo_env) demo_start demo_stream"
  "accepts (apply_event demo_env) demo_mid (drop 2 demo_stream)"
proof -
  have "list_all (\<lambda>e. apply_fault e = None \<and> etype e \<noteq> MESSAGES_SNAPSHOT) (take 2 demo_stream)" by code_simp
  note mid = demo_run [OF this]
  show "unshared demo_mid" using mid(3) by (simp add: demo_mid_def)
  show "conversation demo_mid = chat_messages (fold (chat_step demo_patch) (take 2 demo_stream) demo_chat)"
    unfolding demo_mid_def using arg_cong [OF mid(2), of chat_messages] by simp
  have split: "accepts (apply_event demo_env) demo_start (take 2 demo_stream @ drop 2 demo_stream)"
    using demo_run(1) [OF demo_stream_ok] by simp
  then show "accepts (apply_event demo_env) demo_mid (drop 2 demo_stream)"
    unfolding accepts_append demo_mid_def by simp
  show "final_state (apply_event demo_env) demo_mid (drop 2 demo_stream) = final_state (apply_event demo_env) demo_start demo_stream"
    using final_state_append [OF mid(1), of "drop 2 demo_stream"] by (simp add: demo_mid_def)
qed



text \<open>
  C29. A consumer that keeps the last messages and the last state it was sent has, after every
  event, exactly the reducer's messages and state: whatever the subscribers do, nothing changes
  without being emitted and nothing is emitted that is not the current value.
\<close>

theorem emissions_mirror_the_reducer:
  assumes "list_all (yields_state env) es"
  shows "fold consume (emitted (apply_event env) (initial_apply_state msgs s0 ints w) es) (msgs, s0) =
    (conversation (final_state (apply_event env) (initial_apply_state msgs s0 ints w) es),
     app_state (final_state (apply_event env) (initial_apply_state msgs s0 ints w) es))"
  using run_mirrored [OF settled_initial, of es env msgs s0 ints w] assms by (simp add: list_all_iff)

theorem emissions_mirror_the_reducer_witness:
  "fst (fold consume (emitted (apply_event demo_env) demo_start demo_stream) (conversation demo_start, JObj []))
     = conversation (final_state (apply_event demo_env) demo_start demo_stream)"
proof -
  have "list_all (yields_state demo_env) demo_stream"
    by (simp add: demo_stream_def yields_state_def demo_env_def demo_patch_def ev_def)
  from emissions_mirror_the_reducer [OF this] show ?thesis by (simp add: demo_start_def)
qed

text \<open>
  C30. Streamed text accumulates: under observing subscribers the message a stream addresses ends
  with its old text followed by the deltas addressed to it, in order, however the stream is
  interleaved with other messages, tool calls, results, steps and state, and keeps its role.
\<close>

theorem streamed_text_accumulates:
  assumes "observing env" and "unshared st" and "accepts (apply_event env) st es"
    and "find (has_id i) (conversation st) = Some m" and "\<not> activity m"
    and "\<not> list_ex (rebuilds i) es"
  shows "\<exists>m'. find (has_id i) (conversation (final_state (apply_event env) st es)) = Some m' \<and>
    oget m' ''role'' = oget m ''role'' \<and>
    buffer_of m' = buffer_of m @ concat (map (\<lambda>e. text_of (attr e ''delta'')) (filter (streams_to i) es))"
proof -
  have nr: "\<And>e. e \<in> set es \<Longrightarrow> \<not> rebuilds i e" using assms(6) by (simp add: list_ex_iff)
  then have "\<not> list_ex (\<lambda>e. etype e = MESSAGES_SNAPSHOT) es" by (auto simp: list_ex_iff rebuilds_def)
  then have "conversation (final_state (apply_event env) st es) =
      chat_messages (fold (chat_step (applyPatch env)) es (chat_of st))" by (rule conversation_run [OF assms(1-3)])
  with run_continues [OF _ assms(5) nr, where c = "chat_of st" and patch = "applyPatch env"] assms(4,5) show ?thesis
    by (simp add: continues_def)
qed

theorem streamed_text_accumulates_witness:
  "map_option buffer_of (find (has_id (JStr ''m1''))
     (conversation (final_state (apply_event demo_env) demo_mid (drop 2 demo_stream)))) = Some ''hello''"
proof -
  have other: "\<not> list_ex (rebuilds (JStr ''m1'')) (drop 2 demo_stream)"
    and deltas: "concat (map (\<lambda>e. text_of (attr e ''delta'')) (filter (streams_to (JStr ''m1'')) (drop 2 demo_stream))) = ''hello''"
    by code_simp+
  have "map_option (\<lambda>m. (activity m, buffer_of m)) (find (has_id (JStr ''m1'')) (conversation demo_mid)) = Some (False, [])"
    unfolding demo_mid_chat(2) by code_simp
  then obtain m where m: "find (has_id (JStr ''m1'')) (conversation demo_mid) = Some m" "\<not> activity m" "buffer_of m = []"
    by auto
  from streamed_text_accumulates [OF observing_demo demo_mid_chat(1,4) m(1,2) other] m(3) deltas show ?thesis by auto
qed

text \<open>
  Streamed arguments accumulate: the arguments of a tool call are those it had followed by the
  deltas addressed to it, in order; replayed starts, other calls of the same message and every
  other event leave them alone.
\<close>

theorem tool_call_arguments_accumulate:
  assumes "observing env" and "unshared st" and "accepts (apply_event env) st es"
    and "call_at i (conversation st) = Some tc"
    and "\<not> list_ex (\<lambda>e. etype e = MESSAGES_SNAPSHOT \<or> etype e = ACTIVITY_SNAPSHOT) es"
  shows "map_option args_text (call_at i (conversation (final_state (apply_event env) st es))) =
    Some (args_text tc @ concat (map (\<lambda>e. text_of (attr e ''delta'')) (filter (argues_to i) es)))"
proof -
  have "\<not> list_ex (\<lambda>e. etype e = MESSAGES_SNAPSHOT) es" using assms(5) by (auto simp: list_ex_iff)
  note conv = conversation_run [OF assms(1-3) this]
  have "\<And>e. e \<in> set es \<Longrightarrow> etype e \<notin> {MESSAGES_SNAPSHOT, ACTIVITY_SNAPSHOT}"
    using assms(5) by (auto simp: list_ex_iff)
  from run_args [of i "chat_of st" tc es "applyPatch env", OF _ this] assms(4) show ?thesis by (simp add: conv)
qed

theorem tool_call_arguments_accumulate_witness:
  "map_option args_text (call_at (JStr ''t1'')
     (conversation (final_state (apply_event demo_env) demo_mid (drop 2 demo_stream)))) = Some ''{}''"
proof -
  have "map_option args_text (call_at (JStr ''t1'') (conversation demo_mid)) = Some []"
    unfolding demo_mid_chat(2) by code_simp
  then obtain tc where tc: "call_at (JStr ''t1'') (conversation demo_mid) = Some tc" "args_text tc = []" by auto
  have "\<not> list_ex (\<lambda>e. etype e = MESSAGES_SNAPSHOT \<or> etype e = ACTIVITY_SNAPSHOT) (drop 2 demo_stream)"
    and "concat (map (\<lambda>e. text_of (attr e ''delta'')) (filter (argues_to (JStr ''t1'')) (drop 2 demo_stream))) = ''{}''"
    by code_simp+
  with tool_call_arguments_accumulate [OF observing_demo demo_mid_chat(1,4) tc(1)] tc(2) show ?thesis by simp
qed

text \<open>
  Applying the same tool-call start a second time changes neither the conversation nor the
  tally, whichever way the first one attached the call.
\<close>

theorem tool_call_start_idempotent:
  assumes "observing env" and "unshared st" and "etype e = TOOL_CALL_START" and "plain_metadata e"
    and "apply_event env st e = Inr (out1, st1)" and "apply_event env st1 e = Inr (out2, st2)"
  shows "chat_of st2 = chat_of st1"
proof -
  have m: "mergeable e x" for x :: "'a apply_state" using assms(3) by (simp add: mergeable_def)
  note first = event_refines [OF assms(1,2) m assms(5)]
  note second = event_refines [OF assms(1) conjunct2 [OF first] m assms(6)]
  have "chat_step (applyPatch env) e (chat_step (applyPatch env) e c) = chat_step (applyPatch env) e c" for c
    using assms(3) chat_tool_start_twice [OF assms(4)]
    by (simp add: chat_step_def chat_message_step_def chat_state_step_def sadd_def)
  with first second show ?thesis by simp
qed

theorem tool_call_start_idempotent_witness:
  "let e = demo_stream ! 1;
       st1 = snd (projr (apply_event demo_env demo_mid e)); st2 = snd (projr (apply_event demo_env st1 e))
   in chat_of st2 = chat_of st1"
proof -
  let ?e = "demo_stream ! 1"
  have e: "etype ?e = TOOL_CALL_START" "plain_metadata ?e" "apply_fault ?e = None" by code_simp+
  have ok: "\<exists>out st'. apply_event demo_env st ?e = Inr (out, st')" for st
    using observing_accepts [OF observing_demo, of "[?e]" st] e(3) by (auto simp: accepts_Cons)
  obtain out1 st1 where 1: "apply_event demo_env demo_mid ?e = Inr (out1, st1)" using ok by blast
  obtain out2 st2 where 2: "apply_event demo_env st1 ?e = Inr (out2, st2)" using ok by blast
  from tool_call_start_idempotent [OF observing_demo demo_mid_chat(1) e(1,2) 1 2] 1 2 show ?thesis by (simp add: Let_def)
qed

text \<open>
  C32. A tool result stands directly behind the assistant message that issued the call and the
  results already recorded there, before any later message; with no such message it is appended.
\<close>

theorem tool_result_follows_its_call:
  assumes "observing env" and "unshared st" and "etype e = TOOL_CALL_RESULT"
    and "apply_event env st e = Inr (out, st')"
  shows "(\<forall>pre m tools rest. conversation st = pre @ m # tools @ rest \<and>
            oget m ''role'' = JStr ''assistant'' \<and> issued (attr e ''toolCallId'') m \<and>
            \<not> list_ex (\<lambda>x. oget x ''role'' = JStr ''assistant'' \<and> issued (attr e ''toolCallId'') x) pre \<and>
            list_all (\<lambda>x. oget x ''role'' = JStr ''tool'') tools \<and>
            (rest = [] \<or> oget (hd rest) ''role'' \<noteq> JStr ''tool'')
          \<longrightarrow> conversation st' = pre @ m # tools @ tool_message_of e # rest) \<and>
         (\<not> list_ex (\<lambda>x. oget x ''role'' = JStr ''assistant'' \<and> issued (attr e ''toolCallId'') x) (conversation st)
          \<longrightarrow> conversation st' = conversation st @ [tool_message_of e])"
proof -
  have m: "mergeable e st" using assms(3) by (simp add: mergeable_def)
  have "conversation st' = chat_result e (conversation st)"
    using conversation_step [OF assms(1,2) m assms(4)] assms(3) by (simp add: chat_message_step_def)
  then show ?thesis using result_after_owner [of "conversation st" _ _ _ _ "attr e ''toolCallId''" e]
      result_without_owner [of e "conversation st"] by auto
qed

theorem tool_result_follows_its_call_witness:
  "conversation (snd (projr (apply_event demo_env demo_start
     (ev TOOL_CALL_RESULT [(''messageId'', ''r1''), (''toolCallId'', ''t9''), (''content'', ''ok'')]))))
   = [[(''id'', JStr ''u1''), (''role'', JStr ''user''), (''content'', JStr ''hi'')],
      [(''id'', JStr ''r1''), (''toolCallId'', JStr ''t9''), (''role'', JStr ''tool''), (''content'', JStr ''ok'')]]"
proof -
  let ?e = "ev TOOL_CALL_RESULT [(''messageId'', ''r1''), (''toolCallId'', ''t9''), (''content'', ''ok'')]"
  have e: "etype ?e = TOOL_CALL_RESULT" "apply_fault ?e = None" by code_simp+
  obtain out st' where s: "apply_event demo_env demo_start ?e = Inr (out, st')"
    using observing_accepts [OF observing_demo, of "[?e]" demo_start] e(2) by (auto simp: accepts_Cons)
  have conv: "conversation demo_start = chat_messages demo_chat" using chat_of_demo by (metis chat_of_simps(1))
  have "\<not> list_ex (\<lambda>x. oget x ''role'' = JStr ''assistant'' \<and> issued (attr ?e ''toolCallId'') x) (conversation demo_start)"
    unfolding conv by code_simp
  with tool_result_follows_its_call [OF observing_demo unshared_demo e(1) s]
  have "conversation st' = chat_messages demo_chat @ [tool_message_of ?e]" using conv by simp
  moreover have "chat_messages demo_chat @ [tool_message_of ?e] =
     [[(''id'', JStr ''u1''), (''role'', JStr ''user''), (''content'', JStr ''hi'')],
      [(''id'', JStr ''r1''), (''toolCallId'', JStr ''t9''), (''role'', JStr ''tool''), (''content'', JStr ''ok'')]]"
    by code_simp
  ultimately show ?thesis using s by simp
qed

text \<open>
  C31. A message snapshot is authoritative and not destructive: over distinct identifiers the new
  conversation holds exactly the snapshot's messages and the client-only ones it cannot own, its
  identifiers are again distinct, and applying the snapshot once more changes nothing.
\<close>

theorem snapshot_replaces_what_it_owns:
  assumes "observing env" and "unshared st" and "etype e = MESSAGES_SNAPSHOT"
    and "distinct (message_ids (conversation st))" and "distinct (message_ids (snapshot_messages e))"
    and "apply_event env st e = Inr (out, st')" and "apply_event env st' e = Inr (out2, st2)"
  shows "set (conversation st') = set (snapshot_messages e) \<union> {m \<in> set (conversation st). client_only e m} \<and>
    distinct (message_ids (conversation st')) \<and> conversation st2 = conversation st'"
proof -
  have m: "mergeable e st" using assms(4) by (simp add: mergeable_def message_ids_def)
  have 1: "conversation st' = chat_snapshot e (conversation st)"
    using conversation_step [OF assms(1,2) m assms(6)] assms(3) by (simp add: chat_message_step_def)
  note merged = snapshot_merged [OF assms(5,4)] and again = snapshot_again [OF assms(5,4)]
  have "mergeable e st'" using merged(2) 1 by (simp add: mergeable_def message_ids_def)
  then have "conversation st2 = chat_snapshot e (conversation st')"
    using conversation_step [OF assms(1) _ _ assms(7)] event_refines [OF assms(1,2) m assms(6)] assms(3)
    by (simp add: chat_message_step_def)
  with 1 merged again show ?thesis by simp
qed

definition demo_snapshot :: event where
  "demo_snapshot = Event MESSAGES_SNAPSHOT
     [(''messages'', JArr [JObj [(''id'', JStr ''u1''), (''role'', JStr ''user''), (''content'', JStr ''bye'')]])]"

theorem snapshot_replaces_what_it_owns_witness:
  "set (conversation (snd (projr (apply_event demo_env demo_start demo_snapshot)))) =
   {[(''id'', JStr ''u1''), (''role'', JStr ''user''), (''content'', JStr ''bye'')]}"
proof -
  let ?e = demo_snapshot
  have e: "etype ?e = MESSAGES_SNAPSHOT" "apply_fault ?e = None" "distinct (message_ids (snapshot_messages ?e))" by code_simp+
  have ok: "\<exists>out st'. apply_event demo_env st ?e = Inr (out, st')" for st
    using observing_accepts [OF observing_demo, of "[?e]" st] e(2) by (auto simp: accepts_Cons)
  obtain out st' where 1: "apply_event demo_env demo_start ?e = Inr (out, st')" using ok by blast
  obtain out2 st2 where 2: "apply_event demo_env st' ?e = Inr (out2, st2)" using ok by blast
  have conv: "conversation demo_start = chat_messages demo_chat" using chat_of_demo by (metis chat_of_simps(1))
  have d: "distinct (message_ids (conversation demo_start))" unfolding conv by code_simp
  have none: "filter (client_only ?e) (chat_messages demo_chat) = []"
    and snap: "snapshot_messages ?e = [[(''id'', JStr ''u1''), (''role'', JStr ''user''), (''content'', JStr ''bye'')]]"
    by code_simp+
  have "{m \<in> set (conversation demo_start). client_only ?e m} = {}"
    using none conv by (simp add: filter_empty_conv)
  with snapshot_replaces_what_it_owns [OF observing_demo unshared_demo e(1) d e(3) 1 2] 1 snap show ?thesis by simp
qed

text \<open>
  The pending tool calls reported at the end of a run are, without duplicates, the calls this
  run started and did not answer; calls of earlier runs do not count.
\<close>

theorem pending_calls_are_run_scoped:
  assumes "observing env" and "unshared st" and "etype start = RUN_STARTED"
    and "\<not> list_ex (\<lambda>e. etype e = RUN_STARTED) es"
    and "accepts (apply_event env) st (start # es)"
    and "snapshots_mergeable (applyPatch env) (chat_of st) (start # es)"
    and "elements (jprop (attr fin ''outcome'') ''pendingToolCallIds'') = []"
  shows "distinct (pendingToolCallIdsOf fin (final_state (apply_event env) st (start # es))) \<and>
    set (pendingToolCallIdsOf fin (final_state (apply_event env) st (start # es))) =
      tool_ids TOOL_CALL_START es - tool_ids TOOL_CALL_RESULT es"
proof -
  let ?st = "final_state (apply_event env) st (start # es)" and ?c = "chat_step (applyPatch env) start (chat_of st)"
  have "chat_of ?st = fold (chat_step (applyPatch env)) es ?c"
    using run_refines [OF assms(1,2,5,6)] by simp
  then have run: "runToolCallIds ?st = chat_started (fold (chat_step (applyPatch env)) es ?c)"
    "answeredToolCallIds ?st = chat_answered (fold (chat_step (applyPatch env)) es ?c)"
    by (metis chat_of_simps(3), metis chat_of_simps(4))
  have c: "chat_started ?c = []" "chat_answered ?c = []" using assms(3) by (simp_all add: chat_step_def)
  have no: "\<And>e. e \<in> set es \<Longrightarrow> etype e \<noteq> RUN_STARTED" using assms(4) by (simp add: list_ex_iff)
  note t = tallies [OF no, where patch = "applyPatch env" and c = ?c, unfolded c]
  have "pendingToolCallIdsOf fin ?st = filter (\<lambda>i. i \<notin> set (answeredToolCallIds ?st)) (runToolCallIds ?st)"
    using assms(7) by (simp add: pendingToolCallIdsOf_def Let_def)
  with t run show ?thesis by auto
qed

theorem pending_calls_are_run_scoped_witness:
  "set (pendingToolCallIdsOf (ev RUN_FINISHED []) (final_state (apply_event demo_env) demo_start
      (ev RUN_STARTED [] # demo_stream))) = {JStr ''t2''}"
proof -
  let ?es = "ev RUN_STARTED [] # demo_stream"
  have ok: "list_all (\<lambda>e. apply_fault e = None \<and> etype e \<noteq> MESSAGES_SNAPSHOT) ?es"
    and s: "etype (ev RUN_STARTED []) = RUN_STARTED" and n: "\<not> list_ex (\<lambda>e. etype e = RUN_STARTED) demo_stream"
    and f: "elements (jprop (attr (ev RUN_FINISHED []) ''outcome'') ''pendingToolCallIds'') = []" by code_simp+
  have "\<not> list_ex (\<lambda>e. etype e = MESSAGES_SNAPSHOT) ?es" using ok by (auto simp: list_all_iff list_ex_iff)
  note m = no_snapshot_mergeable [OF this, of "applyPatch demo_env" "chat_of demo_start"]
  have "tool_ids TOOL_CALL_START demo_stream = {JStr ''t1'', JStr ''t2''}" "tool_ids TOOL_CALL_RESULT demo_stream = {JStr ''t1''}"
    by (simp_all add: demo_stream_def ev_def tool_ids_Cons tool_ids_def [of _ "[]"] insert_commute)
  with pending_calls_are_run_scoped [OF observing_demo unshared_demo s n demo_run(1) [OF ok] m f] show ?thesis by auto
qed



text \<open>
  C33. Activities stay structured: no event but an activity event or a message snapshot alters an
  activity message, even one that reuses its identifier.
\<close>

theorem activity_messages_protected:
  assumes "observing env" and "unshared st" and "apply_event env st e = Inr (out, st')"
    and "m \<in> set (conversation st)" and "activity m" and "oget m ''toolCalls'' = JUndef"
    and "etype e \<notin> {MESSAGES_SNAPSHOT, ACTIVITY_SNAPSHOT, ACTIVITY_DELTA}"
  shows "m \<in> set (conversation st')"
proof -
  have "mergeable e st" using assms(7) by (simp add: mergeable_def)
  from conversation_step [OF assms(1,2) this assms(3)] show ?thesis
    using step_keeps_activity [OF assms(4-7)] by simp
qed

definition demo_activity :: jobj where
  "demo_activity = [(''id'', JStr ''a1''), (''role'', JStr ''activity''), (''content'', JObj [])]"

theorem activity_messages_protected_witness:
  "demo_activity \<in> set (conversation (snd (projr (apply_event demo_env
      (initial_apply_state [demo_activity] JNull [] [])
      (ev TEXT_MESSAGE_CONTENT [(''messageId'', ''a1''), (''delta'', ''x'')])))))"
proof -
  let ?e = "ev TEXT_MESSAGE_CONTENT [(''messageId'', ''a1''), (''delta'', ''x'')]"
    and ?st = "initial_apply_state [demo_activity] JNull [] ([] :: hook_call list)"
  have e: "apply_fault ?e = None" "activity demo_activity" "oget demo_activity ''toolCalls'' = JUndef"
    "etype ?e \<notin> {MESSAGES_SNAPSHOT, ACTIVITY_SNAPSHOT, ACTIVITY_DELTA}" by code_simp+
  obtain out st' where s: "apply_event demo_env ?st ?e = Inr (out, st')"
    using observing_accepts [OF observing_demo, of "[?e]" ?st] e(1) by (auto simp: accepts_Cons)
  from activity_messages_protected [OF observing_demo unshared_initial s _ e(2-4)] s show ?thesis by simp
qed

text \<open>
  The known limitation of the reducer, made precise: a subscriber that replaces the message
  list from the content hook of a delta gets exactly its own list, and the delta is lost, because
  the handler writes through the reference it took before.
\<close>

theorem replacing_messages_loses_the_delta:
  assumes "bounded st" and "find_message (attr e ''messageId'') st = Some r" and "\<not> is_activity st r"
    and "runSubscribersWithMutation env (OnTyped e [(''textMessageBuffer'', JStr (buffer_of (heap st r)))])
           (world st) (conversation st) (app_state st) = Inr (w, m)"
    and "m_messages m = Some ms" and "\<not> m_stop m"
  shows "\<exists>st'. apply_text_message_content env e st = Inr st' \<and> conversation st' = ms"
proof -
  let ?st1 = "applyMutation m (st\<lparr>world := w\<rparr>)"
  have "r \<in> set (message_refs st)" using find_ref_Some_set assms(2) by (fastforce simp: find_message_def)
  with assms(1) have "r < next_ref (st\<lparr>world := w\<rparr>)" by (simp add: bounded_def)
  with conversation_replaced [OF assms(5), where st = "st\<lparr>world := w\<rparr>"]
  have "conversation (write_object r (append_delta e) ?st1) = ms" by (simp add: write_elsewhere)
  moreover have "apply_text_message_content env e st = Inr (publish (write_object r (append_delta e) ?st1))"
    using assms(2-4,6)
    by (simp add: apply_text_message_content_def message_content_def unless_stopped_def run_hook_def)
  ultimately show ?thesis by simp
qed

definition replacing_env :: "unit apply_env" where
  "replacing_env = \<lparr>subscribers = [\<lambda>w call ms st. (w, case call of
       OnTyped _ _ \<Rightarrow> Mutation \<lparr>m_messages = Some ms, m_state = JUndef, m_stop = False\<rparr> | _ \<Rightarrow> NoMutation)],
     isTestEnvironment = False, applyPatch = (\<lambda>_ _. None)\<rparr>"

theorem replacing_messages_loses_the_delta_witness:
  "\<exists>st'. apply_text_message_content replacing_env (ev TEXT_MESSAGE_CONTENT [(''messageId'', ''m1''), (''delta'', ''x'')])
       (initial_apply_state [[(''id'', JStr ''m1''), (''role'', JStr ''assistant''), (''content'', JStr ''old'')]] JNull [] ())
     = Inr st' \<and> conversation st' = [[(''id'', JStr ''m1''), (''role'', JStr ''assistant''), (''content'', JStr ''old'')]]"
proof -
  let ?e = "ev TEXT_MESSAGE_CONTENT [(''messageId'', ''m1''), (''delta'', ''x'')]"
    and ?ms = "[[(''id'', JStr ''m1''), (''role'', JStr ''assistant''), (''content'', JStr ''old'')]]"
  let ?st = "initial_apply_state ?ms JNull [] ()"
  have b: "bounded ?st" using unshared_initial [of ?ms JNull "[]" "()"] by (simp only: unshared_def)
  have f: "find_message (attr ?e ''messageId'') ?st = Some 0" "\<not> is_activity ?st 0" by code_simp+
  have "runSubscribersWithMutation replacing_env (OnTyped ?e ps) () (conversation ?st) (app_state ?st) =
      Inr ((), \<lparr>m_messages = Some ?ms, m_state = JUndef, m_stop = False\<rparr>)" for ps
    by (simp add: runSubscribersWithMutation_def replacing_env_def no_mutation_def)
  then show ?thesis
    using replacing_messages_loses_the_delta [OF b f, where env = replacing_env and w = "()"
        and m = "\<lparr>m_messages = Some ?ms, m_state = JUndef, m_stop = False\<rparr>" and ms = ?ms] by simp
qed

end
