(* ===== verification/AGUI_Compact.thy ===== *)
theory AGUI_Compact
  imports AGUI_Conversation "HOL-Library.Multiset"
begin

section \<open>Event compaction\<close>

text \<open>
  \<^verbatim>\<open>client/src/compact/compact.ts\<close>: \<open>compactEvents\<close> shortens a recorded stream. The
  deltas of a text message or a tool call become one event, the state events of a run become one
  snapshot, and events that arrive inside a stream are moved behind its end. The closure's maps
  and arrays are the state \<open>compact_state\<close>; the \<open>pending\<close> objects the maps hold are
  values, written back where the source mutates them. \<open>fast-json-patch\<close> is the parameter
  \<open>patch\<close>, as in the reducer.
\<close>

subsection \<open>Metadata of merged events\<close>

definition carryStartMetadata :: "event option \<Rightarrow> event \<Rightarrow> event" where
  "carryStartMetadata previous e =
     (case previous of
        None \<Rightarrow> e
      | Some p \<Rightarrow>
          let metadata = mergeMetadata (attr p ''metadata'') (attr e ''metadata'') in
          if metadata = JUndef then e else with_prop ''metadata'' metadata e)"

definition replaceStartFields :: "event option \<Rightarrow> event \<Rightarrow> event" where
  "replaceStartFields previous e =
     (let fs = without_prop ''metadata'' e;
          carried = (case previous of None \<Rightarrow> JUndef | Some p \<Rightarrow> attr p ''metadata'') in
      if carried = JUndef then fs else with_prop ''metadata'' carried fs)"

definition collapseMetadata :: "event list \<Rightarrow> js" where
  "collapseMetadata es = foldl (\<lambda>merged e. mergeMetadata merged (attr e ''metadata'')) JUndef es"

subsection \<open>Buffers\<close>

record pending_entity =
  p_start :: "event option"
  p_deltas :: "event list"
  p_end :: "event option"
  p_otherEvents :: "event list"
  p_postStartMetadata :: js

definition new_pending :: pending_entity where
  "new_pending = \<lparr>p_start = None, p_deltas = [], p_end = None, p_otherEvents = [], p_postStartMetadata = JUndef\<rparr>"

record compact_state =
  pendingTextMessages :: "(js \<times> pending_entity) list"
  pendingToolCalls :: "(js \<times> pending_entity) list"
  stateEvents :: "event list"
  compacted :: "event list"

definition initial_compact_state :: compact_state where
  "initial_compact_state =
     \<lparr>pendingTextMessages = [], pendingToolCalls = [], stateEvents = [], compacted = []\<rparr>"

text \<open>\<open>if (!map.has(id)) map.set(id, ...); const pending = map.get(id)!\<close>.\<close>

definition pending_of :: "js \<Rightarrow> (js \<times> pending_entity) list \<Rightarrow> pending_entity" where
  "pending_of i m = (case map_of m i of None \<Rightarrow> new_pending | Some p \<Rightarrow> p)"

definition add_start :: "event \<Rightarrow> pending_entity \<Rightarrow> pending_entity" where
  "add_start e p =
     (if p_deltas p = [] then p\<lparr>p_start := Some (carryStartMetadata (p_start p) e)\<rparr>
      else p\<lparr>p_start := Some (replaceStartFields (p_start p) e),
             p_postStartMetadata := mergeMetadata (p_postStartMetadata p) (attr e ''metadata'')\<rparr>)"

definition add_delta :: "event \<Rightarrow> pending_entity \<Rightarrow> pending_entity" where
  "add_delta e p =
     p\<lparr>p_deltas := p_deltas p @ [e],
       p_postStartMetadata := mergeMetadata (p_postStartMetadata p) (attr e ''metadata'')\<rparr>"

text \<open>\<open>map(...).join("")\<close>, in which null and undefined are empty.\<close>

definition joined_text :: "js \<Rightarrow> string" where
  "joined_text v = (if nullish v then [] else text_of v)"

definition collapsed :: "event_type \<Rightarrow> string \<Rightarrow> js \<Rightarrow> pending_entity \<Rightarrow> event" where
  "collapsed t idField i p =
     Event t ([(idField, i),
               (''delta'', JStr (concat (map (\<lambda>e. joined_text (attr e ''delta'')) (p_deltas p))))]
              @ opt_field ''metadata'' (p_postStartMetadata p))"

definition flush_pending :: "event_type \<Rightarrow> string \<Rightarrow> js \<Rightarrow> pending_entity \<Rightarrow> event list" where
  "flush_pending t idField i p =
     (case p_start p of None \<Rightarrow> [] | Some e \<Rightarrow> [e])
     @ (if p_deltas p = [] then [] else [collapsed t idField i p])
     @ (case p_end p of None \<Rightarrow> [] | Some e \<Rightarrow> [e])
     @ p_otherEvents p"

definition flushTextMessage :: "js \<Rightarrow> pending_entity \<Rightarrow> event list" where
  "flushTextMessage i p = flush_pending TEXT_MESSAGE_CONTENT ''messageId'' i p"

definition flushToolCall :: "js \<Rightarrow> pending_entity \<Rightarrow> event list" where
  "flushToolCall i p = flush_pending TOOL_CALL_ARGS ''toolCallId'' i p"

subsection \<open>State events\<close>

definition fold_state :: "(js \<Rightarrow> js \<Rightarrow> js option) \<Rightarrow> event \<Rightarrow> js \<Rightarrow> js" where
  "fold_state patch e state =
     (if etype e = STATE_SNAPSHOT then attr e ''snapshot''
      else case patch state (attr e ''delta'') of None \<Rightarrow> state | Some doc \<Rightarrow> doc)"

text \<open>\<open>stateEvents.slice(lastSnapshot)\<close>; \<open>None\<close> when there is no snapshot.\<close>

definition from_last_snapshot :: "event list \<Rightarrow> event list option" where
  "from_last_snapshot es =
     (case dropWhile (\<lambda>e. etype e \<noteq> STATE_SNAPSHOT) (rev es) of
        [] \<Rightarrow> None
      | e # _ \<Rightarrow> Some (e # rev (takeWhile (\<lambda>e. etype e \<noteq> STATE_SNAPSHOT) (rev es))))"

definition flushState :: "(js \<Rightarrow> js \<Rightarrow> js option) \<Rightarrow> event list \<Rightarrow> event list" where
  "flushState patch es =
     (case from_last_snapshot es of
        None \<Rightarrow> es
      | Some window \<Rightarrow>
          [Event STATE_SNAPSHOT
             ([(''snapshot'', fold (fold_state patch) window (JObj []))]
              @ opt_field ''metadata'' (collapseMetadata es))])"

subsection \<open>The loop\<close>

definition flush_states :: "(js \<Rightarrow> js \<Rightarrow> js option) \<Rightarrow> event \<Rightarrow> compact_state \<Rightarrow> compact_state" where
  "flush_states patch e st =
     st\<lparr>stateEvents := [], compacted := compacted st @ flushState patch (stateEvents st) @ [e]\<rparr>"

fun buffer_in :: "event \<Rightarrow> (js \<times> pending_entity) list \<Rightarrow> (js \<times> pending_entity) list option" where
  "buffer_in e [] = None"
| "buffer_in e ((i, p) # m) =
     (if p_start p \<noteq> None \<and> p_end p = None
      then Some ((i, p\<lparr>p_otherEvents := p_otherEvents p @ [e]\<rparr>) # m)
      else map_option (Cons (i, p)) (buffer_in e m))"

definition compact_other :: "event \<Rightarrow> compact_state \<Rightarrow> compact_state" where
  "compact_other e st =
     (case buffer_in e (pendingTextMessages st) of
        Some m \<Rightarrow> st\<lparr>pendingTextMessages := m\<rparr>
      | None \<Rightarrow>
          (case buffer_in e (pendingToolCalls st) of
             Some m \<Rightarrow> st\<lparr>pendingToolCalls := m\<rparr>
           | None \<Rightarrow> st\<lparr>compacted := compacted st @ [e]\<rparr>))"

definition update_text :: "(event \<Rightarrow> pending_entity \<Rightarrow> pending_entity) \<Rightarrow> event \<Rightarrow> compact_state \<Rightarrow> compact_state" where
  "update_text f e st =
     (let i = attr e ''messageId'' in
      st\<lparr>pendingTextMessages := AList.update i (f e (pending_of i (pendingTextMessages st))) (pendingTextMessages st)\<rparr>)"

definition update_tool :: "(event \<Rightarrow> pending_entity \<Rightarrow> pending_entity) \<Rightarrow> event \<Rightarrow> compact_state \<Rightarrow> compact_state" where
  "update_tool f e st =
     (let i = attr e ''toolCallId'' in
      st\<lparr>pendingToolCalls := AList.update i (f e (pending_of i (pendingToolCalls st))) (pendingToolCalls st)\<rparr>)"

definition end_text :: "event \<Rightarrow> compact_state \<Rightarrow> compact_state" where
  "end_text e st =
     (let i = attr e ''messageId''; p = pending_of i (pendingTextMessages st) in
      st\<lparr>pendingTextMessages := AList.delete i (pendingTextMessages st),
         compacted := compacted st @ flushTextMessage i (p\<lparr>p_end := Some e\<rparr>)\<rparr>)"

definition end_tool :: "event \<Rightarrow> compact_state \<Rightarrow> compact_state" where
  "end_tool e st =
     (let i = attr e ''toolCallId''; p = pending_of i (pendingToolCalls st) in
      st\<lparr>pendingToolCalls := AList.delete i (pendingToolCalls st),
         compacted := compacted st @ flushToolCall i (p\<lparr>p_end := Some e\<rparr>)\<rparr>)"

definition compact_event :: "(js \<Rightarrow> js \<Rightarrow> js option) \<Rightarrow> event \<Rightarrow> compact_state \<Rightarrow> compact_state" where
  "compact_event patch e st =
     (case etype e of
        TEXT_MESSAGE_START \<Rightarrow> update_text add_start e st
      | TEXT_MESSAGE_CONTENT \<Rightarrow> update_text add_delta e st
      | TEXT_MESSAGE_END \<Rightarrow> end_text e st
      | TOOL_CALL_START \<Rightarrow> update_tool add_start e st
      | TOOL_CALL_ARGS \<Rightarrow> update_tool add_delta e st
      | TOOL_CALL_END \<Rightarrow> end_tool e st
      | RUN_STARTED \<Rightarrow> flush_states patch e st
      | RUN_FINISHED \<Rightarrow> flush_states patch e st
      | RUN_ERROR \<Rightarrow> flush_states patch e st
      | STATE_SNAPSHOT \<Rightarrow> st\<lparr>stateEvents := stateEvents st @ [e]\<rparr>
      | STATE_DELTA \<Rightarrow> st\<lparr>stateEvents := stateEvents st @ [e]\<rparr>
      | _ \<Rightarrow> compact_other e st)"

definition flush_rest :: "(js \<Rightarrow> js \<Rightarrow> js option) \<Rightarrow> compact_state \<Rightarrow> event list" where
  "flush_rest patch st =
     concat (map (\<lambda>(i, p). flushTextMessage i p) (pendingTextMessages st))
     @ concat (map (\<lambda>(i, p). flushToolCall i p) (pendingToolCalls st))
     @ flushState patch (stateEvents st)"

definition compactEvents :: "(js \<Rightarrow> js \<Rightarrow> js option) \<Rightarrow> event list \<Rightarrow> event list" where
  "compactEvents patch es =
     (let st = fold (compact_event patch) es initial_compact_state in compacted st @ flush_rest patch st)"

subsection \<open>What a state of the loop stands for\<close>

text \<open>The output if the input ended here.\<close>

definition compact_output :: "(js \<Rightarrow> js \<Rightarrow> js option) \<Rightarrow> compact_state \<Rightarrow> event list" where
  "compact_output patch st = compacted st @ flush_rest patch st"

lemma compactEvents_output: "compactEvents patch es = compact_output patch (fold (compact_event patch) es initial_compact_state)"
  by (simp add: compactEvents_def compact_output_def Let_def)

lemma distinct_updates:
  "distinct (map fst (pendingTextMessages st)) \<and> distinct (map fst (pendingToolCalls st)) \<Longrightarrow>
   distinct (map fst (pendingTextMessages (compact_event patch e st))) \<and>
   distinct (map fst (pendingToolCalls (compact_event patch e st)))"
proof -
  have keys: "buffer_in e m = Some m' \<Longrightarrow> map fst m' = map fst m" for m m'
    by (induction m arbitrary: m') (auto split: if_splits)
  assume "distinct (map fst (pendingTextMessages st)) \<and> distinct (map fst (pendingToolCalls st))"
  then show ?thesis
    by (cases "etype e") (auto simp: compact_event_def update_text_def update_tool_def end_text_def end_tool_def
        flush_states_def compact_other_def Let_def distinct_update distinct_delete keys split: option.split)
qed

definition moved :: "event \<Rightarrow> bool" where
  "moved e \<longleftrightarrow> etype e \<notin> {TEXT_MESSAGE_START, TEXT_MESSAGE_CONTENT, TEXT_MESSAGE_END, TOOL_CALL_START,
     TOOL_CALL_ARGS, TOOL_CALL_END, STATE_SNAPSHOT, STATE_DELTA, RUN_STARTED, RUN_FINISHED, RUN_ERROR}"

definition pending_ok :: "event_type \<Rightarrow> pending_entity \<Rightarrow> bool" where
  "pending_ok t p \<longleftrightarrow> p_end p = None \<and> (\<forall>e. p_start p = Some e \<longrightarrow> etype e = t) \<and> list_all moved (p_otherEvents p)"

definition compact_inv :: "compact_state \<Rightarrow> bool" where
  "compact_inv st \<longleftrightarrow>
     distinct (map fst (pendingTextMessages st)) \<and> distinct (map fst (pendingToolCalls st)) \<and>
     list_all (\<lambda>(i, p). pending_ok TEXT_MESSAGE_START p) (pendingTextMessages st) \<and>
     list_all (\<lambda>(i, p). pending_ok TOOL_CALL_START p) (pendingToolCalls st) \<and>
     list_all (\<lambda>e. etype e \<in> {STATE_SNAPSHOT, STATE_DELTA}) (stateEvents st)"

lemma compact_inv_initial: "compact_inv initial_compact_state"
  by (simp add: compact_inv_def initial_compact_state_def)

lemma etype_carry [simp]: "etype (carryStartMetadata p e) = etype e"
  by (simp add: carryStartMetadata_def Let_def split: option.split)

lemma etype_replace [simp]: "etype (replaceStartFields p e) = etype e"
  by (simp add: replaceStartFields_def Let_def)

lemma pending_ok_new: "pending_ok t new_pending"
  by (simp add: pending_ok_def new_pending_def)

lemma pending_ok_of: "list_all (\<lambda>(i, p). pending_ok t p) m \<Longrightarrow> pending_ok t (pending_of i m)"
  by (auto simp: pending_of_def pending_ok_new list_all_iff split: option.split dest: map_of_SomeD)

lemma pending_ok_start: "pending_ok t p \<Longrightarrow> etype e = t \<Longrightarrow> pending_ok t (add_start e p)"
  by (auto simp: pending_ok_def add_start_def)

lemma pending_ok_delta: "pending_ok t p \<Longrightarrow> pending_ok t (add_delta e p)"
  by (auto simp: pending_ok_def add_delta_def)

lemma list_all_update:
  "list_all Q m \<Longrightarrow> Q (i, p) \<Longrightarrow> list_all Q (AList.update i p m)"
  by (induction m) auto

lemma list_all_delete: "list_all Q m \<Longrightarrow> list_all Q (AList.delete i m)"
  by (auto simp: AList.delete_eq list_all_iff)

lemma buffer_in_ok:
  "buffer_in e m = Some m' \<Longrightarrow> moved e \<Longrightarrow> list_all (\<lambda>(i, p). pending_ok t p) m \<Longrightarrow>
     list_all (\<lambda>(i, p). pending_ok t p) m' \<and> map fst m' = map fst m"
  by (induction m arbitrary: m') (auto simp: pending_ok_def split: if_splits)

lemma compact_event_inv: "compact_inv st \<Longrightarrow> compact_inv (compact_event patch e st)"
proof -
  assume inv: "compact_inv st"
  have texts: "list_all (\<lambda>(i, p). pending_ok TEXT_MESSAGE_START p) (pendingTextMessages st)"
    and tools: "list_all (\<lambda>(i, p). pending_ok TOOL_CALL_START p) (pendingToolCalls st)"
    using inv by (simp_all add: compact_inv_def)
  have other: "moved e \<Longrightarrow> compact_inv (compact_other e st)"
    using inv buffer_in_ok [of e "pendingTextMessages st"] buffer_in_ok [of e "pendingToolCalls st"]
    by (auto simp: compact_other_def compact_inv_def split: option.split)
  show ?thesis
    using inv texts tools other
    by (cases "etype e")
      (auto simp: compact_event_def compact_inv_def moved_def update_text_def update_tool_def end_text_def end_tool_def
        flush_states_def Let_def distinct_update distinct_delete
        intro!: list_all_update list_all_delete pending_ok_start pending_ok_delta pending_ok_of)
qed

lemma compact_run_inv: "compact_inv st \<Longrightarrow> compact_inv (fold (compact_event patch) es st)"
  by (induction es arbitrary: st) (simp_all add: compact_event_inv)

subsection \<open>Application state\<close>

abbreviation state_run :: "(js \<Rightarrow> js \<Rightarrow> js option) \<Rightarrow> event list \<Rightarrow> js \<Rightarrow> js" where
  "state_run patch \<equiv> fold (chat_state_step patch)"

lemma state_step_other: "etype e \<notin> {STATE_SNAPSHOT, STATE_DELTA} \<Longrightarrow> chat_state_step patch e s = s"
  by (cases "etype e") (simp_all add: chat_state_step_def)

lemma state_run_other: "list_all (\<lambda>e. etype e \<notin> {STATE_SNAPSHOT, STATE_DELTA}) es \<Longrightarrow> state_run patch es s = s"
  by (induction es) (simp_all add: state_step_other)

lemma state_step_eq: "etype e \<in> {STATE_SNAPSHOT, STATE_DELTA} \<Longrightarrow> chat_state_step patch e = fold_state patch e"
  by (rule ext) (auto simp: chat_state_step_def fold_state_def)

lemma from_last_snapshot_Some:
  assumes "from_last_snapshot es = Some w"
  shows "\<exists>pre e rest. es = pre @ w \<and> w = e # rest \<and> etype e = STATE_SNAPSHOT"
proof -
  let ?P = "\<lambda>e. etype e \<noteq> STATE_SNAPSHOT"
  obtain e tl where d: "dropWhile ?P (rev es) = e # tl" and w: "w = e # rev (takeWhile ?P (rev es))"
    using assms by (auto simp: from_last_snapshot_def split: list.splits)
  have "rev es = takeWhile ?P (rev es) @ e # tl" using d by (metis takeWhile_dropWhile_id)
  then have "es = rev tl @ w" using w by (metis append.assoc append_Cons append_Nil rev.simps(2) rev_append rev_rev_ident)
  moreover have "etype e = STATE_SNAPSHOT" using hd_dropWhile [of ?P "rev es"] d by fastforce
  ultimately show ?thesis using w by blast
qed

lemma flushState_run:
  assumes "list_all (\<lambda>e. etype e \<in> {STATE_SNAPSHOT, STATE_DELTA}) es"
  shows "state_run patch (flushState patch es) s = state_run patch es s"
proof (cases "from_last_snapshot es")
  case None
  then show ?thesis by (simp add: flushState_def)
next
  case (Some w)
  then obtain pre e rest where es: "es = pre @ w" "w = e # rest" "etype e = STATE_SNAPSHOT"
    using from_last_snapshot_Some by blast
  have "fold (fold_state patch) w x = state_run patch w x" for x
    using assms es(1) by (intro fold_cong) (auto simp: list_all_iff state_step_eq)
  moreover have "state_run patch w x = state_run patch w y" for x y
    using es(2,3) by (simp add: chat_state_step_def)
  ultimately show ?thesis
    using Some es(1) by (simp add: flushState_def chat_state_step_def)
qed

lemma flush_no_state:
  "pending_ok t' p \<Longrightarrow> t' \<in> {TEXT_MESSAGE_START, TOOL_CALL_START} \<Longrightarrow> t \<in> {TEXT_MESSAGE_CONTENT, TOOL_CALL_ARGS} \<Longrightarrow>
     e = None \<or> (\<exists>x. e = Some x \<and> etype x \<in> {TEXT_MESSAGE_END, TOOL_CALL_END}) \<Longrightarrow>
     list_all (\<lambda>e. etype e \<notin> {STATE_SNAPSHOT, STATE_DELTA}) (flush_pending t f i (p\<lparr>p_end := e\<rparr>))"
  by (auto simp: flush_pending_def pending_ok_def collapsed_def list_all_iff moved_def split: option.splits)

lemma compact_event_state:
  assumes "compact_inv st"
  shows "state_run patch (stateEvents (compact_event patch e st)) (state_run patch (compacted (compact_event patch e st)) s)
    = chat_state_step patch e (state_run patch (stateEvents st) (state_run patch (compacted st) s))"
proof -
  have texts: "pending_ok TEXT_MESSAGE_START (pending_of i (pendingTextMessages st))"
    and tools: "pending_ok TOOL_CALL_START (pending_of i (pendingToolCalls st))" for i
    using assms by (simp_all add: compact_inv_def pending_ok_of)
  have sts: "list_all (\<lambda>e. etype e \<in> {STATE_SNAPSHOT, STATE_DELTA}) (stateEvents st)"
    using assms by (simp add: compact_inv_def)
  have fin: "etype e = TEXT_MESSAGE_END \<Longrightarrow> state_run patch (flushTextMessage i ((pending_of i (pendingTextMessages st))\<lparr>p_end := Some e\<rparr>)) x = x"
    "etype e = TOOL_CALL_END \<Longrightarrow> state_run patch (flushToolCall i ((pending_of i (pendingToolCalls st))\<lparr>p_end := Some e\<rparr>)) x = x" for i x
    unfolding flushTextMessage_def flushToolCall_def
    by (rule state_run_other, rule flush_no_state [OF texts], simp_all)
      (rule state_run_other, rule flush_no_state [OF tools], simp_all)
  show ?thesis
    using fin flushState_run [OF sts, of patch]
    by (cases "etype e")
      (simp_all add: compact_event_def update_text_def update_tool_def end_text_def end_tool_def flush_states_def
        compact_other_def Let_def state_step_other split: option.split)
qed

lemma flush_all_no_state:
  assumes "list_all (\<lambda>(i, p). pending_ok t' p) m" and "t' \<in> {TEXT_MESSAGE_START, TOOL_CALL_START}"
    and "t \<in> {TEXT_MESSAGE_CONTENT, TOOL_CALL_ARGS}"
  shows "state_run patch (concat (map (\<lambda>(i, p). flush_pending t f i p) m)) s = s"
  using assms(1)
proof (induction m arbitrary: s)
  case (Cons a m)
  obtain i p where a: "a = (i, p)" by (cases a)
  with Cons.prems have ok: "pending_ok t' p" by simp
  then have "p\<lparr>p_end := None\<rparr> = p" by (cases p) (simp add: pending_ok_def)
  with flush_no_state [OF ok assms(2,3), of None f i] have "state_run patch (flush_pending t f i p) s = s"
    by (intro state_run_other) simp
  with Cons a show ?case by simp
qed simp

lemma compact_state_run: "state_run patch (compactEvents patch es) s = state_run patch es s"
proof -
  let ?st = "fold (compact_event patch) es initial_compact_state"
  have step: "compact_inv st \<Longrightarrow> state_run patch (stateEvents (fold (compact_event patch) es st))
      (state_run patch (compacted (fold (compact_event patch) es st)) s) =
      state_run patch es (state_run patch (stateEvents st) (state_run patch (compacted st) s))" for st
    by (induction es arbitrary: st) (simp_all add: compact_event_inv compact_event_state)
  have inv: "compact_inv ?st" by (rule compact_run_inv [OF compact_inv_initial])
  have "state_run patch (compactEvents patch es) s =
      state_run patch (stateEvents ?st) (state_run patch (compacted ?st) s)"
    using inv by (simp add: compactEvents_output compact_output_def flush_rest_def flushTextMessage_def flushToolCall_def
        compact_inv_def flush_all_no_state [of TEXT_MESSAGE_START] flush_all_no_state [of TOOL_CALL_START] flushState_run)
  also have "\<dots> = state_run patch es s"
    using step [OF compact_inv_initial] by (simp add: initial_compact_state_def)
  finally show ?thesis .
qed

subsection \<open>Deltas\<close>

definition deltas_of :: "event_type \<Rightarrow> string \<Rightarrow> js \<Rightarrow> event list \<Rightarrow> string" where
  "deltas_of t f i es =
     concat (map (\<lambda>e. joined_text (attr e ''delta'')) (filter (\<lambda>e. etype e = t \<and> attr e f = i) es))"

lemma deltas_of_append [simp]: "deltas_of t f i (a @ b) = deltas_of t f i a @ deltas_of t f i b"
  by (simp add: deltas_of_def)

lemma deltas_of_Nil [simp]: "deltas_of t f i [] = []"
  by (simp add: deltas_of_def)

lemma deltas_of_single: "deltas_of t f i [e] = (if etype e = t \<and> attr e f = i then joined_text (attr e ''delta'') else [])"
  by (simp add: deltas_of_def)

lemma deltas_of_none: "(\<And>e. e \<in> set es \<Longrightarrow> etype e \<noteq> t) \<Longrightarrow> deltas_of t f i es = []"
  by (auto simp: deltas_of_def filter_empty_conv)

definition pending_text :: "pending_entity \<Rightarrow> string" where
  "pending_text p = concat (map (\<lambda>e. joined_text (attr e ''delta'')) (p_deltas p))"

lemma deltas_of_flush:
  assumes "pending_ok t' p" and "t' \<in> {TEXT_MESSAGE_START, TOOL_CALL_START}" and "f \<noteq> ''delta''"
    and "t \<in> {TEXT_MESSAGE_CONTENT, TOOL_CALL_ARGS}"
    and "e = None \<or> (\<exists>x. e = Some x \<and> etype x \<in> {TEXT_MESSAGE_END, TOOL_CALL_END})"
  shows "deltas_of t f i (flush_pending t f j (p\<lparr>p_end := e\<rparr>)) = (if i = j then pending_text p else [])"
    and "u \<in> {TEXT_MESSAGE_CONTENT, TOOL_CALL_ARGS} \<Longrightarrow> u \<noteq> t \<Longrightarrow> deltas_of u g i (flush_pending t f j (p\<lparr>p_end := e\<rparr>)) = []"
proof -
  have quiet: "u \<in> {TEXT_MESSAGE_CONTENT, TOOL_CALL_ARGS} \<Longrightarrow> deltas_of u g i (case p_start p of None \<Rightarrow> [] | Some e \<Rightarrow> [e]) = []"
    "u \<in> {TEXT_MESSAGE_CONTENT, TOOL_CALL_ARGS} \<Longrightarrow> deltas_of u g i (case e of None \<Rightarrow> [] | Some e \<Rightarrow> [e]) = []"
    "u \<in> {TEXT_MESSAGE_CONTENT, TOOL_CALL_ARGS} \<Longrightarrow> deltas_of u g i (p_otherEvents p) = []" for u g
    using assms(1,2,5)
    by (auto simp: pending_ok_def list_all_iff moved_def intro!: deltas_of_none split: option.splits)
  have own: "deltas_of t f k [collapsed t f j p'] = (if k = j then pending_text p' else [])"
    and foreign: "u \<noteq> t \<Longrightarrow> deltas_of u g k [collapsed t f j p'] = []" for u g p' k
    using assms(3) by (auto simp: deltas_of_single collapsed_def pending_text_def joined_text_def)
  have none: "p_deltas p = [] \<Longrightarrow> pending_text p = []" by (simp add: pending_text_def)
  have same: "pending_text (p\<lparr>p_end := e\<rparr>) = pending_text p" by (simp add: pending_text_def)
  show "deltas_of t f i (flush_pending t f j (p\<lparr>p_end := e\<rparr>)) = (if i = j then pending_text p else [])"
    using assms(4) quiet own none same by (simp add: flush_pending_def)
  show "u \<in> {TEXT_MESSAGE_CONTENT, TOOL_CALL_ARGS} \<Longrightarrow> u \<noteq> t \<Longrightarrow> deltas_of u g i (flush_pending t f j (p\<lparr>p_end := e\<rparr>)) = []"
    using quiet foreign by (simp add: flush_pending_def)
qed

lemma pending_end_None: "pending_ok t p \<Longrightarrow> p\<lparr>p_end := None\<rparr> = p"
  by (cases p) (simp add: pending_ok_def)

lemma deltas_of_all:
  assumes "list_all (\<lambda>(i, p). pending_ok t' p) m" and "distinct (map fst m)"
    and "t' \<in> {TEXT_MESSAGE_START, TOOL_CALL_START}" and "f \<noteq> ''delta''" and "t \<in> {TEXT_MESSAGE_CONTENT, TOOL_CALL_ARGS}"
  shows "deltas_of t f i (concat (map (\<lambda>(j, p). flush_pending t f j p) m)) = pending_text (pending_of i m)"
    and "u \<in> {TEXT_MESSAGE_CONTENT, TOOL_CALL_ARGS} \<Longrightarrow> u \<noteq> t \<Longrightarrow>
      deltas_of u g i (concat (map (\<lambda>(j, p). flush_pending t f j p) m)) = []"
proof -
  have one: "pending_ok t' p \<Longrightarrow> deltas_of t f i (flush_pending t f j p) = (if i = j then pending_text p else [])"
    "pending_ok t' p \<Longrightarrow> u \<in> {TEXT_MESSAGE_CONTENT, TOOL_CALL_ARGS} \<Longrightarrow> u \<noteq> t \<Longrightarrow>
       deltas_of u g i (flush_pending t f j p) = []" for u g i j p
    using deltas_of_flush [OF _ assms(3-5), of p None] pending_end_None [of t' p] by auto
  have new: "pending_text new_pending = []" by (simp add: pending_text_def new_pending_def)
  have skip: "i \<notin> fst ` set m \<Longrightarrow> list_all (\<lambda>(i, p). pending_ok t' p) m \<Longrightarrow>
      deltas_of t f i (concat (map (\<lambda>(j, p). flush_pending t f j p) m)) = []" for m
    by (induction m) (auto simp: one)
  show "deltas_of t f i (concat (map (\<lambda>(j, p). flush_pending t f j p) m)) = pending_text (pending_of i m)"
    using assms(1,2)
  proof (induction m)
    case (Cons a m)
    obtain j p where a: "a = (j, p)" by (cases a)
    show ?case
    proof (cases "i = j")
      case True
      with Cons.prems a skip [of m] show ?thesis by (simp add: one pending_of_def)
    next
      case False
      with Cons a show ?thesis by (simp add: one pending_of_def)
    qed
  qed (simp add: pending_of_def new)
  show "u \<in> {TEXT_MESSAGE_CONTENT, TOOL_CALL_ARGS} \<Longrightarrow> u \<noteq> t \<Longrightarrow>
      deltas_of u g i (concat (map (\<lambda>(j, p). flush_pending t f j p) m)) = []"
    using assms(1) by (induction m) (auto simp: one)
qed

lemma pending_of_update [simp]: "pending_of i (AList.update j p m) = (if i = j then p else pending_of i m)"
  by (simp add: pending_of_def update_conv')

lemma pending_of_delete [simp]: "pending_of i (AList.delete j m) = (if i = j then new_pending else pending_of i m)"
  by (simp add: pending_of_def delete_conv')

lemma pending_text_simps [simp]:
  "pending_text new_pending = []" "pending_text (add_start e p) = pending_text p"
  "pending_text (add_delta e p) = pending_text p @ joined_text (attr e ''delta'')"
  by (simp_all add: pending_text_def new_pending_def add_start_def add_delta_def)

lemma buffer_in_text: "buffer_in e m = Some m' \<Longrightarrow> pending_text (pending_of i m') = pending_text (pending_of i m)"
  by (induction m arbitrary: m') (auto simp: pending_of_def pending_text_def split: if_splits)

lemma flushState_quiet:
  assumes "list_all (\<lambda>e. etype e \<in> {STATE_SNAPSHOT, STATE_DELTA}) es" and "t \<in> {TEXT_MESSAGE_CONTENT, TOOL_CALL_ARGS}"
  shows "deltas_of t f i (flushState patch es) = []"
  using assms by (intro deltas_of_none) (auto simp: flushState_def list_all_iff split: option.splits)

text \<open>What one kind of stream has seen so far: the deltas already out and those still buffered.\<close>

definition text_so_far :: "js \<Rightarrow> compact_state \<Rightarrow> string" where
  "text_so_far i st = deltas_of TEXT_MESSAGE_CONTENT ''messageId'' i (compacted st)
     @ pending_text (pending_of i (pendingTextMessages st))"

definition args_so_far :: "js \<Rightarrow> compact_state \<Rightarrow> string" where
  "args_so_far i st = deltas_of TOOL_CALL_ARGS ''toolCallId'' i (compacted st)
     @ pending_text (pending_of i (pendingToolCalls st))"

lemma compact_event_deltas:
  assumes "compact_inv st"
  shows "text_so_far i (compact_event patch e st) = text_so_far i st @ deltas_of TEXT_MESSAGE_CONTENT ''messageId'' i [e]"
    and "args_so_far i (compact_event patch e st) = args_so_far i st @ deltas_of TOOL_CALL_ARGS ''toolCallId'' i [e]"
proof -
  have texts: "pending_ok TEXT_MESSAGE_START (pending_of j (pendingTextMessages st))"
    and tools: "pending_ok TOOL_CALL_START (pending_of j (pendingToolCalls st))" for j
    using assms by (simp_all add: compact_inv_def pending_ok_of)
  have sts: "list_all (\<lambda>e. etype e \<in> {STATE_SNAPSHOT, STATE_DELTA}) (stateEvents st)"
    using assms by (simp add: compact_inv_def)
  note quiet = flushState_quiet [OF sts]
  have te: "etype e = TEXT_MESSAGE_END \<Longrightarrow> deltas_of TEXT_MESSAGE_CONTENT ''messageId'' i
      (flushTextMessage j ((pending_of j (pendingTextMessages st))\<lparr>p_end := Some e\<rparr>)) =
      (if i = j then pending_text (pending_of j (pendingTextMessages st)) else [])"
    "etype e = TEXT_MESSAGE_END \<Longrightarrow> deltas_of TOOL_CALL_ARGS ''toolCallId'' i
      (flushTextMessage j ((pending_of j (pendingTextMessages st))\<lparr>p_end := Some e\<rparr>)) = []" for j
    using deltas_of_flush [OF texts, of "''messageId''" TEXT_MESSAGE_CONTENT "Some e"] by (simp_all add: flushTextMessage_def)
  have tl: "etype e = TOOL_CALL_END \<Longrightarrow> deltas_of TOOL_CALL_ARGS ''toolCallId'' i
      (flushToolCall j ((pending_of j (pendingToolCalls st))\<lparr>p_end := Some e\<rparr>)) =
      (if i = j then pending_text (pending_of j (pendingToolCalls st)) else [])"
    "etype e = TOOL_CALL_END \<Longrightarrow> deltas_of TEXT_MESSAGE_CONTENT ''messageId'' i
      (flushToolCall j ((pending_of j (pendingToolCalls st))\<lparr>p_end := Some e\<rparr>)) = []" for j
    using deltas_of_flush [OF tools, of "''toolCallId''" TOOL_CALL_ARGS "Some e"] by (simp_all add: flushToolCall_def)
  show "text_so_far i (compact_event patch e st) = text_so_far i st @ deltas_of TEXT_MESSAGE_CONTENT ''messageId'' i [e]"
    and "args_so_far i (compact_event patch e st) = args_so_far i st @ deltas_of TOOL_CALL_ARGS ''toolCallId'' i [e]"
    using te tl quiet buffer_in_text
    by (cases "etype e"; auto simp: compact_event_def update_text_def update_tool_def end_text_def end_tool_def
        flush_states_def compact_other_def Let_def deltas_of_single text_so_far_def args_so_far_def split: option.split)+
qed

lemma compact_deltas:
  "deltas_of TEXT_MESSAGE_CONTENT ''messageId'' i (compactEvents patch es) = deltas_of TEXT_MESSAGE_CONTENT ''messageId'' i es"
  "deltas_of TOOL_CALL_ARGS ''toolCallId'' i (compactEvents patch es) = deltas_of TOOL_CALL_ARGS ''toolCallId'' i es"
proof -
  let ?st = "fold (compact_event patch) es initial_compact_state"
  have run: "compact_inv st \<Longrightarrow>
      text_so_far i (fold (compact_event patch) es st) = text_so_far i st @ deltas_of TEXT_MESSAGE_CONTENT ''messageId'' i es \<and>
      args_so_far i (fold (compact_event patch) es st) = args_so_far i st @ deltas_of TOOL_CALL_ARGS ''toolCallId'' i es" for st
  proof (induction es arbitrary: st)
    case (Cons e es)
    have split: "deltas_of t f i (e # es) = deltas_of t f i [e] @ deltas_of t f i es" for t f
      using deltas_of_append [of t f i "[e]" es] by simp
    from Cons.IH [OF compact_event_inv [OF Cons.prems]] compact_event_deltas [OF Cons.prems] show ?case
      by (simp add: split)
  qed simp
  have inv: "compact_inv ?st" by (rule compact_run_inv [OF compact_inv_initial])
  then have parts: "list_all (\<lambda>(i, p). pending_ok TEXT_MESSAGE_START p) (pendingTextMessages ?st)"
    "distinct (map fst (pendingTextMessages ?st))" "list_all (\<lambda>(i, p). pending_ok TOOL_CALL_START p) (pendingToolCalls ?st)"
    "distinct (map fst (pendingToolCalls ?st))" "list_all (\<lambda>e. etype e \<in> {STATE_SNAPSHOT, STATE_DELTA}) (stateEvents ?st)"
    by (simp_all add: compact_inv_def)
  note texts = deltas_of_all [OF parts(1,2), of "''messageId''" TEXT_MESSAGE_CONTENT]
    and tools = deltas_of_all [OF parts(3,4), of "''toolCallId''" TOOL_CALL_ARGS]
    and quiet = flushState_quiet [OF parts(5)]
  have init: "text_so_far i initial_compact_state = []" "args_so_far i initial_compact_state = []"
    by (simp_all add: text_so_far_def args_so_far_def initial_compact_state_def pending_of_def)
  show "deltas_of TEXT_MESSAGE_CONTENT ''messageId'' i (compactEvents patch es) = deltas_of TEXT_MESSAGE_CONTENT ''messageId'' i es"
    and "deltas_of TOOL_CALL_ARGS ''toolCallId'' i (compactEvents patch es) = deltas_of TOOL_CALL_ARGS ''toolCallId'' i es"
    using run [OF compact_inv_initial] init texts tools quiet
    by (simp_all add: compactEvents_output compact_output_def flush_rest_def flushTextMessage_def flushToolCall_def
        text_so_far_def args_so_far_def)
qed

subsection \<open>Events that are only moved\<close>

definition kept :: "event \<Rightarrow> bool" where
  "kept e \<longleftrightarrow> etype e \<notin> {TEXT_MESSAGE_START, TEXT_MESSAGE_CONTENT, TOOL_CALL_START, TOOL_CALL_ARGS, STATE_SNAPSHOT, STATE_DELTA}"

definition held :: "(js \<times> pending_entity) list \<Rightarrow> event multiset" where
  "held m = mset (concat (map (\<lambda>(i, p). p_otherEvents p) m))"

lemma held_simps [simp]: "held [] = {#}" "held ((i, p) # m) = mset (p_otherEvents p) + held m"
  by (simp_all add: held_def)

lemma held_update: "p_otherEvents p = p_otherEvents (pending_of i m) \<Longrightarrow> held (AList.update i p m) = held m"
  by (induction m) (auto simp: pending_of_def new_pending_def split: if_splits)

lemma held_delete: "distinct (map fst m) \<Longrightarrow> held (AList.delete i m) + mset (p_otherEvents (pending_of i m)) = held m"
proof (induction m)
  case (Cons a m)
  obtain j p where a: "a = (j, p)" by (cases a)
  show ?case
  proof (cases "i = j")
    case True
    with Cons.prems a have "AList.delete i m = m" by (auto intro: AList.delete_notin_dom)
    with True a show ?thesis by (simp add: pending_of_def)
  qed (use Cons a in \<open>simp add: pending_of_def\<close>)
qed (simp add: pending_of_def new_pending_def)

lemma held_buffer: "buffer_in e m = Some m' \<Longrightarrow> held m' = add_mset e (held m)"
  by (induction m arbitrary: m') (auto split: if_splits)

lemma filter_moved: "list_all moved es \<Longrightarrow> filter kept es = es"
  by (induction es) (auto simp: moved_def kept_def)

lemma filter_kept_flush:
  assumes "pending_ok t' p" and "t' \<in> {TEXT_MESSAGE_START, TOOL_CALL_START}" and "t \<in> {TEXT_MESSAGE_CONTENT, TOOL_CALL_ARGS}"
  shows "filter kept (flush_pending t f i (p\<lparr>p_end := e\<rparr>)) =
    (case e of None \<Rightarrow> [] | Some x \<Rightarrow> if kept x then [x] else []) @ p_otherEvents p"
  using assms
  by (auto simp: flush_pending_def pending_ok_def collapsed_def filter_moved kept_def split: option.splits)

lemma filter_kept_all:
  assumes "list_all (\<lambda>(i, p). pending_ok t' p) m" and "t' \<in> {TEXT_MESSAGE_START, TOOL_CALL_START}"
    and "t \<in> {TEXT_MESSAGE_CONTENT, TOOL_CALL_ARGS}"
  shows "mset (filter kept (concat (map (\<lambda>(i, p). flush_pending t f i p) m))) = held m"
  using assms(1)
proof (induction m)
  case (Cons a m)
  obtain i p where a: "a = (i, p)" by (cases a)
  with Cons.prems have ok: "pending_ok t' p" by simp
  from filter_kept_flush [OF ok assms(2,3), of f i None] pending_end_None [OF ok]
  have "filter kept (flush_pending t f i p) = p_otherEvents p" by simp
  with Cons a show ?case by simp
qed simp

lemma flushState_not_kept:
  "list_all (\<lambda>e. etype e \<in> {STATE_SNAPSHOT, STATE_DELTA}) es \<Longrightarrow> filter kept (flushState patch es) = []"
  by (auto simp: flushState_def filter_empty_conv list_all_iff kept_def split: option.splits)

definition kept_so_far :: "compact_state \<Rightarrow> event multiset" where
  "kept_so_far st = mset (filter kept (compacted st)) + held (pendingTextMessages st) + held (pendingToolCalls st)"

lemma compact_event_kept:
  assumes "compact_inv st"
  shows "kept_so_far (compact_event patch e st) = kept_so_far st + (if kept e then {#e#} else {#})"
proof -
  have texts: "pending_ok TEXT_MESSAGE_START (pending_of j (pendingTextMessages st))"
    and tools: "pending_ok TOOL_CALL_START (pending_of j (pendingToolCalls st))" for j
    using assms by (simp_all add: compact_inv_def pending_ok_of)
  have dist: "distinct (map fst (pendingTextMessages st))" "distinct (map fst (pendingToolCalls st))"
    and sts: "list_all (\<lambda>e. etype e \<in> {STATE_SNAPSHOT, STATE_DELTA}) (stateEvents st)"
    using assms by (simp_all add: compact_inv_def)
  have same: "p_otherEvents (add_start e p) = p_otherEvents p" "p_otherEvents (add_delta e p) = p_otherEvents p" for p
    by (simp_all add: add_start_def add_delta_def)
  have other: "kept_so_far (compact_other e st) = kept_so_far st + (if kept e then {#e#} else {#})" if "kept e"
    using that held_buffer [of e] by (auto simp: compact_other_def kept_so_far_def split: option.split)
  note fin = filter_kept_flush [OF texts, of TEXT_MESSAGE_CONTENT "''messageId''" _ "Some e"]
    filter_kept_flush [OF tools, of TOOL_CALL_ARGS "''toolCallId''" _ "Some e"]
  show ?thesis
    using other fin held_delete [OF dist(1), of "attr e ''messageId''"] held_delete [OF dist(2), of "attr e ''toolCallId''"]
      flushState_not_kept [OF sts, of patch]
    by (cases "etype e")
      (simp_all add: compact_event_def update_text_def update_tool_def end_text_def end_tool_def flush_states_def
        flushTextMessage_def flushToolCall_def Let_def kept_def kept_so_far_def held_update same,
       simp_all add: union_assoc [symmetric] union_commute)
qed

lemma compact_kept: "mset (filter kept (compactEvents patch es)) = mset (filter kept es)"
proof -
  let ?st = "fold (compact_event patch) es initial_compact_state"
  have run: "compact_inv st \<Longrightarrow> kept_so_far (fold (compact_event patch) es st) = kept_so_far st + mset (filter kept es)" for st
    by (induction es arbitrary: st) (simp_all add: compact_event_inv compact_event_kept)
  have inv: "compact_inv ?st" by (rule compact_run_inv [OF compact_inv_initial])
  have "mset (filter kept (compactEvents patch es)) = kept_so_far ?st"
    using inv by (simp add: compactEvents_output compact_output_def flush_rest_def flushTextMessage_def flushToolCall_def
        compact_inv_def kept_so_far_def filter_kept_all [of TEXT_MESSAGE_START] filter_kept_all [of TOOL_CALL_START]
        flushState_not_kept del: mset_filter)
  moreover have "kept_so_far initial_compact_state = {#}" by (simp add: kept_so_far_def initial_compact_state_def)
  ultimately show ?thesis using run [OF compact_inv_initial] by simp
qed

subsection \<open>The reducer's state\<close>

text \<open>Under observing subscribers the application state only depends on the state events.\<close>

lemma app_state_publish_state [simp]: "app_state (publish_state st) = app_state st"
  by (simp add: publish_state_def)

lemma app_state_new [simp]: "app_state (snd (new_object obj st)) = app_state st" "app_state (snd (new_objects objs st)) = app_state st"
  by (simp_all add: new_object_def new_objects_eq)

lemma app_state_start_message [simp]: "app_state (start_message e obj st) = app_state st"
  by (simp add: start_message_def push_message_eq Let_def split: option.split)

lemma app_state_start_tool_call [simp]: "app_state (start_tool_call e st) = app_state st"
proof -
  have "app_state (snd (resolveOrCreateAssistantMessage p i st')) = app_state st'" for p i and st' :: "'a apply_state"
    using resolve_cases [of p i st'] by (auto simp: push_message_eq)
  then show ?thesis by (simp add: start_tool_call_def Let_def case_prod_unfold split: option.split)
qed

lemma app_state_result [simp]: "app_state (insert_tool_result e st) = app_state st"
  by (simp add: insert_tool_result_def new_object_def Let_def)

lemma app_state_merge [simp]: "app_state (merge_snapshot e raw st) = app_state st"
  by (simp add: merge_snapshot_def new_objects_eq Let_def)

lemma app_state_set_message: "set_message i obj st = Inr st' \<Longrightarrow> app_state st' = app_state st"
  by (auto simp: set_message_def new_object_def split: if_splits)

lemma app_state_add_missing [simp]: "app_state (add_missing ms st) = app_state st"
  by (induction ms arbitrary: st) (simp_all add: push_message_eq split: option.split)

lemma app_state_encrypted [simp]: "app_state (set_encrypted_value e st) = app_state st"
  by (simp add: set_encrypted_value_def Let_def split: option.split)

lemma switch_app_state:
  assumes obs: "observing env" and step: "apply_switch env e st = Inr st'"
  shows "app_state st' = chat_state_step (applyPatch env) e (app_state st)"
proof -
  note simps = observing_unless_stopped [OF obs] observing_run_hook [OF obs] observing_notify [OF obs]
    chat_hook_only [OF obs] apply_switch_eq chat_state_step_def
  show ?thesis
  proof (cases "etype e")
    case ACTIVITY_SNAPSHOT
    with step show ?thesis
      by (auto simp: simps apply_activity_snapshot_def snapshot_activity_def notify_created_def Let_def map_sum_Inr
          push_message_eq dest: app_state_set_message split: option.splits if_splits sum.splits)
  next
    case ACTIVITY_DELTA
    with step show ?thesis
      by (auto simp: simps apply_activity_delta_def patch_activity_def Let_def map_sum_Inr
          dest!: app_state_set_message split: option.splits if_splits)
  next
    case RUN_STARTED
    with step show ?thesis by (auto simp: simps apply_run_started_def Let_def split: if_splits js.splits)
  next
    case RUN_FINISHED
    with step show ?thesis by (auto simp: simps apply_run_finished_def Let_def split: if_splits js.splits)
  next
    case MESSAGES_SNAPSHOT
    with step show ?thesis by (auto simp: simps apply_messages_snapshot_def split: js.splits)
  next
    case STATE_DELTA
    with step show ?thesis by (auto simp: simps apply_state_delta_def split: option.splits)
  qed (use step in \<open>auto simp: simps apply_text_message_start_def apply_reasoning_message_start_def
      apply_text_message_content_def apply_reasoning_message_content_def message_content_def
      apply_text_message_end_def apply_reasoning_message_end_def message_end_def
      apply_tool_call_start_def apply_tool_call_args_def apply_tool_call_end_def apply_tool_call_result_def
      apply_state_snapshot_def apply_reasoning_encrypted_value_def Let_def split: option.splits if_splits\<close>)
qed

lemma run_app_state:
  assumes obs: "observing env"
  shows "accepts (apply_event env) st es \<Longrightarrow>
    app_state (final_state (apply_event env) st es) = state_run (applyPatch env) es (app_state st)"
proof (induction es arbitrary: st)
  case (Cons e es)
  then obtain out st' where s: "apply_event env st e = Inr (out, st')" and acc: "accepts (apply_event env) st' es"
    by (auto simp: accepts_Cons)
  then obtain st1 where "apply_switch env e (observed env (OnEvent e) st) = Inr st1" "emitUpdates st1 = (out, st')"
    by (auto simp: apply_event_def observing_run_hook [OF obs] map_sum_Inr)
  with switch_app_state [OF obs] have "app_state st' = chat_state_step (applyPatch env) e (app_state st)"
    by (fastforce simp: emitUpdates_def)
  with Cons.IH [OF acc] s show ?case by simp
qed simp

subsection \<open>Replaying whole messages\<close>

lemma oset_commute: "has_own m k \<Longrightarrow> k \<noteq> k' \<Longrightarrow> oset k v (oset k' w m) = oset k' w (oset k v m)"
  by (induction m) (auto simp: oset_def)

lemma spread_oset_fresh:
  "has_own b k \<Longrightarrow> k \<notin> fst ` set x \<Longrightarrow> spread (oset k v b) x = oset k v (spread b x)"
proof (induction x arbitrary: b)
  case (Cons q x)
  obtain j u where q: "q = (j, u)" by (cases q)
  with Cons.prems have "oset j u (oset k v b) = oset k v (oset j u b)" by (auto simp: oset_commute)
  with Cons q show ?case by simp
qed simp

lemma spread_oset:
  assumes "distinct (map fst x)"
  shows "spread a (oset k v x) = oset k v (spread a x)"
  using assms
proof (induction x arbitrary: a)
  case Nil
  then show ?case by (simp add: oset_def spread_def)
next
  case (Cons p x)
  obtain l w where p: "p = (l, w)" by (cases p)
  show ?case
  proof (cases "l = k")
    case True
    with Cons.prems p spread_oset_fresh [of "oset k w a" k x v] show ?thesis
      by (simp add: oset_oset) (simp add: oset_def)
  next
    case False
    then have "oset k v (p # x) = p # oset k v x" using p by (simp add: oset_def)
    with Cons p show ?thesis by simp
  qed
qed

lemma spread_assoc: "distinct (map fst a) \<Longrightarrow> spread (spread x a) b = spread x (spread a b)"
proof (induction b arbitrary: a)
  case (Cons q b)
  obtain j u where q: "q = (j, u)" by (cases q)
  with Cons.IH [of "oset j u a"] Cons.prems show ?case by (simp add: spread_oset)
qed simp

lemma spread_empty: "distinct (map fst a) \<Longrightarrow> spread [] a = a"
  using spread_disjoint [of "[]" a] by simp

lemma mergeMetadata_assoc:
  assumes "distinct (map fst (fields_of a))" and "distinct (map fst (fields_of b))"
  shows "mergeMetadata (mergeMetadata x a) b = mergeMetadata x (mergeMetadata a b)"
  using assms by (simp add: mergeMetadata_def spread_empty spread_assoc)

lemma plain_merge:
  "distinct (map fst (fields_of a)) \<Longrightarrow> distinct (map fst (fields_of b)) \<Longrightarrow> distinct (map fst (fields_of (mergeMetadata a b)))"
  by (simp add: mergeMetadata_def)

text \<open>Two deltas are one delta with the concatenated text and the merged metadata.\<close>

definition two_in_one :: "event \<Rightarrow> event \<Rightarrow> event \<Rightarrow> bool" where
  "two_in_one a b c \<longleftrightarrow>
     text_of (attr c ''delta'') = text_of (attr a ''delta'') @ text_of (attr b ''delta'') \<and>
     attr c ''metadata'' = mergeMetadata (attr a ''metadata'') (attr b ''metadata'') \<and>
     plain_metadata a \<and> plain_metadata b"

lemma applyEventMetadata_two:
  "two_in_one a b c \<Longrightarrow> applyEventMetadata b (applyEventMetadata a m) = applyEventMetadata c m"
  by (auto simp: two_in_one_def plain_metadata_def applyEventMetadata_def oset_oset mergeMetadata_assoc)
    (simp_all add: mergeMetadata_def spread_empty)

lemma oset_metadata: "has_own m k \<Longrightarrow> k \<noteq> ''metadata'' \<Longrightarrow> oset k v (applyEventMetadata e m) = applyEventMetadata e (oset k v m)"
  using oset_commute [of m k "''metadata''"] by (simp add: applyEventMetadata_def)

lemma append_delta_two: "two_in_one a b c \<Longrightarrow> append_delta b (append_delta a m) = append_delta c m"
proof -
  assume two: "two_in_one a b c"
  have buf: "buffer_of (append_delta a m) = buffer_of m @ text_of (attr a ''delta'')" by (rule buffer_append_delta)
  have "append_delta b (append_delta a m) = applyEventMetadata b (oset ''content''
      (JStr ((buffer_of m @ text_of (attr a ''delta'')) @ text_of (attr b ''delta''))) (append_delta a m))"
    unfolding append_delta_def [of b] buf ..
  also have "\<dots> = applyEventMetadata b (applyEventMetadata a (oset ''content''
      (JStr ((buffer_of m @ text_of (attr a ''delta'')) @ text_of (attr b ''delta''))) m))"
    by (simp add: append_delta_def [of a] oset_metadata oset_oset)
  also have "\<dots> = append_delta c m"
    using two by (simp add: applyEventMetadata_two append_delta_def) (simp add: two_in_one_def)
  finally show ?thesis .
qed

lemma append_args_two: "two_in_one a b c \<Longrightarrow> append_args b (append_args a m) = append_args c m"
proof -
  assume two: "two_in_one a b c"
  let ?set = "set_function_field ''arguments''" and ?old = "text_of (function_field ''arguments'' m)"
  have sets: "?set v (applyEventMetadata a (?set w m)) = applyEventMetadata a (?set v m)" for v w
    by (simp add: set_function_field_def oset_metadata oset_oset) (simp add: applyEventMetadata_def oset_oset)
  have "append_args b (append_args a m) = applyEventMetadata b (?set
      (JStr ((?old @ text_of (attr a ''delta'')) @ text_of (attr b ''delta''))) (append_args a m))"
    by (simp add: append_args_def [of b]) (simp add: append_args_def)
  also have "\<dots> = applyEventMetadata b (applyEventMetadata a (?set
      (JStr ((?old @ text_of (attr a ''delta'')) @ text_of (attr b ''delta''))) m))"
    by (simp add: append_args_def [of a] sets)
  also have "\<dots> = append_args c m"
    using two by (simp add: applyEventMetadata_two append_args_def) (simp add: two_in_one_def)
  finally show ?thesis .
qed


subsection \<open>Streams of whole blocks\<close>

text \<open>
  A stream in which nothing arrives between the start and the end of a message or tool call: each
  segment is a whole text message, a whole tool call or one event of another kind.
\<close>

datatype segment = Block bool event "event list" event | Single event

definition block_id :: "bool \<Rightarrow> string" where
  "block_id tool = (if tool then ''toolCallId'' else ''messageId'')"

definition block_type :: "bool \<Rightarrow> event_type \<times> event_type \<times> event_type" where
  "block_type tool = (if tool then (TOOL_CALL_START, TOOL_CALL_ARGS, TOOL_CALL_END)
     else (TEXT_MESSAGE_START, TEXT_MESSAGE_CONTENT, TEXT_MESSAGE_END))"

fun segment_events :: "segment \<Rightarrow> event list" where
  "segment_events (Block tool s ds e) = s # ds @ [e]"
| "segment_events (Single e) = [e]"

definition block_delta :: "bool \<Rightarrow> js \<Rightarrow> event \<Rightarrow> bool" where
  "block_delta tool i d \<longleftrightarrow> etype d = fst (snd (block_type tool)) \<and> attr d (block_id tool) = i \<and>
     \<not> nullish (attr d ''delta'') \<and> plain_metadata d"

fun segment_ok :: "segment \<Rightarrow> bool" where
  "segment_ok (Block tool s ds e) \<longleftrightarrow>
     etype s = fst (block_type tool) \<and> etype e = snd (snd (block_type tool)) \<and>
     attr e (block_id tool) = attr s (block_id tool) \<and> list_all (block_delta tool (attr s (block_id tool))) ds"
| "segment_ok (Single e) \<longleftrightarrow> etype e \<notin> {TEXT_MESSAGE_START, TEXT_MESSAGE_CONTENT, TEXT_MESSAGE_END,
     TOOL_CALL_START, TOOL_CALL_ARGS, TOOL_CALL_END}"

definition merged_delta :: "bool \<Rightarrow> js \<Rightarrow> event list \<Rightarrow> event" where
  "merged_delta tool i ds = collapsed (fst (snd (block_type tool))) (block_id tool) i (fold add_delta ds new_pending)"

lemma after_deltas_fields:
  "p_start (fold add_delta ds p) = p_start p" "p_end (fold add_delta ds p) = p_end p"
  "p_otherEvents (fold add_delta ds p) = p_otherEvents p"
  "p_deltas (fold add_delta ds p) = p_deltas p @ ds"
  "p_postStartMetadata (fold add_delta ds p) = foldl (\<lambda>m d. mergeMetadata m (attr d ''metadata'')) (p_postStartMetadata p) ds"
  by (induction ds arbitrary: p) (simp_all add: add_delta_def)

lemma merged_delta_eq:
  "merged_delta tool i ds = Event (fst (snd (block_type tool)))
     ([(block_id tool, i), (''delta'', JStr (concat (map (\<lambda>e. joined_text (attr e ''delta'')) ds)))]
      @ opt_field ''metadata'' (collapseMetadata ds))"
  by (simp add: merged_delta_def collapsed_def after_deltas_fields new_pending_def collapseMetadata_def)

definition quiet :: "compact_state \<Rightarrow> bool" where
  "quiet st \<longleftrightarrow> pendingTextMessages st = [] \<and> pendingToolCalls st = []"

lemma fold_update_text:
  "list_all (block_delta False i) ds \<Longrightarrow> pendingTextMessages st = [(i, p)] \<Longrightarrow>
     fold (compact_event patch) ds st = st\<lparr>pendingTextMessages := [(i, fold add_delta ds p)]\<rparr>"
  by (induction ds arbitrary: st p)
    (simp_all add: block_delta_def block_type_def block_id_def compact_event_def update_text_def Let_def pending_of_def)

lemma fold_update_tool:
  "list_all (block_delta True i) ds \<Longrightarrow> pendingToolCalls st = [(i, p)] \<Longrightarrow>
     fold (compact_event patch) ds st = st\<lparr>pendingToolCalls := [(i, fold add_delta ds p)]\<rparr>"
  by (induction ds arbitrary: st p)
    (simp_all add: block_delta_def block_type_def block_id_def compact_event_def update_tool_def Let_def pending_of_def)

lemma compact_block:
  assumes "quiet st" and "segment_ok (Block tool s ds e)"
  shows "fold (compact_event patch) (segment_events (Block tool s ds e)) st =
    st\<lparr>compacted := compacted st @ s # (if ds = [] then [] else [merged_delta tool (attr s (block_id tool)) ds]) @ [e]\<rparr>"
proof -
  let ?i = "attr s (block_id tool)" and ?p = "new_pending\<lparr>p_start := Some s\<rparr>"
  have p: "add_start s new_pending = ?p" by (simp add: add_start_def new_pending_def carryStartMetadata_def)
  have flush: "flush_pending (fst (snd (block_type tool))) (block_id tool) ?i ((fold add_delta ds ?p)\<lparr>p_end := Some e\<rparr>) =
      s # (if ds = [] then [] else [merged_delta tool ?i ds]) @ [e]"
    by (simp add: flush_pending_def after_deltas_fields merged_delta_def collapsed_def new_pending_def)
  show ?thesis
  proof (cases tool)
    case True
    with assms p flush fold_update_tool [of ?i ds "st\<lparr>pendingToolCalls := [(?i, ?p)]\<rparr>" ?p patch] show ?thesis
      by (cases st) (simp add: quiet_def block_type_def block_id_def compact_event_def update_tool_def end_tool_def flushToolCall_def
          Let_def pending_of_def)
  next
    case False
    with assms p flush fold_update_text [of ?i ds "st\<lparr>pendingTextMessages := [(?i, ?p)]\<rparr>" ?p patch] show ?thesis
      by (cases st) (simp add: quiet_def block_type_def block_id_def compact_event_def update_text_def end_text_def flushTextMessage_def
          Let_def pending_of_def)
  qed
qed

abbreviation messages_run :: "(js \<Rightarrow> js \<Rightarrow> js option) \<Rightarrow> event list \<Rightarrow> jobj list \<Rightarrow> jobj list" where
  "messages_run patch \<equiv> fold (chat_message_step patch)"

definition delta_step :: "bool \<Rightarrow> js \<Rightarrow> event \<Rightarrow> jobj list \<Rightarrow> jobj list" where
  "delta_step tool i d ms =
     (if tool then update_first (issued i) (update_tool_call i (append_args d)) ms
      else update_first (has_id i) (unless_activity (append_delta d)) ms)"

lemma delta_step_eq:
  "etype d = fst (snd (block_type tool)) \<Longrightarrow> attr d (block_id tool) = i \<Longrightarrow> chat_message_step patch d ms = delta_step tool i d ms"
  by (auto simp: chat_message_step_def delta_step_def block_type_def block_id_def Let_def split: if_splits)

lemma delta_step_two:
  assumes "two_in_one a b c"
  shows "delta_step tool i b (delta_step tool i a ms) = delta_step tool i c ms"
proof -
  have id: "has_id i (unless_activity (append_delta a) m) = has_id i m" for m
    by (simp add: has_id_def unless_activity_def append_delta_def applyEventMetadata_def)
  have act: "unless_activity (append_delta b) (unless_activity (append_delta a) m) = unless_activity (append_delta c) m" for m
    using append_delta_two [OF assms, of m]
    by (simp add: unless_activity_def activity_def append_delta_def applyEventMetadata_def)
  have l: "leaves ''id'' (append_args a)" by (simp add: leaves_append_args)
  have iss: "issued i (update_tool_call i (append_args a) m) = issued i m" for m
    by (simp add: issued_def tool_call_in_update [OF l])
  show ?thesis
    by (simp add: delta_step_def update_first_twice id act iss update_tool_call_twice [OF l] append_args_two [OF assms])
qed

lemma delta_step_one:
  assumes "text_of (attr c ''delta'') = text_of (attr a ''delta'')"
    and "attr c ''metadata'' = mergeMetadata JUndef (attr a ''metadata'')" and "plain_metadata a"
  shows "delta_step tool i c ms = delta_step tool i a ms"
proof -
  have "applyEventMetadata c = applyEventMetadata a"
    using assms(2,3) by (intro ext) (simp add: applyEventMetadata_def plain_metadata_def mergeMetadata_def spread_empty)
  then have "append_delta c = append_delta a" "append_args c = append_args a"
    using assms(1) by (auto simp: append_delta_def append_args_def)
  then show ?thesis by (simp add: delta_step_def)
qed

lemma merged_attrs:
  "attr (merged_delta tool i ds) ''metadata'' = collapseMetadata ds"
  "attr (merged_delta tool i ds) ''delta'' = JStr (concat (map (\<lambda>e. joined_text (attr e ''delta'')) ds))"
  "attr (merged_delta tool i ds) (block_id tool) = i"
  "etype (merged_delta tool i ds) = fst (snd (block_type tool))"
  by (auto simp: merged_delta_eq block_id_def)

lemma collapse_snoc: "collapseMetadata (ds @ [d]) = mergeMetadata (collapseMetadata ds) (attr d ''metadata'')"
  by (simp add: collapseMetadata_def)

lemma plain_collapse: "list_all plain_metadata ds \<Longrightarrow> distinct (map fst (fields_of (collapseMetadata ds)))"
  by (induction ds rule: rev_induct) (simp_all add: collapse_snoc plain_merge plain_metadata_def, simp add: collapseMetadata_def)

lemma deltas_as_one:
  assumes "list_all (block_delta tool i) ds" and "ds \<noteq> []"
  shows "messages_run patch ds ms = chat_message_step patch (merged_delta tool i ds) ms"
  using assms(2,1)
proof (induction ds arbitrary: ms rule: rev_nonempty_induct)
  case (single d)
  then have d: "block_delta tool i d" by simp
  then have "delta_step tool i (merged_delta tool i [d]) ms = delta_step tool i d ms"
    by (intro delta_step_one) (simp_all add: block_delta_def merged_attrs collapseMetadata_def joined_text_def)
  with d show ?case by (simp add: delta_step_eq [of _ tool i] block_delta_def merged_attrs)
next
  case (snoc d ds)
  then have d: "block_delta tool i d" and ds: "list_all (block_delta tool i) ds" by simp_all
  have "list_all plain_metadata ds" using ds by (auto simp: list_all_iff block_delta_def)
  then have two: "two_in_one (merged_delta tool i ds) d (merged_delta tool i (ds @ [d]))"
    using d by (simp add: two_in_one_def merged_attrs collapse_snoc plain_metadata_def [of "merged_delta _ _ _"] plain_collapse
        block_delta_def joined_text_def)
  have "messages_run patch (ds @ [d]) ms = delta_step tool i d (delta_step tool i (merged_delta tool i ds) ms)"
    using snoc.IH [OF ds] d by (simp add: delta_step_eq [of _ tool i] block_delta_def merged_attrs)
  then show ?case by (simp add: delta_step_two [OF two] delta_step_eq [of _ tool i] merged_attrs)
qed

text \<open>State events do not touch the messages, so moving them is harmless.\<close>

lemma messages_step_state: "etype e \<in> {STATE_SNAPSHOT, STATE_DELTA} \<Longrightarrow> chat_message_step patch e ms = ms"
  by (auto simp: chat_message_step_def Let_def)

lemma messages_run_state: "list_all (\<lambda>e. etype e \<in> {STATE_SNAPSHOT, STATE_DELTA}) es \<Longrightarrow> messages_run patch es ms = ms"
  by (induction es) (simp_all add: messages_step_state)

lemma flushState_types:
  "list_all (\<lambda>e. etype e \<in> {STATE_SNAPSHOT, STATE_DELTA}) es \<Longrightarrow>
     list_all (\<lambda>e. etype e \<in> {STATE_SNAPSHOT, STATE_DELTA}) (flushState patch es)"
  by (simp add: flushState_def split: option.split)

lemma messages_run_flush:
  "list_all (\<lambda>e. etype e \<in> {STATE_SNAPSHOT, STATE_DELTA}) es \<Longrightarrow> messages_run patch (flushState p es) ms = ms"
  by (rule messages_run_state [OF flushState_types])

lemma compact_segment:
  assumes "compact_inv st" and "quiet st" and "segment_ok g"
  shows "messages_run patch (compacted (fold (compact_event patch) (segment_events g) st)) ms =
      messages_run patch (segment_events g) (messages_run patch (compacted st) ms)"
    and "quiet (fold (compact_event patch) (segment_events g) st)"
proof -
  have sts: "list_all (\<lambda>e. etype e \<in> {STATE_SNAPSHOT, STATE_DELTA}) (stateEvents st)"
    using assms(1) by (simp add: compact_inv_def)
  have "messages_run patch (compacted (fold (compact_event patch) (segment_events g) st)) ms =
      messages_run patch (segment_events g) (messages_run patch (compacted st) ms) \<and>
      quiet (fold (compact_event patch) (segment_events g) st)"
  proof (cases g)
    case (Block tool s ds e)
    with assms(3) have "list_all (block_delta tool (attr s (block_id tool))) ds" by simp
    with deltas_as_one [of tool "attr s (block_id tool)" ds patch] assms Block compact_block [of st tool s ds e patch]
    show ?thesis by (cases "ds = []") (simp_all add: quiet_def)
  next
    case (Single e)
    with assms sts show ?thesis
      by (cases "etype e")
        (simp_all add: compact_event_def flush_states_def compact_other_def quiet_def messages_run_flush messages_step_state)
  qed
  then show "messages_run patch (compacted (fold (compact_event patch) (segment_events g) st)) ms =
      messages_run patch (segment_events g) (messages_run patch (compacted st) ms)"
    and "quiet (fold (compact_event patch) (segment_events g) st)" by blast+
qed

lemma compact_messages:
  assumes "list_all segment_ok gs"
  shows "messages_run patch (compactEvents patch (concat (map segment_events gs))) ms =
    messages_run patch (concat (map segment_events gs)) ms"
proof -
  let ?es = "concat (map segment_events gs)"
  have run: "compact_inv st \<Longrightarrow> quiet st \<Longrightarrow> list_all segment_ok gs \<Longrightarrow>
      messages_run patch (compacted (fold (compact_event patch) (concat (map segment_events gs)) st)) ms =
      messages_run patch (concat (map segment_events gs)) (messages_run patch (compacted st) ms) \<and>
      quiet (fold (compact_event patch) (concat (map segment_events gs)) st)" for st
    by (induction gs arbitrary: st) (simp_all add: compact_segment compact_run_inv)
  let ?st = "fold (compact_event patch) ?es initial_compact_state"
  have "compact_inv ?st" by (rule compact_run_inv [OF compact_inv_initial])
  then have sts: "list_all (\<lambda>e. etype e \<in> {STATE_SNAPSHOT, STATE_DELTA}) (stateEvents ?st)" by (simp add: compact_inv_def)
  have init: "quiet initial_compact_state" "compacted initial_compact_state = []"
    by (simp_all add: quiet_def initial_compact_state_def)
  from run [OF compact_inv_initial init(1) assms] init(2)
  have "messages_run patch (compacted ?st) ms = messages_run patch ?es ms" "quiet ?st" by simp_all
  with sts show ?thesis
    by (simp add: compactEvents_output compact_output_def flush_rest_def quiet_def messages_run_flush)
qed

subsection \<open>Properties\<close>

lemma compact_no_fault:
  assumes "list_all (\<lambda>e. apply_fault e = None) es"
  shows "list_all (\<lambda>e. apply_fault e = None) (compactEvents patch es)"
proof -
  have "set (filter kept (compactEvents patch es)) = set (filter kept es)"
    using arg_cong [OF compact_kept, of set_mset] by (simp del: mset_filter)
  then have "\<And>e. e \<in> set (compactEvents patch es) \<Longrightarrow> kept e \<Longrightarrow> e \<in> set es" by auto
  moreover have "\<not> kept e \<Longrightarrow> apply_fault e = None" for e
    by (auto simp: kept_def apply_fault_def Let_def)
  ultimately show ?thesis using assms unfolding list_all_iff by blast
qed

text \<open>
  C37. Replaying a compacted stream gives the reducer the application state that the stream itself
  gives it, from whatever state it starts, for every stream the reducer accepts: compaction moves
  state events across the events of a run and replaces them by one snapshot, skipping the patches
  that do not apply as the reducer does.
\<close>

theorem compaction_keeps_the_state:
  assumes "observing env" and "list_all (\<lambda>e. apply_fault e = None) es"
  shows "accepts (apply_event env) st (compactEvents (applyPatch env) es) \<and>
    app_state (final_state (apply_event env) st (compactEvents (applyPatch env) es)) =
    app_state (final_state (apply_event env) st es)"
proof -
  have acc: "accepts (apply_event env) st (compactEvents (applyPatch env) es)" "accepts (apply_event env) st es"
    using observing_accepts [OF assms(1)] assms(2) compact_no_fault by blast+
  with run_app_state [OF assms(1)] show ?thesis by (simp add: compact_state_run)
qed

definition demo_states :: "event list" where
  "demo_states =
     [ev RUN_STARTED [(''runId'', ''r1'')],
      Event STATE_SNAPSHOT [(''snapshot'', JObj [(''a'', JNum 1)])],
      ev TEXT_MESSAGE_START [(''messageId'', ''m1'')],
      Event STATE_DELTA [(''delta'', JObj [(''b'', JNum 2)])],
      Event STATE_DELTA [(''delta'', JNull)],
      ev TEXT_MESSAGE_END [(''messageId'', ''m1'')],
      ev RUN_FINISHED [(''runId'', ''r1'')]]"

theorem compaction_keeps_the_state_witness:
  "app_state (final_state (apply_event demo_env) demo_start (compactEvents demo_patch demo_states)) =
     JObj [(''a'', JNum 1), (''b'', JNum 2)] \<and>
   length (compactEvents demo_patch demo_states) = 5"
proof -
  have ok: "list_all (\<lambda>e. apply_fault e = None) demo_states" by code_simp
  have p: "applyPatch demo_env = demo_patch" by (simp add: demo_env_def)
  have "app_state (final_state (apply_event demo_env) demo_start demo_states) = state_run demo_patch demo_states (app_state demo_start)"
    using run_app_state [OF observing_demo observing_accepts [OF observing_demo ok]] by (simp add: p)
  also have "\<dots> = JObj [(''a'', JNum 1), (''b'', JNum 2)]" by code_simp
  finally have "app_state (final_state (apply_event demo_env) demo_start demo_states) = JObj [(''a'', JNum 1), (''b'', JNum 2)]" .
  moreover have "length (compactEvents demo_patch demo_states) = 5" by code_simp
  ultimately show ?thesis using compaction_keeps_the_state [OF observing_demo ok, of demo_start] p by simp
qed

text \<open>
  C38. For a stream in which every text message and tool call runs from its start to its end without
  another event in between, replaying the compacted stream builds the same conversation as replaying
  the stream: the same messages with the same contents, tool calls, arguments and metadata.
\<close>

theorem compaction_keeps_the_conversation:
  assumes "observing env" and "unshared st" and "list_all segment_ok gs"
    and "es = concat (map segment_events gs)"
    and "list_all (\<lambda>e. apply_fault e = None \<and> etype e \<noteq> MESSAGES_SNAPSHOT) es"
  shows "conversation (final_state (apply_event env) st (compactEvents (applyPatch env) es)) =
    conversation (final_state (apply_event env) st es)"
proof -
  have fold_messages: "chat_messages (fold (chat_step patch) xs c) = messages_run patch xs (chat_messages c)" for xs patch c
    by (induction xs arbitrary: c) (simp_all add: chat_step_def)
  have ok: "list_all (\<lambda>e. apply_fault e = None) es" using assms(5) by (simp add: list_all_iff)
  have "set (filter kept (compactEvents (applyPatch env) es)) = set (filter kept es)"
    using arg_cong [OF compact_kept, of set_mset] by (simp del: mset_filter)
  then have "\<not> list_ex (\<lambda>e. etype e = MESSAGES_SNAPSHOT) (compactEvents (applyPatch env) es)"
    using assms(5) by (auto simp: list_ex_iff list_all_iff kept_def)
  moreover have "\<not> list_ex (\<lambda>e. etype e = MESSAGES_SNAPSHOT) es" using assms(5) by (auto simp: list_ex_iff list_all_iff)
  moreover note conversation_run [OF assms(1,2) observing_accepts [OF assms(1)]] ok compact_no_fault [OF ok]
  ultimately show ?thesis
    using compact_messages [OF assms(3)] by (simp add: fold_messages assms(4))
qed

definition demo_blocks :: "segment list" where
  "demo_blocks =
     [Single (ev RUN_STARTED [(''runId'', ''r1'')]),
      Block False (ev TEXT_MESSAGE_START [(''messageId'', ''m1'')])
        [Event TEXT_MESSAGE_CONTENT [(''messageId'', JStr ''m1''), (''delta'', JStr ''he''), (''metadata'', JObj [(''k'', JNum 1)])],
         Event TEXT_MESSAGE_CONTENT [(''messageId'', JStr ''m1''), (''delta'', JStr ''llo''), (''metadata'', JObj [(''k'', JNum 2)])]]
        (ev TEXT_MESSAGE_END [(''messageId'', ''m1'')]),
      Block True (ev TOOL_CALL_START [(''toolCallId'', ''t1''), (''toolCallName'', ''f''), (''parentMessageId'', ''m1'')])
        [ev TOOL_CALL_ARGS [(''toolCallId'', ''t1''), (''delta'', ''{'')], ev TOOL_CALL_ARGS [(''toolCallId'', ''t1''), (''delta'', ''}'')]]
        (ev TOOL_CALL_END [(''toolCallId'', ''t1'')])]"

theorem compaction_keeps_the_conversation_witness:
  "conversation (final_state (apply_event demo_env) demo_start
       (compactEvents demo_patch (concat (map segment_events demo_blocks)))) =
     conversation (final_state (apply_event demo_env) demo_start (concat (map segment_events demo_blocks))) \<and>
   length (concat (map segment_events demo_blocks)) = 9 \<and>
   length (compactEvents demo_patch (concat (map segment_events demo_blocks))) = 7"
proof -
  have "list_all segment_ok demo_blocks"
    "list_all (\<lambda>e. apply_fault e = None \<and> etype e \<noteq> MESSAGES_SNAPSHOT) (concat (map segment_events demo_blocks))"
    "length (concat (map segment_events demo_blocks)) = 9"
    "length (compactEvents demo_patch (concat (map segment_events demo_blocks))) = 7"
    by code_simp+
  with compaction_keeps_the_conversation [OF observing_demo unshared_demo _ refl, of demo_blocks]
  show ?thesis by (simp add: demo_env_def)
qed

text \<open>
  Whatever the stream, however its messages and tool calls interleave: the text compaction emits
  for a message, and the arguments it emits for a tool call, are the concatenation of the deltas the
  stream has for it, in order.
\<close>

theorem compaction_keeps_deltas:
  "deltas_of TEXT_MESSAGE_CONTENT ''messageId'' i (compactEvents patch es) = deltas_of TEXT_MESSAGE_CONTENT ''messageId'' i es \<and>
   deltas_of TOOL_CALL_ARGS ''toolCallId'' i (compactEvents patch es) = deltas_of TOOL_CALL_ARGS ''toolCallId'' i es"
  by (simp add: compact_deltas)

text \<open>
  Compaction drops and duplicates nothing else: apart from starts, deltas and state events, the
  compacted stream has exactly the events of the stream, each as often as it was recorded.
\<close>

theorem compaction_keeps_other_events:
  "mset (filter kept (compactEvents patch es)) = mset (filter kept es)"
  by (rule compact_kept)

text \<open>
  A start replayed with other fields: the reducer keeps the role of the first start, the compacted
  stream has only the second one.
\<close>

lemma compaction_replayed_start:
  fixes first second :: event
  defines "first \<equiv> ev TEXT_MESSAGE_START [(''messageId'', ''m1''), (''role'', ''user'')]"
    and "second \<equiv> ev TEXT_MESSAGE_START [(''messageId'', ''m1''), (''role'', ''assistant'')]"
  shows "map (\<lambda>m. oget m ''role'') (messages_run demo_patch [first, second] []) = [JStr ''user'']"
    and "map (\<lambda>m. oget m ''role'') (messages_run demo_patch (compactEvents demo_patch [first, second]) []) = [JStr ''assistant'']"
  unfolding first_def second_def by code_simp+

end
