(* ===== verification/AGUI_Schema.thy ===== *)
theory AGUI_Schema
  imports AGUI_Events
begin

section \<open>The generated validators and serialization shapes\<close>

text \<open>
  The two generated tables of \<^verbatim>\<open>@ag-ui/core\<close>, transcribed one entry at a time.

  \<^item> \<^verbatim>\<open>core/src/generated/schemas.ts\<close>: every validator as a value of \<open>zod\<close>, the
    type of the schema classes the enforcement stage distinguishes with \<open>instanceof\<close>. A
    \<open>looseObject\<close> is \<open>ZObject\<close> with its shape and whether it carries the meta entry
    \<open>specOpen\<close>; a \<open>refine\<close>, a \<open>min\<close> or a \<open>regex\<close> stays on the schema it
    constrains; \<open>transform\<close> makes a \<open>ZPipe\<close>.
  \<^item> \<^verbatim>\<open>core/src/generated/serialization.ts\<close>: the \<open>shapes\<close> that
    \<open>omitOptionalNulls\<close> walks.
\<close>

subsection \<open>Schemas\<close>

datatype any_check = AnyValue | NotNull | NotUndefined

datatype zod =
    ZString "string option"
  | ZBoolean
  | ZInt int int
  | ZAny any_check
  | ZCustomObject
  | ZLiteral string
  | ZEnum "string list"
  | ZObject "(string \<times> zod) list" bool
  | ZArray nat zod
  | ZRecord zod
  | ZUnion "string option" "zod list"
  | ZOptional zod
  | ZNullable zod
  | ZDefault zod
  | ZReadonly zod
  | ZCatch zod
  | ZPipe zod zod
  | ZLazy zod
  | ZTransform

definition EventTypeSchema :: zod where
  "EventTypeSchema =
     ZEnum [
        ''TEXT_MESSAGE_START'', ''TEXT_MESSAGE_CONTENT'', ''TEXT_MESSAGE_END'', ''TEXT_MESSAGE_CHUNK'',
        ''TOOL_CALL_START'', ''TOOL_CALL_ARGS'', ''TOOL_CALL_END'', ''TOOL_CALL_CHUNK'',
        ''TOOL_CALL_RESULT'', ''STATE_SNAPSHOT'', ''STATE_DELTA'', ''MESSAGES_SNAPSHOT'',
        ''ACTIVITY_SNAPSHOT'', ''ACTIVITY_DELTA'', ''RAW'', ''CUSTOM'',
        ''RUN_STARTED'', ''RUN_FINISHED'', ''RUN_ERROR'', ''STEP_STARTED'',
        ''STEP_FINISHED'', ''REASONING_START'', ''REASONING_MESSAGE_START'', ''REASONING_MESSAGE_CONTENT'',
        ''REASONING_MESSAGE_END'', ''REASONING_MESSAGE_CHUNK'', ''REASONING_END'', ''REASONING_ENCRYPTED_VALUE'',
        ''SUBAGENT_STARTED'', ''SUBAGENT_FINISHED'', ''SUBAGENT_ERROR'']"

definition MetadataSchema :: zod where
  "MetadataSchema = ZCustomObject"

definition SubagentRunIdSchema :: zod where
  "SubagentRunIdSchema = ZString None"

definition TextMessageRoleSchema :: zod where
  "TextMessageRoleSchema = ZEnum [''developer'', ''system'', ''assistant'', ''user'']"

definition TextMessageStartEventSchema :: zod where
  "TextMessageStartEventSchema =
     ZObject [
        (''type'', ZLiteral ''TEXT_MESSAGE_START''),
        (''timestamp'', ZOptional (ZInt (-9007199254740991) 9007199254740991)),
        (''rawEvent'', ZOptional (ZAny NotNull)),
        (''metadata'', ZOptional MetadataSchema),
        (''subagentRunId'', ZOptional SubagentRunIdSchema),
        (''messageId'', ZString None),
        (''role'', ZOptional TextMessageRoleSchema),
        (''name'', ZOptional (ZString None))] False"

definition TextMessageContentEventSchema :: zod where
  "TextMessageContentEventSchema =
     ZObject [
        (''type'', ZLiteral ''TEXT_MESSAGE_CONTENT''),
        (''timestamp'', ZOptional (ZInt (-9007199254740991) 9007199254740991)),
        (''rawEvent'', ZOptional (ZAny NotNull)),
        (''metadata'', ZOptional MetadataSchema),
        (''subagentRunId'', ZOptional SubagentRunIdSchema),
        (''messageId'', ZString None),
        (''delta'', ZString None)] False"

definition TextMessageEndEventSchema :: zod where
  "TextMessageEndEventSchema =
     ZObject [
        (''type'', ZLiteral ''TEXT_MESSAGE_END''),
        (''timestamp'', ZOptional (ZInt (-9007199254740991) 9007199254740991)),
        (''rawEvent'', ZOptional (ZAny NotNull)),
        (''metadata'', ZOptional MetadataSchema),
        (''subagentRunId'', ZOptional SubagentRunIdSchema),
        (''messageId'', ZString None)] False"

definition TextMessageChunkEventSchema :: zod where
  "TextMessageChunkEventSchema =
     ZObject [
        (''type'', ZLiteral ''TEXT_MESSAGE_CHUNK''),
        (''timestamp'', ZOptional (ZInt (-9007199254740991) 9007199254740991)),
        (''rawEvent'', ZOptional (ZAny NotNull)),
        (''metadata'', ZOptional MetadataSchema),
        (''subagentRunId'', ZOptional SubagentRunIdSchema),
        (''messageId'', ZOptional (ZString None)),
        (''role'', ZOptional TextMessageRoleSchema),
        (''delta'', ZOptional (ZString None)),
        (''name'', ZOptional (ZString None))] False"

definition ToolCallStartEventSchema :: zod where
  "ToolCallStartEventSchema =
     ZObject [
        (''type'', ZLiteral ''TOOL_CALL_START''),
        (''timestamp'', ZOptional (ZInt (-9007199254740991) 9007199254740991)),
        (''rawEvent'', ZOptional (ZAny NotNull)),
        (''metadata'', ZOptional MetadataSchema),
        (''subagentRunId'', ZOptional SubagentRunIdSchema),
        (''toolCallId'', ZString None),
        (''toolCallName'', ZString None),
        (''parentMessageId'', ZOptional (ZString None))] False"

definition ToolCallArgsEventSchema :: zod where
  "ToolCallArgsEventSchema =
     ZObject [
        (''type'', ZLiteral ''TOOL_CALL_ARGS''),
        (''timestamp'', ZOptional (ZInt (-9007199254740991) 9007199254740991)),
        (''rawEvent'', ZOptional (ZAny NotNull)),
        (''metadata'', ZOptional MetadataSchema),
        (''subagentRunId'', ZOptional SubagentRunIdSchema),
        (''toolCallId'', ZString None),
        (''delta'', ZString None)] False"

definition ToolCallEndEventSchema :: zod where
  "ToolCallEndEventSchema =
     ZObject [
        (''type'', ZLiteral ''TOOL_CALL_END''),
        (''timestamp'', ZOptional (ZInt (-9007199254740991) 9007199254740991)),
        (''rawEvent'', ZOptional (ZAny NotNull)),
        (''metadata'', ZOptional MetadataSchema),
        (''subagentRunId'', ZOptional SubagentRunIdSchema),
        (''toolCallId'', ZString None)] False"

definition ToolCallChunkEventSchema :: zod where
  "ToolCallChunkEventSchema =
     ZObject [
        (''type'', ZLiteral ''TOOL_CALL_CHUNK''),
        (''timestamp'', ZOptional (ZInt (-9007199254740991) 9007199254740991)),
        (''rawEvent'', ZOptional (ZAny NotNull)),
        (''metadata'', ZOptional MetadataSchema),
        (''subagentRunId'', ZOptional SubagentRunIdSchema),
        (''toolCallId'', ZOptional (ZString None)),
        (''toolCallName'', ZOptional (ZString None)),
        (''parentMessageId'', ZOptional (ZString None)),
        (''delta'', ZOptional (ZString None))] False"

definition TextPartSchema :: zod where
  "TextPartSchema =
     ZObject [
        (''type'', ZLiteral ''text''),
        (''id'', ZOptional (ZString None)),
        (''text'', ZString None),
        (''metadata'', ZOptional (ZAny NotNull))] False"

definition DataSourceSchema :: zod where
  "DataSourceSchema =
     ZObject [
        (''type'', ZLiteral ''data''),
        (''value'', ZString None),
        (''mimeType'', ZString None)] False"

definition UrlSourceSchema :: zod where
  "UrlSourceSchema =
     ZObject [
        (''type'', ZLiteral ''url''),
        (''value'', ZString None),
        (''mimeType'', ZOptional (ZString None))] False"

definition FileSourceSchema :: zod where
  "FileSourceSchema =
     ZObject [
        (''type'', ZLiteral ''file''),
        (''value'', ZString None),
        (''provider'', ZOptional (ZString None)),
        (''mimeType'', ZOptional (ZString None))] False"

definition PartSourceSchema :: zod where
  "PartSourceSchema =
     ZUnion (Some ''type'') [
        DataSourceSchema,
        UrlSourceSchema,
        FileSourceSchema]"

definition ImagePartSchema :: zod where
  "ImagePartSchema =
     ZObject [
        (''type'', ZLiteral ''image''),
        (''id'', ZOptional (ZString None)),
        (''source'', PartSourceSchema),
        (''metadata'', ZOptional (ZAny NotNull))] False"

definition AudioPartSchema :: zod where
  "AudioPartSchema =
     ZObject [
        (''type'', ZLiteral ''audio''),
        (''id'', ZOptional (ZString None)),
        (''source'', PartSourceSchema),
        (''metadata'', ZOptional (ZAny NotNull))] False"

definition VideoPartSchema :: zod where
  "VideoPartSchema =
     ZObject [
        (''type'', ZLiteral ''video''),
        (''id'', ZOptional (ZString None)),
        (''source'', PartSourceSchema),
        (''metadata'', ZOptional (ZAny NotNull))] False"

definition DocumentPartSchema :: zod where
  "DocumentPartSchema =
     ZObject [
        (''type'', ZLiteral ''document''),
        (''id'', ZOptional (ZString None)),
        (''source'', PartSourceSchema),
        (''metadata'', ZOptional (ZAny NotNull))] False"

definition ContentPartSchema :: zod where
  "ContentPartSchema =
     ZUnion (Some ''type'') [
        TextPartSchema,
        ImagePartSchema,
        AudioPartSchema,
        VideoPartSchema,
        DocumentPartSchema]"

definition ToolCallResultEventSchema :: zod where
  "ToolCallResultEventSchema =
     ZObject [
        (''type'', ZLiteral ''TOOL_CALL_RESULT''),
        (''timestamp'', ZOptional (ZInt (-9007199254740991) 9007199254740991)),
        (''rawEvent'', ZOptional (ZAny NotNull)),
        (''metadata'', ZOptional MetadataSchema),
        (''subagentRunId'', ZOptional SubagentRunIdSchema),
        (''messageId'', ZString None),
        (''toolCallId'', ZString None),
        (''content'', ZUnion None [ZString None, ZArray 0 ContentPartSchema]),
        (''role'', ZOptional (ZLiteral ''tool''))] False"

definition StateSchema :: zod where
  "StateSchema = ZAny AnyValue"

definition StateSnapshotEventSchema :: zod where
  "StateSnapshotEventSchema =
     ZObject [
        (''type'', ZLiteral ''STATE_SNAPSHOT''),
        (''timestamp'', ZOptional (ZInt (-9007199254740991) 9007199254740991)),
        (''rawEvent'', ZOptional (ZAny NotNull)),
        (''metadata'', ZOptional MetadataSchema),
        (''subagentRunId'', ZOptional SubagentRunIdSchema),
        (''snapshot'', ZAny NotUndefined)] False"

definition JsonPointerSchema :: zod where
  "JsonPointerSchema = ZString (Some ''^(/([^/~]|~[01])*)*$'')"

definition AddOperationSchema :: zod where
  "AddOperationSchema =
     ZObject [
        (''op'', ZLiteral ''add''),
        (''path'', JsonPointerSchema),
        (''value'', ZAny NotUndefined)] True"

definition RemoveOperationSchema :: zod where
  "RemoveOperationSchema =
     ZObject [
        (''op'', ZLiteral ''remove''),
        (''path'', JsonPointerSchema)] True"

definition ReplaceOperationSchema :: zod where
  "ReplaceOperationSchema =
     ZObject [
        (''op'', ZLiteral ''replace''),
        (''path'', JsonPointerSchema),
        (''value'', ZAny NotUndefined)] True"

definition MoveOperationSchema :: zod where
  "MoveOperationSchema =
     ZObject [
        (''op'', ZLiteral ''move''),
        (''from'', JsonPointerSchema),
        (''path'', JsonPointerSchema)] True"

definition CopyOperationSchema :: zod where
  "CopyOperationSchema =
     ZObject [
        (''op'', ZLiteral ''copy''),
        (''from'', JsonPointerSchema),
        (''path'', JsonPointerSchema)] True"

definition TestOperationSchema :: zod where
  "TestOperationSchema =
     ZObject [
        (''op'', ZLiteral ''test''),
        (''path'', JsonPointerSchema),
        (''value'', ZAny NotUndefined)] True"

definition JsonPatchOperationSchema :: zod where
  "JsonPatchOperationSchema =
     ZUnion (Some ''op'') [
        AddOperationSchema,
        RemoveOperationSchema,
        ReplaceOperationSchema,
        MoveOperationSchema,
        CopyOperationSchema,
        TestOperationSchema]"

definition JsonPatchSchema :: zod where
  "JsonPatchSchema = ZArray 0 JsonPatchOperationSchema"

definition StateDeltaEventSchema :: zod where
  "StateDeltaEventSchema =
     ZObject [
        (''type'', ZLiteral ''STATE_DELTA''),
        (''timestamp'', ZOptional (ZInt (-9007199254740991) 9007199254740991)),
        (''rawEvent'', ZOptional (ZAny NotNull)),
        (''metadata'', ZOptional MetadataSchema),
        (''subagentRunId'', ZOptional SubagentRunIdSchema),
        (''delta'', JsonPatchSchema)] False"

definition DeveloperMessageSchema :: zod where
  "DeveloperMessageSchema =
     ZObject [
        (''subagentRunId'', ZOptional SubagentRunIdSchema),
        (''id'', ZString None),
        (''role'', ZLiteral ''developer''),
        (''name'', ZOptional (ZString None)),
        (''encryptedValue'', ZOptional (ZString None)),
        (''metadata'', ZOptional MetadataSchema),
        (''content'', ZString None)] False"

definition SystemMessageSchema :: zod where
  "SystemMessageSchema =
     ZObject [
        (''subagentRunId'', ZOptional SubagentRunIdSchema),
        (''id'', ZString None),
        (''role'', ZLiteral ''system''),
        (''name'', ZOptional (ZString None)),
        (''encryptedValue'', ZOptional (ZString None)),
        (''metadata'', ZOptional MetadataSchema),
        (''content'', ZString None)] False"

definition FunctionCallSchema :: zod where
  "FunctionCallSchema =
     ZObject [
        (''name'', ZString None),
        (''arguments'', ZString None)] False"

definition ToolCallSchema :: zod where
  "ToolCallSchema =
     ZObject [
        (''id'', ZString None),
        (''type'', ZLiteral ''function''),
        (''function'', FunctionCallSchema),
        (''encryptedValue'', ZOptional (ZString None)),
        (''metadata'', ZOptional MetadataSchema)] False"

definition AssistantMessageSchema :: zod where
  "AssistantMessageSchema =
     ZObject [
        (''subagentRunId'', ZOptional SubagentRunIdSchema),
        (''id'', ZString None),
        (''role'', ZLiteral ''assistant''),
        (''name'', ZOptional (ZString None)),
        (''encryptedValue'', ZOptional (ZString None)),
        (''metadata'', ZOptional MetadataSchema),
        (''content'', ZOptional (ZString None)),
        (''toolCalls'', ZOptional (ZArray 0 ToolCallSchema))] False"

definition UserMessageSchema :: zod where
  "UserMessageSchema =
     ZObject [
        (''subagentRunId'', ZOptional SubagentRunIdSchema),
        (''id'', ZString None),
        (''role'', ZLiteral ''user''),
        (''name'', ZOptional (ZString None)),
        (''encryptedValue'', ZOptional (ZString None)),
        (''metadata'', ZOptional MetadataSchema),
        (''content'', ZUnion None [ZString None, ZArray 0 ContentPartSchema])] False"

definition ToolMessageSchema :: zod where
  "ToolMessageSchema =
     ZObject [
        (''subagentRunId'', ZOptional SubagentRunIdSchema),
        (''id'', ZString None),
        (''role'', ZLiteral ''tool''),
        (''content'', ZUnion None [ZString None, ZArray 0 ContentPartSchema]),
        (''toolCallId'', ZString None),
        (''error'', ZOptional (ZString None)),
        (''encryptedValue'', ZOptional (ZString None)),
        (''metadata'', ZOptional MetadataSchema)] False"

definition ActivityMessageSchema :: zod where
  "ActivityMessageSchema =
     ZObject [
        (''subagentRunId'', ZOptional SubagentRunIdSchema),
        (''id'', ZString None),
        (''role'', ZLiteral ''activity''),
        (''activityType'', ZString None),
        (''content'', ZCustomObject),
        (''metadata'', ZOptional MetadataSchema)] False"

definition ReasoningMessageSchema :: zod where
  "ReasoningMessageSchema =
     ZObject [
        (''subagentRunId'', ZOptional SubagentRunIdSchema),
        (''id'', ZString None),
        (''role'', ZLiteral ''reasoning''),
        (''content'', ZString None),
        (''encryptedValue'', ZOptional (ZString None)),
        (''metadata'', ZOptional MetadataSchema)] False"

definition MessageSchema :: zod where
  "MessageSchema =
     ZUnion (Some ''role'') [
        DeveloperMessageSchema,
        SystemMessageSchema,
        AssistantMessageSchema,
        UserMessageSchema,
        ToolMessageSchema,
        ActivityMessageSchema,
        ReasoningMessageSchema]"

definition MessagesSnapshotEventSchema :: zod where
  "MessagesSnapshotEventSchema =
     ZObject [
        (''type'', ZLiteral ''MESSAGES_SNAPSHOT''),
        (''timestamp'', ZOptional (ZInt (-9007199254740991) 9007199254740991)),
        (''rawEvent'', ZOptional (ZAny NotNull)),
        (''metadata'', ZOptional MetadataSchema),
        (''messages'', ZArray 0 MessageSchema)] False"

definition ActivitySnapshotEventSchema :: zod where
  "ActivitySnapshotEventSchema =
     ZObject [
        (''type'', ZLiteral ''ACTIVITY_SNAPSHOT''),
        (''timestamp'', ZOptional (ZInt (-9007199254740991) 9007199254740991)),
        (''rawEvent'', ZOptional (ZAny NotNull)),
        (''metadata'', ZOptional MetadataSchema),
        (''subagentRunId'', ZOptional SubagentRunIdSchema),
        (''messageId'', ZString None),
        (''activityType'', ZString None),
        (''content'', ZCustomObject),
        (''replace'', ZOptional ZBoolean)] False"

definition ActivityDeltaEventSchema :: zod where
  "ActivityDeltaEventSchema =
     ZObject [
        (''type'', ZLiteral ''ACTIVITY_DELTA''),
        (''timestamp'', ZOptional (ZInt (-9007199254740991) 9007199254740991)),
        (''rawEvent'', ZOptional (ZAny NotNull)),
        (''metadata'', ZOptional MetadataSchema),
        (''subagentRunId'', ZOptional SubagentRunIdSchema),
        (''messageId'', ZString None),
        (''activityType'', ZString None),
        (''patch'', JsonPatchSchema)] False"

definition RawEventSchema :: zod where
  "RawEventSchema =
     ZObject [
        (''type'', ZLiteral ''RAW''),
        (''timestamp'', ZOptional (ZInt (-9007199254740991) 9007199254740991)),
        (''rawEvent'', ZOptional (ZAny NotNull)),
        (''metadata'', ZOptional MetadataSchema),
        (''subagentRunId'', ZOptional SubagentRunIdSchema),
        (''event'', ZAny NotUndefined),
        (''source'', ZOptional (ZString None))] False"

definition CustomEventSchema :: zod where
  "CustomEventSchema =
     ZObject [
        (''type'', ZLiteral ''CUSTOM''),
        (''timestamp'', ZOptional (ZInt (-9007199254740991) 9007199254740991)),
        (''rawEvent'', ZOptional (ZAny NotNull)),
        (''metadata'', ZOptional MetadataSchema),
        (''subagentRunId'', ZOptional SubagentRunIdSchema),
        (''name'', ZString None),
        (''value'', ZAny NotUndefined)] False"

definition ToolSchema :: zod where
  "ToolSchema =
     ZObject [
        (''name'', ZString None),
        (''description'', ZString None),
        (''parameters'', ZOptional (ZAny NotNull)),
        (''metadata'', ZOptional MetadataSchema)] False"

definition ContextSchema :: zod where
  "ContextSchema =
     ZObject [
        (''description'', ZString None),
        (''value'', ZString None)] False"

definition ResumeEntrySchema :: zod where
  "ResumeEntrySchema =
     ZObject [
        (''interruptId'', ZString None),
        (''status'', ZEnum [''resolved'', ''cancelled'']),
        (''payload'', ZOptional (ZAny NotNull)),
        (''metadata'', ZOptional MetadataSchema)] False"

definition RunAgentInputSchema :: zod where
  "RunAgentInputSchema =
     ZObject [
        (''threadId'', ZString None),
        (''runId'', ZString None),
        (''protocolVersion'', ZOptional (ZString None)),
        (''parentRunId'', ZOptional (ZString None)),
        (''state'', ZOptional (ZPipe (ZNullable (ZAny NotNull)) ZTransform)),
        (''messages'', ZArray 0 MessageSchema),
        (''tools'', ZDefault (ZArray 0 ToolSchema)),
        (''context'', ZDefault (ZArray 0 ContextSchema)),
        (''forwardedProps'', ZOptional (ZAny NotNull)),
        (''resume'', ZOptional (ZArray 0 ResumeEntrySchema))] False"

definition RunStartedEventSchema :: zod where
  "RunStartedEventSchema =
     ZObject [
        (''type'', ZLiteral ''RUN_STARTED''),
        (''timestamp'', ZOptional (ZInt (-9007199254740991) 9007199254740991)),
        (''rawEvent'', ZOptional (ZAny NotNull)),
        (''metadata'', ZOptional MetadataSchema),
        (''threadId'', ZString None),
        (''runId'', ZString None),
        (''protocolVersion'', ZOptional (ZString None)),
        (''parentRunId'', ZOptional (ZString None)),
        (''input'', ZOptional RunAgentInputSchema)] False"

definition RunFinishedSuccessOutcomeSchema :: zod where
  "RunFinishedSuccessOutcomeSchema =
     ZObject [
        (''type'', ZLiteral ''success''),
        (''pendingToolCallIds'', ZOptional (ZArray 0 (ZString None)))] False"

definition InterruptSchema :: zod where
  "InterruptSchema =
     ZObject [
        (''subagentRunId'', ZOptional SubagentRunIdSchema),
        (''id'', ZString None),
        (''reason'', ZString None),
        (''message'', ZOptional (ZString None)),
        (''toolCallId'', ZOptional (ZString None)),
        (''responseSchema'', ZOptional ZCustomObject),
        (''expiresAt'', ZOptional (ZString None)),
        (''metadata'', ZOptional MetadataSchema)] False"

definition RunFinishedInterruptOutcomeSchema :: zod where
  "RunFinishedInterruptOutcomeSchema =
     ZObject [
        (''type'', ZLiteral ''interrupt''),
        (''interrupts'', ZArray 1 InterruptSchema)] False"

definition RunFinishedCancelledOutcomeSchema :: zod where
  "RunFinishedCancelledOutcomeSchema =
     ZObject [
        (''type'', ZLiteral ''cancelled'')] False"

definition RunFinishedOutcomeSchema :: zod where
  "RunFinishedOutcomeSchema =
     ZUnion (Some ''type'') [
        RunFinishedSuccessOutcomeSchema,
        RunFinishedInterruptOutcomeSchema,
        RunFinishedCancelledOutcomeSchema]"

definition TokenUsageSchema :: zod where
  "TokenUsageSchema =
     ZObject [
        (''provider'', ZOptional (ZString None)),
        (''model'', ZOptional (ZString None)),
        (''inputTokens'', ZOptional (ZInt 0 9007199254740991)),
        (''outputTokens'', ZOptional (ZInt 0 9007199254740991)),
        (''totalTokens'', ZOptional (ZInt 0 9007199254740991)),
        (''reasoningTokens'', ZOptional (ZInt 0 9007199254740991)),
        (''cachedInputTokens'', ZOptional (ZInt 0 9007199254740991)),
        (''cacheWriteInputTokens'', ZOptional (ZInt 0 9007199254740991))] False"

definition RunFinishedEventSchema :: zod where
  "RunFinishedEventSchema =
     ZObject [
        (''type'', ZLiteral ''RUN_FINISHED''),
        (''timestamp'', ZOptional (ZInt (-9007199254740991) 9007199254740991)),
        (''rawEvent'', ZOptional (ZAny NotNull)),
        (''metadata'', ZOptional MetadataSchema),
        (''threadId'', ZString None),
        (''runId'', ZString None),
        (''result'', ZOptional (ZAny NotNull)),
        (''outcome'', ZOptional RunFinishedOutcomeSchema),
        (''usage'', ZOptional (ZArray 0 TokenUsageSchema))] False"

definition RunErrorEventSchema :: zod where
  "RunErrorEventSchema =
     ZObject [
        (''type'', ZLiteral ''RUN_ERROR''),
        (''timestamp'', ZOptional (ZInt (-9007199254740991) 9007199254740991)),
        (''rawEvent'', ZOptional (ZAny NotNull)),
        (''metadata'', ZOptional MetadataSchema),
        (''message'', ZString None),
        (''code'', ZOptional (ZString None)),
        (''usage'', ZOptional (ZArray 0 TokenUsageSchema))] False"

definition StepStartedEventSchema :: zod where
  "StepStartedEventSchema =
     ZObject [
        (''type'', ZLiteral ''STEP_STARTED''),
        (''timestamp'', ZOptional (ZInt (-9007199254740991) 9007199254740991)),
        (''rawEvent'', ZOptional (ZAny NotNull)),
        (''metadata'', ZOptional MetadataSchema),
        (''subagentRunId'', ZOptional SubagentRunIdSchema),
        (''stepName'', ZString None)] False"

definition StepFinishedEventSchema :: zod where
  "StepFinishedEventSchema =
     ZObject [
        (''type'', ZLiteral ''STEP_FINISHED''),
        (''timestamp'', ZOptional (ZInt (-9007199254740991) 9007199254740991)),
        (''rawEvent'', ZOptional (ZAny NotNull)),
        (''metadata'', ZOptional MetadataSchema),
        (''subagentRunId'', ZOptional SubagentRunIdSchema),
        (''stepName'', ZString None)] False"

definition ReasoningStartEventSchema :: zod where
  "ReasoningStartEventSchema =
     ZObject [
        (''type'', ZLiteral ''REASONING_START''),
        (''timestamp'', ZOptional (ZInt (-9007199254740991) 9007199254740991)),
        (''rawEvent'', ZOptional (ZAny NotNull)),
        (''metadata'', ZOptional MetadataSchema),
        (''subagentRunId'', ZOptional SubagentRunIdSchema),
        (''messageId'', ZString None)] False"

definition ReasoningMessageStartEventSchema :: zod where
  "ReasoningMessageStartEventSchema =
     ZObject [
        (''type'', ZLiteral ''REASONING_MESSAGE_START''),
        (''timestamp'', ZOptional (ZInt (-9007199254740991) 9007199254740991)),
        (''rawEvent'', ZOptional (ZAny NotNull)),
        (''metadata'', ZOptional MetadataSchema),
        (''subagentRunId'', ZOptional SubagentRunIdSchema),
        (''messageId'', ZString None),
        (''role'', ZLiteral ''reasoning'')] False"

definition ReasoningMessageContentEventSchema :: zod where
  "ReasoningMessageContentEventSchema =
     ZObject [
        (''type'', ZLiteral ''REASONING_MESSAGE_CONTENT''),
        (''timestamp'', ZOptional (ZInt (-9007199254740991) 9007199254740991)),
        (''rawEvent'', ZOptional (ZAny NotNull)),
        (''metadata'', ZOptional MetadataSchema),
        (''subagentRunId'', ZOptional SubagentRunIdSchema),
        (''messageId'', ZString None),
        (''delta'', ZString None)] False"

definition ReasoningMessageEndEventSchema :: zod where
  "ReasoningMessageEndEventSchema =
     ZObject [
        (''type'', ZLiteral ''REASONING_MESSAGE_END''),
        (''timestamp'', ZOptional (ZInt (-9007199254740991) 9007199254740991)),
        (''rawEvent'', ZOptional (ZAny NotNull)),
        (''metadata'', ZOptional MetadataSchema),
        (''subagentRunId'', ZOptional SubagentRunIdSchema),
        (''messageId'', ZString None)] False"

definition ReasoningMessageChunkEventSchema :: zod where
  "ReasoningMessageChunkEventSchema =
     ZObject [
        (''type'', ZLiteral ''REASONING_MESSAGE_CHUNK''),
        (''timestamp'', ZOptional (ZInt (-9007199254740991) 9007199254740991)),
        (''rawEvent'', ZOptional (ZAny NotNull)),
        (''metadata'', ZOptional MetadataSchema),
        (''subagentRunId'', ZOptional SubagentRunIdSchema),
        (''messageId'', ZOptional (ZString None)),
        (''delta'', ZOptional (ZString None))] False"

definition ReasoningEndEventSchema :: zod where
  "ReasoningEndEventSchema =
     ZObject [
        (''type'', ZLiteral ''REASONING_END''),
        (''timestamp'', ZOptional (ZInt (-9007199254740991) 9007199254740991)),
        (''rawEvent'', ZOptional (ZAny NotNull)),
        (''metadata'', ZOptional MetadataSchema),
        (''subagentRunId'', ZOptional SubagentRunIdSchema),
        (''messageId'', ZString None)] False"

definition ReasoningEncryptedValueSubtypeSchema :: zod where
  "ReasoningEncryptedValueSubtypeSchema = ZEnum [''tool-call'', ''message'']"

definition ReasoningEncryptedValueEventSchema :: zod where
  "ReasoningEncryptedValueEventSchema =
     ZObject [
        (''type'', ZLiteral ''REASONING_ENCRYPTED_VALUE''),
        (''timestamp'', ZOptional (ZInt (-9007199254740991) 9007199254740991)),
        (''rawEvent'', ZOptional (ZAny NotNull)),
        (''metadata'', ZOptional MetadataSchema),
        (''subagentRunId'', ZOptional SubagentRunIdSchema),
        (''subtype'', ReasoningEncryptedValueSubtypeSchema),
        (''entityId'', ZString None),
        (''encryptedValue'', ZString None)] False"

definition SubagentStartedEventSchema :: zod where
  "SubagentStartedEventSchema =
     ZObject [
        (''type'', ZLiteral ''SUBAGENT_STARTED''),
        (''timestamp'', ZOptional (ZInt (-9007199254740991) 9007199254740991)),
        (''rawEvent'', ZOptional (ZAny NotNull)),
        (''metadata'', ZOptional MetadataSchema),
        (''subagentRunId'', SubagentRunIdSchema),
        (''name'', ZString None),
        (''description'', ZOptional (ZString None)),
        (''parentSubagentRunId'', ZOptional SubagentRunIdSchema),
        (''parentToolCallId'', ZOptional (ZString None)),
        (''parentMessageId'', ZOptional (ZString None))] False"

definition SubagentFinishedSuccessOutcomeSchema :: zod where
  "SubagentFinishedSuccessOutcomeSchema =
     ZObject [
        (''type'', ZLiteral ''success'')] False"

definition SubagentFinishedSuspendedOutcomeSchema :: zod where
  "SubagentFinishedSuspendedOutcomeSchema =
     ZObject [
        (''type'', ZLiteral ''suspended''),
        (''interruptIds'', ZOptional (ZArray 0 (ZString None)))] False"

definition SubagentFinishedOutcomeSchema :: zod where
  "SubagentFinishedOutcomeSchema =
     ZUnion (Some ''type'') [
        SubagentFinishedSuccessOutcomeSchema,
        SubagentFinishedSuspendedOutcomeSchema]"

definition SubagentFinishedEventSchema :: zod where
  "SubagentFinishedEventSchema =
     ZObject [
        (''type'', ZLiteral ''SUBAGENT_FINISHED''),
        (''timestamp'', ZOptional (ZInt (-9007199254740991) 9007199254740991)),
        (''rawEvent'', ZOptional (ZAny NotNull)),
        (''metadata'', ZOptional MetadataSchema),
        (''subagentRunId'', SubagentRunIdSchema),
        (''result'', ZOptional (ZAny NotNull)),
        (''outcome'', ZOptional SubagentFinishedOutcomeSchema)] False"

definition SubagentErrorEventSchema :: zod where
  "SubagentErrorEventSchema =
     ZObject [
        (''type'', ZLiteral ''SUBAGENT_ERROR''),
        (''timestamp'', ZOptional (ZInt (-9007199254740991) 9007199254740991)),
        (''rawEvent'', ZOptional (ZAny NotNull)),
        (''metadata'', ZOptional MetadataSchema),
        (''subagentRunId'', SubagentRunIdSchema),
        (''message'', ZString None),
        (''code'', ZOptional (ZString None))] False"

definition EventSchema :: zod where
  "EventSchema =
     ZUnion (Some ''type'') [
        TextMessageStartEventSchema,
        TextMessageContentEventSchema,
        TextMessageEndEventSchema,
        TextMessageChunkEventSchema,
        ToolCallStartEventSchema,
        ToolCallArgsEventSchema,
        ToolCallEndEventSchema,
        ToolCallChunkEventSchema,
        ToolCallResultEventSchema,
        StateSnapshotEventSchema,
        StateDeltaEventSchema,
        MessagesSnapshotEventSchema,
        ActivitySnapshotEventSchema,
        ActivityDeltaEventSchema,
        RawEventSchema,
        CustomEventSchema,
        RunStartedEventSchema,
        RunFinishedEventSchema,
        RunErrorEventSchema,
        StepStartedEventSchema,
        StepFinishedEventSchema,
        ReasoningStartEventSchema,
        ReasoningMessageStartEventSchema,
        ReasoningMessageContentEventSchema,
        ReasoningMessageEndEventSchema,
        ReasoningMessageChunkEventSchema,
        ReasoningEndEventSchema,
        ReasoningEncryptedValueEventSchema,
        SubagentStartedEventSchema,
        SubagentFinishedEventSchema,
        SubagentErrorEventSchema]"

definition RoleSchema :: zod where
  "RoleSchema = ZEnum [''developer'', ''system'', ''assistant'', ''user'', ''tool'', ''activity'', ''reasoning'']"

definition SubagentInfoSchema :: zod where
  "SubagentInfoSchema =
     ZObject [
        (''name'', ZString None),
        (''description'', ZOptional (ZString None))] False"

definition IdentityCapabilitiesSchema :: zod where
  "IdentityCapabilitiesSchema =
     ZObject [
        (''name'', ZOptional (ZString None)),
        (''type'', ZOptional (ZString None)),
        (''description'', ZOptional (ZString None)),
        (''version'', ZOptional (ZString None)),
        (''provider'', ZOptional (ZString None)),
        (''documentationUrl'', ZOptional (ZString None)),
        (''metadata'', ZOptional MetadataSchema)] False"

definition TransportCapabilitiesSchema :: zod where
  "TransportCapabilitiesSchema =
     ZObject [
        (''streaming'', ZOptional ZBoolean),
        (''websocket'', ZOptional ZBoolean),
        (''httpBinary'', ZOptional ZBoolean),
        (''pushNotifications'', ZOptional ZBoolean),
        (''resumable'', ZOptional ZBoolean)] False"

definition ToolsCapabilitiesSchema :: zod where
  "ToolsCapabilitiesSchema =
     ZObject [
        (''supported'', ZOptional ZBoolean),
        (''items'', ZOptional (ZArray 0 ToolSchema)),
        (''parallelCalls'', ZOptional ZBoolean),
        (''clientProvided'', ZOptional ZBoolean)] False"

definition OutputCapabilitiesSchema :: zod where
  "OutputCapabilitiesSchema =
     ZObject [
        (''structuredOutput'', ZOptional ZBoolean),
        (''supportedMimeTypes'', ZOptional (ZArray 0 (ZString None)))] False"

definition StateCapabilitiesSchema :: zod where
  "StateCapabilitiesSchema =
     ZObject [
        (''snapshots'', ZOptional ZBoolean),
        (''deltas'', ZOptional ZBoolean),
        (''memory'', ZOptional ZBoolean),
        (''persistentState'', ZOptional ZBoolean)] False"

definition MultiAgentCapabilitiesSchema :: zod where
  "MultiAgentCapabilitiesSchema =
     ZObject [
        (''supported'', ZOptional ZBoolean),
        (''delegation'', ZOptional ZBoolean),
        (''handoffs'', ZOptional ZBoolean),
        (''subagents'', ZOptional (ZArray 0 SubagentInfoSchema))] False"

definition ReasoningCapabilitiesSchema :: zod where
  "ReasoningCapabilitiesSchema =
     ZObject [
        (''supported'', ZOptional ZBoolean),
        (''streaming'', ZOptional ZBoolean),
        (''encrypted'', ZOptional ZBoolean)] False"

definition MultimodalInputCapabilitiesSchema :: zod where
  "MultimodalInputCapabilitiesSchema =
     ZObject [
        (''image'', ZOptional ZBoolean),
        (''audio'', ZOptional ZBoolean),
        (''video'', ZOptional ZBoolean),
        (''pdf'', ZOptional ZBoolean),
        (''file'', ZOptional ZBoolean)] False"

definition MultimodalOutputCapabilitiesSchema :: zod where
  "MultimodalOutputCapabilitiesSchema =
     ZObject [
        (''image'', ZOptional ZBoolean),
        (''audio'', ZOptional ZBoolean)] False"

definition MultimodalCapabilitiesSchema :: zod where
  "MultimodalCapabilitiesSchema =
     ZObject [
        (''input'', ZOptional MultimodalInputCapabilitiesSchema),
        (''output'', ZOptional MultimodalOutputCapabilitiesSchema)] False"

definition ExecutionCapabilitiesSchema :: zod where
  "ExecutionCapabilitiesSchema =
     ZObject [
        (''codeExecution'', ZOptional ZBoolean),
        (''sandboxed'', ZOptional ZBoolean),
        (''maxIterations'', ZOptional (ZInt 0 9007199254740991)),
        (''maxExecutionTime'', ZOptional (ZInt 0 9007199254740991))] False"

definition HumanInTheLoopCapabilitiesSchema :: zod where
  "HumanInTheLoopCapabilitiesSchema =
     ZObject [
        (''supported'', ZOptional ZBoolean),
        (''approvals'', ZOptional ZBoolean),
        (''interventions'', ZOptional ZBoolean),
        (''feedback'', ZOptional ZBoolean),
        (''interrupts'', ZOptional ZBoolean),
        (''approveWithEdits'', ZOptional ZBoolean)] False"

definition AgentCapabilitiesSchema :: zod where
  "AgentCapabilitiesSchema =
     ZObject [
        (''identity'', ZOptional IdentityCapabilitiesSchema),
        (''transport'', ZOptional TransportCapabilitiesSchema),
        (''tools'', ZOptional ToolsCapabilitiesSchema),
        (''output'', ZOptional OutputCapabilitiesSchema),
        (''state'', ZOptional StateCapabilitiesSchema),
        (''multiAgent'', ZOptional MultiAgentCapabilitiesSchema),
        (''reasoning'', ZOptional ReasoningCapabilitiesSchema),
        (''multimodal'', ZOptional MultimodalCapabilitiesSchema),
        (''execution'', ZOptional ExecutionCapabilitiesSchema),
        (''humanInTheLoop'', ZOptional HumanInTheLoopCapabilitiesSchema),
        (''custom'', ZOptional ZCustomObject)] False"

definition AttributableSchema :: zod where
  "AttributableSchema =
     ZObject [
        (''subagentRunId'', ZOptional SubagentRunIdSchema)] False"

definition BaseEventSchema :: zod where
  "BaseEventSchema =
     ZObject [
        (''type'', EventTypeSchema),
        (''timestamp'', ZOptional (ZInt (-9007199254740991) 9007199254740991)),
        (''rawEvent'', ZOptional (ZAny NotNull)),
        (''metadata'', ZOptional MetadataSchema)] False"

definition BaseMessageSchema :: zod where
  "BaseMessageSchema =
     ZObject [
        (''subagentRunId'', ZOptional SubagentRunIdSchema),
        (''id'', ZString None),
        (''role'', ZString None),
        (''name'', ZOptional (ZString None)),
        (''encryptedValue'', ZOptional (ZString None)),
        (''metadata'', ZOptional MetadataSchema)] False"

subsection \<open>Serialization shapes\<close>

datatype shape =
    Named string
  | ArrayOf shape
  | Fields "string list" "(string \<times> shape) list"
  | Variants string "(string \<times> string) list"

definition stream_shapes :: "(string \<times> shape) list" where
  "stream_shapes = [
     (''TextMessageStartEvent'', Fields [''timestamp'', ''rawEvent'', ''metadata'', ''subagentRunId'', ''role'',
       ''name''] []),
     (''TextMessageContentEvent'', Fields [''timestamp'', ''rawEvent'', ''metadata'', ''subagentRunId''] []),
     (''TextMessageEndEvent'', Fields [''timestamp'', ''rawEvent'', ''metadata'', ''subagentRunId''] []),
     (''TextMessageChunkEvent'', Fields [''timestamp'', ''rawEvent'', ''metadata'', ''subagentRunId'',
       ''messageId'', ''role'', ''delta'', ''name''] []),
     (''ToolCallStartEvent'', Fields [''timestamp'', ''rawEvent'', ''metadata'', ''subagentRunId'',
       ''parentMessageId''] []),
     (''ToolCallArgsEvent'', Fields [''timestamp'', ''rawEvent'', ''metadata'', ''subagentRunId''] []),
     (''ToolCallEndEvent'', Fields [''timestamp'', ''rawEvent'', ''metadata'', ''subagentRunId''] []),
     (''ToolCallChunkEvent'', Fields [''timestamp'', ''rawEvent'', ''metadata'', ''subagentRunId'',
       ''toolCallId'', ''toolCallName'', ''parentMessageId'', ''delta''] [])]"

definition part_shapes :: "(string \<times> shape) list" where
  "part_shapes = [
     (''TextPart'', Fields [''id'', ''metadata''] []),
     (''DataSource'', Fields [] []),
     (''UrlSource'', Fields [''mimeType''] []),
     (''FileSource'', Fields [''provider'', ''mimeType''] []),
     (''PartSource'', Variants ''type'' [(''data'', ''DataSource''), (''url'', ''UrlSource''), (''file'',
       ''FileSource'')]),
     (''ImagePart'', Fields [''id'', ''metadata''] [(''source'', Named ''PartSource'')]),
     (''AudioPart'', Fields [''id'', ''metadata''] [(''source'', Named ''PartSource'')]),
     (''VideoPart'', Fields [''id'', ''metadata''] [(''source'', Named ''PartSource'')]),
     (''DocumentPart'', Fields [''id'', ''metadata''] [(''source'', Named ''PartSource'')]),
     (''ContentPart'', Variants ''type'' [(''text'', ''TextPart''), (''image'', ''ImagePart''), (''audio'',
       ''AudioPart''), (''video'', ''VideoPart''), (''document'', ''DocumentPart'')]),
     (''ToolCallResultEvent'', Fields [''timestamp'', ''rawEvent'', ''metadata'', ''subagentRunId'',
       ''role''] [(''content'', ArrayOf (Named ''ContentPart''))])]"

definition patch_shapes :: "(string \<times> shape) list" where
  "patch_shapes = [
     (''StateSnapshotEvent'', Fields [''timestamp'', ''rawEvent'', ''metadata'', ''subagentRunId''] []),
     (''AddOperation'', Fields [] []),
     (''RemoveOperation'', Fields [] []),
     (''ReplaceOperation'', Fields [] []),
     (''MoveOperation'', Fields [] []),
     (''CopyOperation'', Fields [] []),
     (''TestOperation'', Fields [] []),
     (''JsonPatchOperation'', Variants ''op'' [(''add'', ''AddOperation''), (''remove'', ''RemoveOperation''),
       (''replace'', ''ReplaceOperation''), (''move'', ''MoveOperation''), (''copy'', ''CopyOperation''),
       (''test'', ''TestOperation'')]),
     (''StateDeltaEvent'', Fields [''timestamp'', ''rawEvent'', ''metadata'', ''subagentRunId''] [(''delta'',
       ArrayOf (Named ''JsonPatchOperation''))])]"

definition message_shapes :: "(string \<times> shape) list" where
  "message_shapes = [
     (''DeveloperMessage'', Fields [''subagentRunId'', ''name'', ''encryptedValue'', ''metadata''] []),
     (''SystemMessage'', Fields [''subagentRunId'', ''name'', ''encryptedValue'', ''metadata''] []),
     (''FunctionCall'', Fields [] []),
     (''ToolCall'', Fields [''encryptedValue'', ''metadata''] [(''function'', Named ''FunctionCall'')]),
     (''AssistantMessage'', Fields [''subagentRunId'', ''name'', ''encryptedValue'', ''metadata'', ''content'',
       ''toolCalls''] [(''toolCalls'', ArrayOf (Named ''ToolCall''))]),
     (''UserMessage'', Fields [''subagentRunId'', ''name'', ''encryptedValue'', ''metadata''] [(''content'',
       ArrayOf (Named ''ContentPart''))]),
     (''ToolMessage'', Fields [''subagentRunId'', ''error'', ''encryptedValue'', ''metadata''] [(''content'',
       ArrayOf (Named ''ContentPart''))]),
     (''ActivityMessage'', Fields [''subagentRunId'', ''metadata''] []),
     (''ReasoningMessage'', Fields [''subagentRunId'', ''encryptedValue'', ''metadata''] []),
     (''Message'', Variants ''role'' [(''developer'', ''DeveloperMessage''), (''system'', ''SystemMessage''),
       (''assistant'', ''AssistantMessage''), (''user'', ''UserMessage''), (''tool'', ''ToolMessage''),
       (''activity'', ''ActivityMessage''), (''reasoning'', ''ReasoningMessage'')]),
     (''MessagesSnapshotEvent'', Fields [''timestamp'', ''rawEvent'', ''metadata''] [(''messages'',
       ArrayOf (Named ''Message''))])]"

definition activity_shapes :: "(string \<times> shape) list" where
  "activity_shapes = [
     (''ActivitySnapshotEvent'', Fields [''timestamp'', ''rawEvent'', ''metadata'', ''subagentRunId'',
       ''replace''] []),
     (''ActivityDeltaEvent'', Fields [''timestamp'', ''rawEvent'', ''metadata'', ''subagentRunId''] [(''patch'',
       ArrayOf (Named ''JsonPatchOperation''))]),
     (''RawEvent'', Fields [''timestamp'', ''rawEvent'', ''metadata'', ''subagentRunId'', ''source''] []),
     (''CustomEvent'', Fields [''timestamp'', ''rawEvent'', ''metadata'', ''subagentRunId''] [])]"

definition input_shapes :: "(string \<times> shape) list" where
  "input_shapes = [
     (''Tool'', Fields [''parameters'', ''metadata''] []),
     (''Context'', Fields [] []),
     (''ResumeEntry'', Fields [''payload'', ''metadata''] []),
     (''RunAgentInput'', Fields [''protocolVersion'', ''parentRunId'', ''state'', ''tools'', ''context'',
       ''forwardedProps'', ''resume''] [(''messages'', ArrayOf (Named ''Message'')), (''tools'',
       ArrayOf (Named ''Tool'')), (''context'', ArrayOf (Named ''Context'')), (''resume'',
       ArrayOf (Named ''ResumeEntry''))])]"

definition run_shapes :: "(string \<times> shape) list" where
  "run_shapes = [
     (''RunStartedEvent'', Fields [''timestamp'', ''rawEvent'', ''metadata'', ''protocolVersion'',
       ''parentRunId'', ''input''] [(''input'', Named ''RunAgentInput'')]),
     (''RunFinishedSuccessOutcome'', Fields [''pendingToolCallIds''] []),
     (''Interrupt'', Fields [''subagentRunId'', ''message'', ''toolCallId'', ''responseSchema'', ''expiresAt'',
       ''metadata''] []),
     (''RunFinishedInterruptOutcome'', Fields [] [(''interrupts'', ArrayOf (Named ''Interrupt''))]),
     (''RunFinishedCancelledOutcome'', Fields [] []),
     (''RunFinishedOutcome'', Variants ''type'' [(''success'', ''RunFinishedSuccessOutcome''), (''interrupt'',
       ''RunFinishedInterruptOutcome''), (''cancelled'', ''RunFinishedCancelledOutcome'')]),
     (''TokenUsage'', Fields [''provider'', ''model'', ''inputTokens'', ''outputTokens'', ''totalTokens'',
       ''reasoningTokens'', ''cachedInputTokens'', ''cacheWriteInputTokens''] []),
     (''RunFinishedEvent'', Fields [''timestamp'', ''rawEvent'', ''metadata'', ''result'', ''outcome'',
       ''usage''] [(''outcome'', Named ''RunFinishedOutcome''), (''usage'', ArrayOf (Named ''TokenUsage''))]),
     (''RunErrorEvent'', Fields [''timestamp'', ''rawEvent'', ''metadata'', ''code'', ''usage''] [(''usage'',
       ArrayOf (Named ''TokenUsage''))])]"

definition step_shapes :: "(string \<times> shape) list" where
  "step_shapes = [
     (''StepStartedEvent'', Fields [''timestamp'', ''rawEvent'', ''metadata'', ''subagentRunId''] []),
     (''StepFinishedEvent'', Fields [''timestamp'', ''rawEvent'', ''metadata'', ''subagentRunId''] []),
     (''ReasoningStartEvent'', Fields [''timestamp'', ''rawEvent'', ''metadata'', ''subagentRunId''] []),
     (''ReasoningMessageStartEvent'', Fields [''timestamp'', ''rawEvent'', ''metadata'', ''subagentRunId''] []),
     (''ReasoningMessageContentEvent'', Fields [''timestamp'', ''rawEvent'', ''metadata'', ''subagentRunId''] []),
     (''ReasoningMessageEndEvent'', Fields [''timestamp'', ''rawEvent'', ''metadata'', ''subagentRunId''] []),
     (''ReasoningMessageChunkEvent'', Fields [''timestamp'', ''rawEvent'', ''metadata'', ''subagentRunId'',
       ''messageId'', ''delta''] []),
     (''ReasoningEndEvent'', Fields [''timestamp'', ''rawEvent'', ''metadata'', ''subagentRunId''] []),
     (''ReasoningEncryptedValueEvent'', Fields [''timestamp'', ''rawEvent'', ''metadata'', ''subagentRunId''] [])]"

definition subagent_shapes :: "(string \<times> shape) list" where
  "subagent_shapes = [
     (''SubagentStartedEvent'', Fields [''timestamp'', ''rawEvent'', ''metadata'', ''description'',
       ''parentSubagentRunId'', ''parentToolCallId'', ''parentMessageId''] []),
     (''SubagentFinishedSuccessOutcome'', Fields [] []),
     (''SubagentFinishedSuspendedOutcome'', Fields [''interruptIds''] []),
     (''SubagentFinishedOutcome'', Variants ''type'' [(''success'', ''SubagentFinishedSuccessOutcome''),
       (''suspended'', ''SubagentFinishedSuspendedOutcome'')]),
     (''SubagentFinishedEvent'', Fields [''timestamp'', ''rawEvent'', ''metadata'', ''result'',
       ''outcome''] [(''outcome'', Named ''SubagentFinishedOutcome'')]),
     (''SubagentErrorEvent'', Fields [''timestamp'', ''rawEvent'', ''metadata'', ''code''] [])]"

definition event_shape :: "(string \<times> shape) list" where
  "event_shape = [
     (''Event'', Variants ''type'' [(''TEXT_MESSAGE_START'', ''TextMessageStartEvent''),
       (''TEXT_MESSAGE_CONTENT'', ''TextMessageContentEvent''), (''TEXT_MESSAGE_END'', ''TextMessageEndEvent''),
       (''TEXT_MESSAGE_CHUNK'', ''TextMessageChunkEvent''), (''TOOL_CALL_START'', ''ToolCallStartEvent''),
       (''TOOL_CALL_ARGS'', ''ToolCallArgsEvent''), (''TOOL_CALL_END'', ''ToolCallEndEvent''),
       (''TOOL_CALL_CHUNK'', ''ToolCallChunkEvent''), (''TOOL_CALL_RESULT'', ''ToolCallResultEvent''),
       (''STATE_SNAPSHOT'', ''StateSnapshotEvent''), (''STATE_DELTA'', ''StateDeltaEvent''),
       (''MESSAGES_SNAPSHOT'', ''MessagesSnapshotEvent''), (''ACTIVITY_SNAPSHOT'', ''ActivitySnapshotEvent''),
       (''ACTIVITY_DELTA'', ''ActivityDeltaEvent''), (''RAW'', ''RawEvent''), (''CUSTOM'', ''CustomEvent''),
       (''RUN_STARTED'', ''RunStartedEvent''), (''RUN_FINISHED'', ''RunFinishedEvent''), (''RUN_ERROR'',
       ''RunErrorEvent''), (''STEP_STARTED'', ''StepStartedEvent''), (''STEP_FINISHED'', ''StepFinishedEvent''),
       (''REASONING_START'', ''ReasoningStartEvent''), (''REASONING_MESSAGE_START'',
       ''ReasoningMessageStartEvent''), (''REASONING_MESSAGE_CONTENT'', ''ReasoningMessageContentEvent''),
       (''REASONING_MESSAGE_END'', ''ReasoningMessageEndEvent''), (''REASONING_MESSAGE_CHUNK'',
       ''ReasoningMessageChunkEvent''), (''REASONING_END'', ''ReasoningEndEvent''),
       (''REASONING_ENCRYPTED_VALUE'', ''ReasoningEncryptedValueEvent''), (''SUBAGENT_STARTED'',
       ''SubagentStartedEvent''), (''SUBAGENT_FINISHED'', ''SubagentFinishedEvent''), (''SUBAGENT_ERROR'',
       ''SubagentErrorEvent'')])]"

definition capability_shapes :: "(string \<times> shape) list" where
  "capability_shapes = [
     (''SubagentInfo'', Fields [''description''] []),
     (''IdentityCapabilities'', Fields [''name'', ''type'', ''description'', ''version'', ''provider'',
       ''documentationUrl'', ''metadata''] []),
     (''TransportCapabilities'', Fields [''streaming'', ''websocket'', ''httpBinary'', ''pushNotifications'',
       ''resumable''] []),
     (''ToolsCapabilities'', Fields [''supported'', ''items'', ''parallelCalls'',
       ''clientProvided''] [(''items'', ArrayOf (Named ''Tool''))]),
     (''OutputCapabilities'', Fields [''structuredOutput'', ''supportedMimeTypes''] []),
     (''StateCapabilities'', Fields [''snapshots'', ''deltas'', ''memory'', ''persistentState''] []),
     (''MultiAgentCapabilities'', Fields [''supported'', ''delegation'', ''handoffs'',
       ''subagents''] [(''subagents'', ArrayOf (Named ''SubagentInfo''))]),
     (''ReasoningCapabilities'', Fields [''supported'', ''streaming'', ''encrypted''] []),
     (''MultimodalInputCapabilities'', Fields [''image'', ''audio'', ''video'', ''pdf'', ''file''] []),
     (''MultimodalOutputCapabilities'', Fields [''image'', ''audio''] []),
     (''MultimodalCapabilities'', Fields [''input'', ''output''] [(''input'',
       Named ''MultimodalInputCapabilities''), (''output'', Named ''MultimodalOutputCapabilities'')]),
     (''ExecutionCapabilities'', Fields [''codeExecution'', ''sandboxed'', ''maxIterations'',
       ''maxExecutionTime''] []),
     (''HumanInTheLoopCapabilities'', Fields [''supported'', ''approvals'', ''interventions'', ''feedback'',
       ''interrupts'', ''approveWithEdits''] []),
     (''AgentCapabilities'', Fields [''identity'', ''transport'', ''tools'', ''output'', ''state'',
       ''multiAgent'', ''reasoning'', ''multimodal'', ''execution'', ''humanInTheLoop'',
       ''custom''] [(''identity'', Named ''IdentityCapabilities''), (''transport'',
       Named ''TransportCapabilities''), (''tools'', Named ''ToolsCapabilities''), (''output'',
       Named ''OutputCapabilities''), (''state'', Named ''StateCapabilities''), (''multiAgent'',
       Named ''MultiAgentCapabilities''), (''reasoning'', Named ''ReasoningCapabilities''), (''multimodal'',
       Named ''MultimodalCapabilities''), (''execution'', Named ''ExecutionCapabilities''), (''humanInTheLoop'',
       Named ''HumanInTheLoopCapabilities'')])]"

definition shapes :: "(string \<times> shape) list" where
  "shapes = stream_shapes @ part_shapes @ patch_shapes @ message_shapes @ activity_shapes @ input_shapes @ run_shapes @ step_shapes @ subagent_shapes @ event_shape @ capability_shapes"

end
