(* ===== verification/AGUI_Enforce.thy ===== *)
theory AGUI_Enforce
  imports AGUI_Schema
begin

section \<open>Enforcement and serialization\<close>

text \<open>
  \<^verbatim>\<open>client/src/enforce/strip.ts\<close> and \<^verbatim>\<open>enforce.ts\<close>, the stage behind
  the middleware that removes what the protocol does not describe, and \<open>omitOptionalNulls\<close> of
  \<^verbatim>\<open>core/src/generated/serialization.ts\<close>, which every encoder applies.

  The array \<open>stripped\<close> that \<open>stripAgainst\<close> appends to is returned with the value. The
  marker \<open>DROP\<close> is \<open>None\<close>, without paths: every caller cuts the array back to where it
  stood before a child that is dropped. The zod library is not part of the repository: whether a
  schema accepts \<open>undefined\<close> (\<open>field.safeParse(undefined).success\<close>) is the parameter
  \<open>optional\<close>, what a schema parses a value to is the parameter \<open>parse\<close>.
\<close>

subsection \<open>Stripping\<close>

fun unwrap :: "zod \<Rightarrow> zod" where
  "unwrap (ZOptional s) = unwrap s"
| "unwrap (ZNullable s) = unwrap s"
| "unwrap (ZDefault s) = unwrap s"
| "unwrap (ZReadonly s) = unwrap s"
| "unwrap (ZCatch s) = unwrap s"
| "unwrap (ZPipe i out) = unwrap i"
| "unwrap (ZLazy s) = unwrap s"
| "unwrap s = s"

fun literalValueOf :: "zod option \<Rightarrow> js" where
  "literalValueOf None = JUndef"
| "literalValueOf (Some s) = (case unwrap s of ZLiteral v \<Rightarrow> JStr v | _ \<Rightarrow> JUndef)"

text \<open>The option of a discriminated union that has the value's tag.\<close>

definition tagged_option :: "string \<Rightarrow> jobj \<Rightarrow> zod \<Rightarrow> bool" where
  "tagged_option discriminator record s =
     (case unwrap s of
        ZObject shape specOpen \<Rightarrow> literalValueOf (map_of shape discriminator) = oget record discriminator
      | _ \<Rightarrow> False)"

definition is_zobject :: "zod \<Rightarrow> bool" where
  "is_zobject s = (case unwrap s of ZObject shape specOpen \<Rightarrow> True | _ \<Rightarrow> False)"

definition is_zarray :: "zod \<Rightarrow> bool" where
  "is_zarray s = (case unwrap s of ZArray n el \<Rightarrow> True | _ \<Rightarrow> False)"

definition structural_option :: "zod list \<Rightarrow> js \<Rightarrow> zod option" where
  "structural_option options v =
     (if 1 < length (filter is_zobject options) \<and> is_object v then None
      else find (\<lambda>s. is_zarray s \<and> is_array v \<or> is_zobject s \<and> is_object v) options)"

definition chosen_option :: "string option \<Rightarrow> zod list \<Rightarrow> js \<Rightarrow> zod option" where
  "chosen_option discriminator options v =
     (case discriminator of
        None \<Rightarrow> structural_option options v
      | Some d \<Rightarrow> find (tagged_option d (fields_of v)) options)"

lemma size_unwrap: "size (unwrap s) \<le> size s"
  by (induction s rule: unwrap.induct) auto

lemma size_member: "x \<in> set xs \<Longrightarrow> size x < size_list size xs"
  by (induction xs) auto

lemma chosen_option_member: "chosen_option d options v = Some s \<Longrightarrow> s \<in> set options"
  by (auto simp: chosen_option_def structural_option_def find_Some_iff split: option.splits if_splits)

lemma size_chosen:
  assumes "unwrap s = ZUnion d options" and "chosen_option d options v = Some s'"
  shows "size s' < size s"
  using size_member [OF chosen_option_member [OF assms(2)]] size_unwrap [of s] assms(1) by simp

function (sequential)
    stripAgainst :: "(zod \<Rightarrow> bool) \<Rightarrow> js \<Rightarrow> zod \<Rightarrow> string \<Rightarrow> (js \<times> string list) option"
and strip_properties :: "(zod \<Rightarrow> bool) \<Rightarrow> jobj \<Rightarrow> (string \<times> zod) list \<Rightarrow> bool \<Rightarrow> string \<Rightarrow> (jobj \<times> string list) option"
and strip_elements :: "(zod \<Rightarrow> bool) \<Rightarrow> js list \<Rightarrow> zod \<Rightarrow> string \<Rightarrow> nat \<Rightarrow> js list \<times> string list"
and strip_values :: "(zod \<Rightarrow> bool) \<Rightarrow> jobj \<Rightarrow> zod \<Rightarrow> string \<Rightarrow> jobj \<times> string list" where
  "stripAgainst optional v s path =
     (case unwrap s of
        ZObject shape specOpen \<Rightarrow>
          (case v of
             JObj record \<Rightarrow> map_option (\<lambda>(r, ps). (JObj r, ps)) (strip_properties optional record shape specOpen path)
           | _ \<Rightarrow> Some (v, []))
      | ZArray n element \<Rightarrow>
          (case v of
             JArr xs \<Rightarrow> (case strip_elements optional xs element path 0 of (ys, ps) \<Rightarrow> Some (JArr ys, ps))
           | _ \<Rightarrow> Some (v, []))
      | ZRecord valueType \<Rightarrow>
          (case v of
             JObj record \<Rightarrow> (case strip_values optional record valueType path of (r, ps) \<Rightarrow> Some (JObj r, ps))
           | _ \<Rightarrow> Some (v, []))
      | ZUnion discriminator options \<Rightarrow>
          if discriminator \<noteq> None \<and> \<not> is_object v then Some (v, [])
          else (case chosen_option discriminator options v of
                  Some s' \<Rightarrow> stripAgainst optional v s' path
                | None \<Rightarrow> if discriminator = None then Some (v, []) else None)
      | _ \<Rightarrow> Some (v, []))"
| "strip_properties optional [] shape specOpen path = Some ([], [])"
| "strip_properties optional ((k, v) # record) shape specOpen path =
     (case map_of shape k of
        None \<Rightarrow>
          (case strip_properties optional record shape specOpen path of
             None \<Rightarrow> None
           | Some (r, ps) \<Rightarrow> if specOpen then Some ((k, v) # r, ps) else Some (r, (path @ ''/'' @ k) # ps))
      | Some field \<Rightarrow>
          (case stripAgainst optional v field (path @ ''/'' @ k) of
             None \<Rightarrow>
               if optional field
               then (case strip_properties optional record shape specOpen path of
                       None \<Rightarrow> None
                     | Some (r, ps) \<Rightarrow> Some (r, (path @ ''/'' @ k) # ps))
               else None
           | Some (child, qs) \<Rightarrow>
               (case strip_properties optional record shape specOpen path of
                  None \<Rightarrow> None
                | Some (r, ps) \<Rightarrow> Some ((k, child) # r, qs @ ps))))"
| "strip_elements optional [] element path i = ([], [])"
| "strip_elements optional (x # xs) element path i =
     (case strip_elements optional xs element path (Suc i) of
        (ys, ps) \<Rightarrow>
          (case stripAgainst optional x element (path @ ''/'' @ digits i) of
             None \<Rightarrow> (ys, (path @ ''/'' @ digits i) # ps)
           | Some (child, qs) \<Rightarrow> (child # ys, qs @ ps)))"
| "strip_values optional [] valueType path = ([], [])"
| "strip_values optional ((k, v) # record) valueType path =
     (case strip_values optional record valueType path of
        (r, ps) \<Rightarrow>
          (case stripAgainst optional v valueType (path @ ''/'' @ k) of
             None \<Rightarrow> (r, (path @ ''/'' @ k) # ps)
           | Some (child, qs) \<Rightarrow> ((k, child) # r, qs @ ps)))"
  by pat_completeness auto
termination
  by (relation "measures [
      \<lambda>x. case x of Inl (Inl (_, v, _, _)) \<Rightarrow> size v
         | Inl (Inr (_, r, _, _, _)) \<Rightarrow> size_list (size_prod (\<lambda>_. 0) size) r
         | Inr (Inl (_, xs, _, _, _)) \<Rightarrow> size_list size xs
         | Inr (Inr (_, r, _, _)) \<Rightarrow> size_list (size_prod (\<lambda>_. 0) size) r,
      \<lambda>x. case x of Inl (Inl (_, _, s, _)) \<Rightarrow> size s | _ \<Rightarrow> 0]")
    (auto simp: size_chosen)

declare stripAgainst.simps [simp del]

subsection \<open>When a value can be dropped whole\<close>

text \<open>
  A schema loses its whole value only if it is a discriminated union, or an object that requires a
  field of such a kind.
\<close>

fun is_optional :: "zod \<Rightarrow> bool" where
  "is_optional (ZOptional s) = True"
| "is_optional s = False"

lemma size_field: "(k, f) \<in> set shape \<Longrightarrow> size f < size_list (size_prod (\<lambda>_. 0) size) shape"
  by (induction shape) auto

function can_drop :: "zod \<Rightarrow> bool" where
  "can_drop s =
     (case unwrap s of
        ZObject shape specOpen \<Rightarrow> list_ex (\<lambda>(k, f). \<not> is_optional f \<and> can_drop f) shape
      | ZUnion d options \<Rightarrow> d \<noteq> None \<or> list_ex can_drop options
      | _ \<Rightarrow> False)"
  by auto
termination
proof (relation "measure size", goal_cases)
  case (2 s shape specOpen x k f)
  then show ?case using size_field [of k f shape] size_unwrap [of s] by auto
next
  case (3 s d options x)
  then show ?case using size_member [of x options] size_unwrap [of s] by auto
qed simp

declare can_drop.simps [simp del]

lemma never_dropped:
  "(\<And>f. optional (ZOptional f)) \<Longrightarrow> \<not> can_drop s \<Longrightarrow> stripAgainst optional v s path \<noteq> None"
  "(\<And>k f. (k, f) \<in> set shape \<Longrightarrow> optional f \<or> \<not> can_drop f) \<Longrightarrow> (\<And>f. optional (ZOptional f)) \<Longrightarrow>
     strip_properties optional obj shape specOpen path \<noteq> None"
  "strip_elements optional xs el p i = strip_elements optional xs el p i"
  "strip_values optional r vt p' = strip_values optional r vt p'"
proof (induction optional v s path and optional obj shape specOpen path and optional xs el p i and optional r vt p'
    rule: stripAgainst_strip_properties_strip_elements_strip_values.induct)
  case (1 optional v s path)
  have fields: "optional f \<or> \<not> can_drop f" if "unwrap s = ZObject shape specOpen" "(k, f) \<in> set shape" for shape specOpen k f
    using 1(5,6) that by (cases f) (auto simp: can_drop.simps [of s] list_ex_iff)
  show ?case
  proof (cases "unwrap s")
    case (ZObject shape specOpen)
    with 1(1) [OF ZObject] fields [OF ZObject] 1(5) show ?thesis
      by (cases v) (auto simp: stripAgainst.simps [of _ _ s])
  next
    case (ZUnion d options)
    with 1(6) have d: "d = None" "\<And>s'. s' \<in> set options \<Longrightarrow> \<not> can_drop s'"
      by (auto simp: can_drop.simps [of s] list_ex_iff)
    with 1(4) [OF ZUnion] 1(5) chosen_option_member [of d options v] ZUnion show ?thesis
      by (auto simp: stripAgainst.simps [of _ _ s] split: option.split)
  qed (auto simp: stripAgainst.simps [of _ _ s] split: js.split prod.split)
next
  case (3 optional k v obj shape specOpen path)
  show ?case
  proof (cases "map_of shape k")
    case None
    with 3(1) 3(5,6) show ?thesis by (fastforce split: option.split)
  next
    case (Some f)
    have f: "optional f \<or> stripAgainst optional v f (path @ ''/'' @ k) \<noteq> None"
      using 3(2) [OF Some] 3(5) [of k f] 3(6) map_of_SomeD [OF Some] by blast
    show ?thesis
    proof (cases "stripAgainst optional v f (path @ ''/'' @ k)")
      case None
      with f 3(3) [OF Some None] 3(5,6) Some show ?thesis by (auto split: option.split)
    next
      case (Some a)
      with 3(4) [OF \<open>map_of shape k = Some f\<close> Some prod.collapse] 3(5,6) \<open>map_of shape k = Some f\<close> show ?thesis
        by (cases a) (auto split: option.split)
    qed
  qed
qed simp_all

subsection \<open>Described values\<close>

text \<open>A value without anything the stripper removes: no undescribed property, no unknown variant.\<close>

lemma size_entry: "(k, x) \<in> set r \<Longrightarrow> size x < size (JObj r)"
  by (induction r) auto

function described :: "js \<Rightarrow> zod \<Rightarrow> bool" where
  "described v s =
     (case unwrap s of
        ZObject shape specOpen \<Rightarrow>
          (case v of
             JObj r \<Rightarrow> list_all (\<lambda>(k, x). case map_of shape k of None \<Rightarrow> specOpen | Some f \<Rightarrow> described x f) r
           | _ \<Rightarrow> True)
      | ZArray n element \<Rightarrow> (case v of JArr xs \<Rightarrow> list_all (\<lambda>x. described x element) xs | _ \<Rightarrow> True)
      | ZRecord valueType \<Rightarrow> (case v of JObj r \<Rightarrow> list_all (\<lambda>(k, x). described x valueType) r | _ \<Rightarrow> True)
      | ZUnion d options \<Rightarrow>
          d \<noteq> None \<and> \<not> is_object v \<or>
          (case chosen_option d options v of Some s' \<Rightarrow> described v s' | None \<Rightarrow> d = None)
      | _ \<Rightarrow> True)"
  by auto
termination
  by (relation "measures [\<lambda>(v, s). size v, \<lambda>(v, s). size s]")
    (auto simp: size_chosen dest: size_entry size_member)

declare described.simps [simp del]

definition described_entry :: "(string \<times> zod) list \<Rightarrow> bool \<Rightarrow> string \<times> js \<Rightarrow> bool" where
  "described_entry shape specOpen = (\<lambda>(k, x). case map_of shape k of None \<Rightarrow> specOpen | Some f \<Rightarrow> described x f)"

lemma described_object:
  "unwrap s = ZObject shape specOpen \<Longrightarrow> described (JObj r) s = list_all (described_entry shape specOpen) r"
  "unwrap s = ZObject shape specOpen \<Longrightarrow> \<not> is_object v \<Longrightarrow> described v s"
  by (auto simp: described.simps [of _ s] described_entry_def split: js.split)

lemma described_entry_simps:
  "map_of shape k = None \<Longrightarrow> described_entry shape specOpen (k, x) = specOpen"
  "map_of shape k = Some f \<Longrightarrow> described_entry shape specOpen (k, x) = described x f"
  by (simp_all add: described_entry_def)

text \<open>Every option of a discriminated union is an object whose discriminator is a literal.\<close>

fun is_literal :: "zod \<Rightarrow> bool" where
  "is_literal (ZLiteral x) = True"
| "is_literal s = False"

lemma is_literal_iff: "is_literal s \<longleftrightarrow> (\<exists>x. s = ZLiteral x)"
  by (cases s) simp_all

definition literal_tag :: "string \<Rightarrow> zod \<Rightarrow> bool" where
  "literal_tag d s =
     (case unwrap s of
        ZObject shape specOpen \<Rightarrow>
          (case map_of shape d of
             None \<Rightarrow> False
           | Some f \<Rightarrow> is_literal (unwrap f))
      | _ \<Rightarrow> False)"

function schema_ok :: "zod \<Rightarrow> bool" where
  "schema_ok s =
     (case unwrap s of
        ZObject shape specOpen \<Rightarrow> list_all (\<lambda>(k, f). schema_ok f) shape
      | ZArray n element \<Rightarrow> schema_ok element
      | ZRecord valueType \<Rightarrow> schema_ok valueType
      | ZUnion d options \<Rightarrow>
          list_all schema_ok options \<and> (case d of None \<Rightarrow> True | Some t \<Rightarrow> list_all (literal_tag t) options)
      | _ \<Rightarrow> True)"
  by auto
termination
proof (relation "measure size", goal_cases)
  case (2 s shape specOpen x k f)
  then show ?case using size_field [of k f shape] size_unwrap [of s] by auto
next
  case (3 s n element)
  then show ?case using size_unwrap [of s] by auto
next
  case (4 s valueType)
  then show ?case using size_unwrap [of s] by auto
next
  case (5 s d options x)
  then show ?case using size_member [of x options] size_unwrap [of s] by auto
qed simp

declare schema_ok.simps [simp del]

lemma strip_kind:
  "stripAgainst optional v s path = Some (v', ps) \<Longrightarrow> is_object v' = is_object v \<and> is_array v' = is_array v"
proof (induction "size s" arbitrary: s v' ps rule: less_induct)
  case less
  show ?case
  proof (cases "unwrap s")
    case (ZUnion d options)
    then show ?thesis
      using less size_chosen [OF ZUnion] by (fastforce simp: stripAgainst.simps [of _ _ s] split: if_splits option.splits)
  qed (use less(2) in \<open>auto simp: stripAgainst.simps [of _ _ s] split: js.splits prod.splits\<close>)
qed

lemma strip_literal: "unwrap f = ZLiteral x \<Longrightarrow> stripAgainst optional v f path = Some (v, [])"
  by (simp add: stripAgainst.simps)

lemma strip_tag:
  assumes "map_of shape t = Some f" and "unwrap f = ZLiteral x"
  shows "strip_properties optional r shape specOpen path = Some (r', ps) \<Longrightarrow> oget r' t = oget r t"
proof (induction r arbitrary: r' ps)
  case (Cons a r)
  obtain k v where a: "a = (k, v)" by (cases a)
  show ?case
  proof (cases "k = t")
    case True
    with Cons a assms show ?thesis by (auto simp: strip_literal split: option.splits)
  next
    case False
    with Cons a show ?thesis by (fastforce split: option.splits if_splits)
  qed
qed simp

lemma chosen_kept:
  assumes ok: "case d of None \<Rightarrow> True | Some t \<Rightarrow> list_all (literal_tag t) options"
    and chosen: "chosen_option d options v = Some s'"
    and strip: "stripAgainst optional v s' path = Some (v', ps)" and v: "d \<noteq> None \<longrightarrow> is_object v"
  shows "chosen_option d options v' = Some s'"
proof (cases d)
  case None
  with chosen strip_kind [OF strip] show ?thesis by (auto simp: chosen_option_def structural_option_def split: if_splits)
next
  case (Some t)
  with v obtain r where r: "v = JObj r" by (cases v) auto
  have "literal_tag t s'" using ok chosen_option_member [OF chosen] Some by (auto simp: list_all_iff)
  then obtain shape specOpen f x where s': "unwrap s' = ZObject shape specOpen" "map_of shape t = Some f" "unwrap f = ZLiteral x"
    by (auto simp: literal_tag_def is_literal_iff split: zod.splits option.splits)
  from strip r s' obtain r' where "v' = JObj r'" "oget r' t = oget r t"
    by (auto simp: stripAgainst.simps [of _ _ s'] strip_tag)
  then have "tagged_option t (fields_of v') = tagged_option t (fields_of v)"
    using r by (intro ext) (auto simp: tagged_option_def split: zod.split)
  then show ?thesis using chosen Some by (simp add: chosen_option_def)
qed


lemma strip_described:
  "schema_ok s \<Longrightarrow> stripAgainst optional v s path = Some (v', ps) \<Longrightarrow> described v' s"
  "list_all (\<lambda>(k, f). schema_ok f) shape \<Longrightarrow> strip_properties optional obj shape specOpen path = Some (obj', ps) \<Longrightarrow>
     list_all (described_entry shape specOpen) obj'"
  "schema_ok el \<Longrightarrow> list_all (\<lambda>x. described x el) (fst (strip_elements optional xs el p i))"
  "schema_ok vt \<Longrightarrow> list_all (\<lambda>(k, x). described x vt) (fst (strip_values optional r vt p'))"
proof (induction optional v s path and optional obj shape specOpen path and optional xs el p i and optional r vt p'
    arbitrary: v' ps and obj' ps and and
    rule: stripAgainst_strip_properties_strip_elements_strip_values.induct)
  case (1 optional v s path)
  show ?case
  proof (cases "unwrap s")
    case (ZObject shape specOpen)
    with 1(1) [OF ZObject] 1(5,6) show ?thesis
      by (cases v) (auto simp: stripAgainst.simps [of _ _ s] described_object [OF ZObject] schema_ok.simps [of s])
  next
    case (ZArray n element)
    with 1(2) [OF ZArray] 1(5,6) show ?thesis
      by (cases v) (auto simp: stripAgainst.simps [of _ _ s] described.simps [of _ s] schema_ok.simps [of s] split: prod.splits)
  next
    case (ZRecord valueType)
    with 1(3) [OF ZRecord] 1(5,6) show ?thesis
      by (cases v) (auto simp: stripAgainst.simps [of _ _ s] described.simps [of _ s] schema_ok.simps [of s] split: prod.splits)
  next
    case (ZUnion d options)
    have ok: "case d of None \<Rightarrow> True | Some t \<Rightarrow> list_all (literal_tag t) options" "list_all schema_ok options"
      using 1(5) ZUnion by (simp_all add: schema_ok.simps [of s])
    show ?thesis
    proof (cases "d \<noteq> None \<and> \<not> is_object v")
      case True
      with 1(6) ZUnion show ?thesis by (auto simp: stripAgainst.simps [of _ _ s] described.simps [of _ s])
    next
      case kind: False
      show ?thesis
      proof (cases "chosen_option d options v")
        case None
        with kind 1(6) ZUnion show ?thesis
          by (auto simp: stripAgainst.simps [of _ _ s] described.simps [of _ s] split: if_splits)
      next
        case (Some s')
        with kind 1(6) ZUnion have strip: "stripAgainst optional v s' path = Some (v', ps)"
          by (auto simp: stripAgainst.simps [of _ _ s] split: if_splits)
        from ok(2) chosen_option_member [OF Some] have "schema_ok s'" by (auto simp: list_all_iff)
        with 1(4) [OF ZUnion kind Some] strip have "described v' s'" by blast
        with chosen_kept [OF ok(1) Some strip] kind ZUnion show ?thesis by (auto simp: described.simps [of _ s])
      qed
    qed
  qed (simp_all add: described.simps [of _ s])
next
  case (3 optional k v obj shape specOpen path)
  show ?case
  proof (cases "map_of shape k")
    case None
    with 3(1) [OF None 3(5)] 3(6) show ?thesis by (auto simp: described_entry_simps split: option.splits if_splits)
  next
    case (Some f)
    then have "schema_ok f" using 3(5) by (auto simp: list_all_iff dest: map_of_SomeD)
    with 3(2) [OF Some] have child: "stripAgainst optional v f (path @ ''/'' @ k) = Some (c, qs) \<Longrightarrow> described c f" for c qs by blast
    show ?thesis
    proof (cases "stripAgainst optional v f (path @ ''/'' @ k)")
      case None
      with 3(3) [OF Some None _ 3(5)] 3(6) Some show ?thesis by (auto split: option.splits if_splits)
    next
      case (Some a)
      with 3(4) [OF \<open>map_of shape k = Some f\<close> Some prod.collapse 3(5)] child 3(6) \<open>map_of shape k = Some f\<close> show ?thesis
        by (cases a) (auto simp: described_entry_simps split: option.splits)
    qed
  qed
next
  case (5 optional x xs element path i)
  with 5(1) [OF 5(3)] 5(2) show ?case by (fastforce split: prod.splits option.splits)
next
  case (7 optional k v obj valueType path)
  with 7(1) [OF 7(3)] 7(2) show ?case by (fastforce split: prod.splits option.splits)
qed simp_all


lemma described_kept:
  "described v s \<Longrightarrow> stripAgainst optional v s path = Some (v, [])"
  "list_all (described_entry shape specOpen) obj \<Longrightarrow>
     strip_properties optional obj shape specOpen path = Some (obj, [])"
  "list_all (\<lambda>x. described x el) xs \<Longrightarrow> strip_elements optional xs el p i = (xs, [])"
  "list_all (\<lambda>(k, x). described x vt) r \<Longrightarrow> strip_values optional r vt p' = (r, [])"
proof (induction optional v s path and optional obj shape specOpen path and optional xs el p i and optional r vt p'
    rule: stripAgainst_strip_properties_strip_elements_strip_values.induct)
  case (1 optional v s path)
  show ?case
  proof (cases "unwrap s")
    case (ZUnion d options)
    with 1(4) [OF ZUnion] 1(5) show ?thesis
      by (auto simp: stripAgainst.simps [of _ _ s] described.simps [of _ s] split: option.splits)
  next
    case (ZObject shape specOpen)
    with 1(1) [OF ZObject] 1(5) show ?thesis
      by (cases v) (auto simp: stripAgainst.simps [of _ _ s] described_object [OF ZObject])
  next
    case (ZArray n element)
    with 1(2) [OF ZArray] 1(5) show ?thesis
      by (cases v) (auto simp: stripAgainst.simps [of _ _ s] described.simps [of _ s])
  next
    case (ZRecord valueType)
    with 1(3) [OF ZRecord] 1(5) show ?thesis
      by (cases v) (auto simp: stripAgainst.simps [of _ _ s] described.simps [of _ s])
  qed (simp_all add: stripAgainst.simps [of _ _ s])
next
  case (3 optional k v obj shape specOpen path)
  then have here: "described_entry shape specOpen (k, v)" and rest: "list_all (described_entry shape specOpen) obj" by simp_all
  show ?case
  proof (cases "map_of shape k")
    case None
    with 3(1) [OF None rest] here show ?thesis by (simp add: described_entry_simps)
  next
    case (Some f)
    with 3(2) [OF Some] here have "stripAgainst optional v f (path @ ''/'' @ k) = Some (v, [])"
      by (simp add: described_entry_simps)
    with 3(4) [OF Some this refl rest] Some show ?thesis by simp
  qed
qed simp_all

lemma silent_kept:
  "stripAgainst optional v s path = Some (v', []) \<Longrightarrow> v' = v"
  "strip_properties optional obj shape specOpen path = Some (obj', []) \<Longrightarrow> obj' = obj"
  "snd (strip_elements optional xs el p i) = [] \<Longrightarrow> fst (strip_elements optional xs el p i) = xs"
  "snd (strip_values optional r vt p') = [] \<Longrightarrow> fst (strip_values optional r vt p') = r"
proof (induction optional v s path and optional obj shape specOpen path and optional xs el p i and optional r vt p'
    arbitrary: v' and obj' and and
    rule: stripAgainst_strip_properties_strip_elements_strip_values.induct)
  case (1 optional v s path)
  show ?case
  proof (cases "unwrap s")
    case (ZUnion d options)
    with 1(4) [OF ZUnion] 1(5) show ?thesis
      by (auto simp: stripAgainst.simps [of _ _ s] split: option.splits if_splits)
  next
    case (ZObject shape specOpen)
    with 1(1) [OF ZObject] 1(5) show ?thesis by (cases v) (auto simp: stripAgainst.simps [of _ _ s])
  next
    case (ZArray n element)
    with 1(2) [OF ZArray] 1(5) show ?thesis
      by (cases v) (auto simp: stripAgainst.simps [of _ _ s] split: prod.splits)
  next
    case (ZRecord valueType)
    with 1(3) [OF ZRecord] 1(5) show ?thesis
      by (cases v) (auto simp: stripAgainst.simps [of _ _ s] split: prod.splits)
  qed (use 1(5) in \<open>simp_all add: stripAgainst.simps [of _ _ s]\<close>)
next
  case (3 optional k v obj shape specOpen path)
  then show ?case by (fastforce split: option.splits if_splits)
next
  case (5 optional x xs element path i)
  then show ?case by (fastforce split: prod.splits option.splits)
next
  case (7 optional k v obj valueType path)
  then show ?case by (fastforce split: prod.splits option.splits)
qed simp_all

subsection \<open>The enforcement stage\<close>

datatype enforce_error =
    StripperMismatch
  | NoValidator string
  | Rejected zod js

definition stripUnknown :: "(zod \<Rightarrow> bool) \<Rightarrow> js \<Rightarrow> zod \<Rightarrow> enforce_error + js \<times> string list" where
  "stripUnknown optional v s = (case stripAgainst optional v s [] of None \<Rightarrow> Inl StripperMismatch | Some r \<Rightarrow> Inr r)"

fun union_options :: "zod \<Rightarrow> zod list" where
  "union_options (ZUnion d options) = options"
| "union_options s = []"

fun object_shape :: "zod \<Rightarrow> (string \<times> zod) list" where
  "object_shape (ZObject shape specOpen) = shape"
| "object_shape s = []"

definition EVENT_SCHEMA_BY_TYPE :: "(js \<times> zod) list" where
  "EVENT_SCHEMA_BY_TYPE =
     map (\<lambda>option. (literalValueOf (map_of (object_shape option) ''type''), option)) (union_options EventSchema)"

definition KNOWN_EVENT_TYPES :: "string list" where
  "KNOWN_EVENT_TYPES =
     [''TEXT_MESSAGE_START'', ''TEXT_MESSAGE_CONTENT'', ''TEXT_MESSAGE_END'', ''TEXT_MESSAGE_CHUNK'',
      ''TOOL_CALL_START'', ''TOOL_CALL_ARGS'', ''TOOL_CALL_END'', ''TOOL_CALL_CHUNK'', ''TOOL_CALL_RESULT'',
      ''STATE_SNAPSHOT'', ''STATE_DELTA'', ''MESSAGES_SNAPSHOT'', ''ACTIVITY_SNAPSHOT'', ''ACTIVITY_DELTA'',
      ''RAW'', ''CUSTOM'', ''RUN_STARTED'', ''RUN_FINISHED'', ''RUN_ERROR'', ''STEP_STARTED'', ''STEP_FINISHED'',
      ''REASONING_START'', ''REASONING_MESSAGE_START'', ''REASONING_MESSAGE_CONTENT'', ''REASONING_MESSAGE_END'',
      ''REASONING_MESSAGE_CHUNK'', ''REASONING_END'', ''REASONING_ENCRYPTED_VALUE'',
      ''SUBAGENT_STARTED'', ''SUBAGENT_FINISHED'', ''SUBAGENT_ERROR'']"

text \<open>
  Between the transport and this stage an event is a raw object; the transport guarantees a
  \<open>type\<close> that is a string.
\<close>

definition isRecognizedEvent :: "js \<Rightarrow> bool" where
  "isRecognizedEvent event = list_ex (\<lambda>t. jprop event ''type'' = JStr t) KNOWN_EVENT_TYPES"

definition enforce_event ::
    "(zod \<Rightarrow> bool) \<Rightarrow> (zod \<Rightarrow> js \<Rightarrow> js option) \<Rightarrow> (unit, js, enforce_error, js) stage" where
  "enforce_event optional parse st event =
     (if \<not> isRecognizedEvent event then Inr ([], st)
      else case map_of EVENT_SCHEMA_BY_TYPE (jprop event ''type'') of
        None \<Rightarrow> Inl (NoValidator (case jprop event ''type'' of JStr t \<Rightarrow> t | _ \<Rightarrow> []))
      | Some s \<Rightarrow>
          (case stripUnknown optional event s of
             Inl err \<Rightarrow> Inl err
           | Inr (v, stripped) \<Rightarrow>
               (case parse s v of None \<Rightarrow> Inl (Rejected s v) | Some r \<Rightarrow> Inr ([r], st))))"

subsection \<open>Omitting optional nulls\<close>

text \<open>
  The walk follows names through the table; a name of a union leads to a union, whose variants lead
  to objects, so at most three steps pass before it descends into the value.
\<close>

fun is_variants :: "shape \<Rightarrow> bool" where
  "is_variants (Variants d vs) = True"
| "is_variants sh = False"

definition union_names :: "string list" where
  "union_names =
     [''PartSource'', ''ContentPart'', ''JsonPatchOperation'', ''Message'', ''RunFinishedOutcome'',
      ''SubagentFinishedOutcome'', ''Event'']"

lemmas shape_tables = shapes_def stream_shapes_def part_shapes_def patch_shapes_def message_shapes_def
  activity_shapes_def input_shapes_def run_shapes_def step_shapes_def subagent_shapes_def event_shape_def
  capability_shapes_def

lemma union_names_shapes: "map fst (filter (\<lambda>(n, sh). is_variants sh) shapes) = union_names"
  by (simp add: shape_tables union_names_def)

definition table_rank :: "string \<Rightarrow> nat" where
  "table_rank n = (if n \<in> set union_names then 2 else 0)"

fun shape_rank :: "shape \<Rightarrow> nat" where
  "shape_rank (Named n) = Suc (table_rank n)"
| "shape_rank (Variants d vs) = Suc (foldr (\<lambda>(t, x) m. max (Suc (table_rank x)) m) vs 0)"
| "shape_rank _ = 0"

lemma rank_variant: "map_of vs t = Some x \<Longrightarrow> table_rank x < foldr (\<lambda>(t, x) m. max (Suc (table_rank x)) m) vs 0"
  by (induction vs) (auto split: if_splits)

fun resolved :: "shape \<Rightarrow> bool" where
  "resolved (Named n) = False"
| "resolved (Variants d vs) = list_all (\<lambda>(t, x). x \<notin> set union_names) vs"
| "resolved _ = True"

lemma shapes_resolved: "list_all (\<lambda>(n, sh). resolved sh) shapes"
  by (simp add: shape_tables union_names_def)

lemma rank_named:
  assumes n: "map_of shapes n = Some sh"
  shows "shape_rank sh < shape_rank (Named n)"
proof -
  have r: "resolved sh" using n shapes_resolved by (auto simp: list_all_iff dest: map_of_SomeD)
  have max1: "list_all (\<lambda>(t, x). x \<notin> set union_names) vs \<Longrightarrow>
      foldr (\<lambda>(t, x) m. max (Suc (table_rank x)) m) vs 0 \<le> Suc 0" for vs :: "(string \<times> string) list"
    by (induction vs) (auto simp: table_rank_def)
  have "is_variants sh \<Longrightarrow> n \<in> set union_names"
    unfolding union_names_shapes [symmetric] using map_of_SomeD [OF n] by force
  then have n2: "is_variants sh \<Longrightarrow> table_rank n = 2" by (simp add: table_rank_def)
  show ?thesis
  proof (cases sh)
    case (Variants d vs)
    with r n2 max1 [of vs] show ?thesis by simp
  qed (use r in simp_all)
qed

function omit :: "js \<Rightarrow> shape \<Rightarrow> js" where
  "omit v (Named n) = (case map_of shapes n of None \<Rightarrow> v | Some sh \<Rightarrow> omit v sh)"
| "omit v (ArrayOf sh) = (case v of JArr xs \<Rightarrow> JArr (map (\<lambda>x. omit x sh) xs) | _ \<Rightarrow> v)"
| "omit v (Variants d vs) =
     (case v of
        JObj obj \<Rightarrow>
          (case oget obj d of
             JStr tag \<Rightarrow> (case map_of vs tag of None \<Rightarrow> v | Some n \<Rightarrow> omit v (Named n))
           | _ \<Rightarrow> v)
      | _ \<Rightarrow> v)"
| "omit v (Fields nullable children) =
     (case v of
        JObj obj \<Rightarrow>
          JObj (map (\<lambda>(k, x). (k, case map_of children k of None \<Rightarrow> x | Some sh \<Rightarrow> omit x sh))
                  (filter (\<lambda>(k, x). \<not> (k \<in> set nullable \<and> x = JNull)) obj))
      | _ \<Rightarrow> v)"
  by pat_completeness auto
termination
proof (relation "measures [\<lambda>(v, sh). size v, \<lambda>(v, sh). shape_rank sh]", goal_cases)
  case (2 v n sh)
  then show ?case using rank_named [of n sh] by simp
next
  case (3 v sh xs x)
  then show ?case using size_member [of x xs] by simp
next
  case (4 v d vs obj tag n)
  then show ?case using rank_variant [of vs tag n] by simp
next
  case (5 v nullable children obj p k x sh)
  then show ?case using size_entry [of k x obj] by auto
qed simp

definition omitOptionalNulls :: "js \<Rightarrow> string \<Rightarrow> js" where
  "omitOptionalNulls v root = omit v (Named root)"

definition enforceOutgoingInput ::
    "(zod \<Rightarrow> bool) \<Rightarrow> (zod \<Rightarrow> js \<Rightarrow> js option) \<Rightarrow> js \<Rightarrow> enforce_error + js" where
  "enforceOutgoingInput optional parse v =
     (case stripUnknown optional (omitOptionalNulls v ''RunAgentInput'') RunAgentInputSchema of
        Inl err \<Rightarrow> Inl err
      | Inr (v', stripped) \<Rightarrow>
          (case parse RunAgentInputSchema v' of None \<Rightarrow> Inl (Rejected RunAgentInputSchema v') | Some r \<Rightarrow> Inr r))"


text \<open>A value without a null in an optional position.\<close>

function serialized :: "js \<Rightarrow> shape \<Rightarrow> bool" where
  "serialized v (Named n) = (case map_of shapes n of None \<Rightarrow> True | Some sh \<Rightarrow> serialized v sh)"
| "serialized v (ArrayOf sh) = (case v of JArr xs \<Rightarrow> list_all (\<lambda>x. serialized x sh) xs | _ \<Rightarrow> True)"
| "serialized v (Variants d vs) =
     (case v of
        JObj obj \<Rightarrow>
          (case oget obj d of
             JStr tag \<Rightarrow> (case map_of vs tag of None \<Rightarrow> True | Some n \<Rightarrow> serialized v (Named n))
           | _ \<Rightarrow> True)
      | _ \<Rightarrow> True)"
| "serialized v (Fields nullable children) =
     (case v of
        JObj obj \<Rightarrow> list_all (\<lambda>(k, x). \<not> (k \<in> set nullable \<and> x = JNull) \<and>
            (case map_of children k of None \<Rightarrow> True | Some sh \<Rightarrow> serialized x sh)) obj
      | _ \<Rightarrow> True)"
  by pat_completeness auto
termination
proof (relation "measures [\<lambda>(v, sh). size v, \<lambda>(v, sh). shape_rank sh]", goal_cases)
  case (2 v n sh)
  then show ?case using rank_named [of n sh] by simp
next
  case (3 v sh xs x)
  then show ?case using size_member [of x xs] by simp
next
  case (4 v d vs obj tag n)
  then show ?case using rank_variant [of vs tag n] by simp
next
  case (5 v nullable children obj p k x sh)
  then show ?case using size_entry [of k x obj] by auto
qed simp

lemma omit_serialized: "serialized v sh \<Longrightarrow> omit v sh = v"
proof (induction v sh rule: omit.induct)
  case (2 v sh)
  then show ?case by (auto simp: list_all_iff intro!: map_idI split: js.split)
next
  case (4 v nullable children)
  show ?case
  proof (cases v)
    case (JObj obj)
    have ok: "\<not> (k \<in> set nullable \<and> x = JNull)" "map_of children k = Some sh \<Longrightarrow> serialized x sh"
      if "(k, x) \<in> set obj" for k x sh
      using 4(2) JObj that by (auto simp: list_all_iff)
    have flt: "filter (\<lambda>(k, x). \<not> (k \<in> set nullable \<and> x = JNull)) obj = obj"
      using ok(1) by (intro filter_True) auto
    moreover have "(case map_of children k of None \<Rightarrow> x | Some sh \<Rightarrow> omit x sh) = x" if "(k, x) \<in> set obj" for k x
      using 4(1) [OF JObj _ refl] flt ok(1) [OF that] ok(2) [OF that] that by (simp split: option.split)
    then have "map (\<lambda>(k, x). (k, case map_of children k of None \<Rightarrow> x | Some sh \<Rightarrow> omit x sh)) obj = obj"
      by (intro map_idI) auto
    ultimately show ?thesis using JObj by simp
  qed simp_all
next
  case (3 v d vs)
  show ?case
  proof (cases v)
    case (JObj obj)
    show ?thesis
    proof (cases "oget obj d")
      case (JStr tag)
      with 3(1) [OF JObj JStr] 3(2) JObj show ?thesis
        by (cases "map_of vs tag") (simp_all del: omit.simps(1) serialized.simps(1))
    qed (simp_all add: JObj)
  qed simp_all
next
  case (1 v n)
  then show ?case by (simp split: option.splits)
qed

fun drops :: "string \<Rightarrow> shape \<Rightarrow> bool" where
  "drops d (Fields nullable children) = (d \<in> set nullable \<or> d \<in> set (map fst children))"
| "drops d sh = False"

definition droppers :: "string \<Rightarrow> string list" where
  "droppers d = map fst (filter (\<lambda>(n, sh). drops d sh) shapes)"

lemma droppers_tags:
  "droppers ''type'' = [''IdentityCapabilities'']"
  "droppers ''role'' = [''TextMessageStartEvent'', ''TextMessageChunkEvent'', ''ToolCallResultEvent'']"
  "droppers ''op'' = []"
  by code_simp+

fun table_shape :: "shape \<Rightarrow> bool" where
  "table_shape (Named n) = True"
| "table_shape (ArrayOf sh) = table_shape sh"
| "table_shape (Variants d vs) = list_all (\<lambda>(t, n). n \<notin> set (droppers d) \<and> n \<notin> set union_names) vs"
| "table_shape (Fields nullable children) = list_all (\<lambda>(k, sh). table_shape sh) children"

lemma shapes_table: "list_all (\<lambda>(n, sh). table_shape sh) shapes"
  by (simp add: shape_tables droppers_tags union_names_def)

lemma named_table: "map_of shapes n = Some sh \<Longrightarrow> table_shape sh \<and> resolved sh"
  using shapes_table shapes_resolved by (auto simp: list_all_iff dest: map_of_SomeD)

lemma oget_filter_map:
  assumes "\<And>x. P (k, x)" and "\<And>x. f k x = x"
  shows "oget (map (\<lambda>(k, x). (k, f k x)) (filter P obj)) k = oget obj k"
  using assms by (induction obj) auto

lemma variant_keeps_tag:
  assumes "n \<notin> set (droppers d)" and "n \<notin> set union_names"
  shows "\<exists>obj'. omit (JObj obj) (Named n) = JObj obj' \<and> oget obj' d = oget obj d"
proof (cases "map_of shapes n")
  case (Some sh)
  have nv: "\<not> is_variants sh"
    using assms(2) map_of_SomeD [OF Some] unfolding union_names_shapes [symmetric] by force
  have nd: "\<not> drops d sh" using assms(1) map_of_SomeD [OF Some] unfolding droppers_def by force
  have rs: "resolved sh" using named_table [OF Some] by blast
  show ?thesis
  proof (cases sh)
    case (Fields nullable children)
    with nd have "map_of children d = None" "d \<notin> set nullable" by (auto simp: map_of_eq_None_iff)
    with Some Fields oget_filter_map [where k = d and obj = obj] show ?thesis by simp
  qed (use nv rs Some in simp_all)
qed simp

lemma omit_null: "omit v sh = JNull \<longleftrightarrow> v = JNull"
proof (induction v sh rule: omit.induct)
  case (3 v d vs)
  show ?case
  proof (cases v)
    case (JObj obj)
    with 3 [OF JObj] show ?thesis
      by (cases "oget obj d") (auto simp del: omit.simps(1) split: option.split)
  qed simp_all
qed (auto split: option.split js.split)

lemma serialized_omit: "table_shape sh \<Longrightarrow> serialized (omit v sh) sh"
proof (induction v sh rule: omit.induct)
  case (1 v n)
  then show ?case using named_table [of n] by (auto split: option.split)
next
  case (2 v sh)
  then show ?case by (cases v) (auto simp: list_all_iff)
next
  case (3 v d vs)
  show ?case
  proof (cases v)
    case (JObj obj)
    show ?thesis
    proof (cases "oget obj d")
      case (JStr tag)
      show ?thesis
      proof (cases "map_of vs tag")
        case (Some n)
        have "n \<notin> set (droppers d)" "n \<notin> set union_names"
          using 3(2) map_of_SomeD [OF Some] by (auto simp: list_all_iff)
        then obtain obj' where "omit (JObj obj) (Named n) = JObj obj'" "oget obj' d = oget obj d"
          using variant_keeps_tag by blast
        with 3(1) [OF JObj JStr Some] JObj JStr Some show ?thesis
          by (simp del: omit.simps(1) serialized.simps(1))
      qed (simp add: JObj JStr)
    qed (simp_all add: JObj)
  qed simp_all
next
  case (4 v nullable children)
  show ?case
  proof (cases v)
    case (JObj obj)
    let ?kept = "filter (\<lambda>(k, x). \<not> (k \<in> set nullable \<and> x = JNull)) obj"
    have "serialized (omit x sh) sh" if "(k, x) \<in> set ?kept" "map_of children k = Some sh" for k x sh
      using 4(1) [OF JObj that(1) refl that(2)] 4(2) map_of_SomeD [OF that(2)] by (auto simp: list_all_iff)
    moreover have "omit x sh \<noteq> JNull" if "(k, x) \<in> set ?kept" "map_of children k = Some sh" "k \<in> set nullable" for k x sh
      using that by (auto simp: omit_null)
    ultimately show ?thesis using JObj by (auto simp: list_all_iff split: option.split)
  qed simp_all
qed

subsection \<open>The generated schemas\<close>

lemma event_schema_keys: "map fst EVENT_SCHEMA_BY_TYPE = map JStr KNOWN_EVENT_TYPES"
  by code_simp

lemma event_schemas_checked: "list_all (\<lambda>s. \<not> can_drop s \<and> schema_ok s) (union_options EventSchema)"
  by code_simp

lemma event_schema_fit:
  assumes "map_of EVENT_SCHEMA_BY_TYPE t = Some s"
  shows "\<not> can_drop s" and "schema_ok s"
proof -
  have "s \<in> set (union_options EventSchema)"
    using map_of_SomeD [OF assms] by (auto simp: EVENT_SCHEMA_BY_TYPE_def)
  with event_schemas_checked show "\<not> can_drop s" "schema_ok s" by (auto simp: list_all_iff)
qed

lemma recognized_schema:
  assumes "isRecognizedEvent event"
  obtains s where "map_of EVENT_SCHEMA_BY_TYPE (jprop event ''type'') = Some s"
proof -
  have "jprop event ''type'' \<in> set (map JStr KNOWN_EVENT_TYPES)"
    using assms by (auto simp: isRecognizedEvent_def list_ex_iff)
  then have "jprop event ''type'' \<in> fst ` set EVENT_SCHEMA_BY_TYPE"
    unfolding event_schema_keys [symmetric] by simp
  then show thesis using that by (metis map_of_eq_None_iff not_None_eq)
qed

lemma stripUnknown_described:
  assumes "schema_ok s" and "stripUnknown optional v s = Inr (v', ps)"
  shows "described v' s" and "stripUnknown optional' v' s = Inr (v', [])" and "ps = [] \<Longrightarrow> v' = v"
proof -
  have strip: "stripAgainst optional v s [] = Some (v', ps)"
    using assms(2) by (simp add: stripUnknown_def split: option.splits)
  show d: "described v' s" by (rule strip_described(1) [OF assms(1) strip])
  show "stripUnknown optional' v' s = Inr (v', [])" by (simp add: stripUnknown_def described_kept(1) [OF d])
  show "ps = [] \<Longrightarrow> v' = v" using strip silent_kept(1) by blast
qed

subsection \<open>Properties\<close>

text \<open>
  The enforcement stage fails a run for one reason only: the validator of a known event type
  rejects the value that is left once everything the protocol does not describe is removed. The two
  internal errors of the source are unreachable with the generated schemas: every known type has a
  validator, and the stripper never finds a whole event unrecognisable. zod is only assumed to accept
  an absent value for an optional schema.
\<close>

theorem enforcement_rejects_only_malformed:
  assumes "\<And>s. optional (ZOptional s)" and "enforce_event optional parse st event = Inl err"
  shows "\<exists>s v ps. err = Rejected s v \<and> parse s v = None \<and>
    map_of EVENT_SCHEMA_BY_TYPE (jprop event ''type'') = Some s \<and>
    stripUnknown optional event s = Inr (v, ps) \<and> described v s"
proof -
  have rec: "isRecognizedEvent event" using assms(2) by (auto simp: enforce_event_def split: if_splits)
  obtain s where s: "map_of EVENT_SCHEMA_BY_TYPE (jprop event ''type'') = Some s"
    using recognized_schema [OF rec] by blast
  obtain v ps where v: "stripUnknown optional event s = Inr (v, ps)"
    using never_dropped(1) [of optional s event "[]"] assms(1) event_schema_fit(1) [OF s] by (auto simp: stripUnknown_def)
  have "err = Rejected s v" "parse s v = None"
    using assms(2) rec s v by (auto simp: enforce_event_def split: option.splits)
  with s v stripUnknown_described(1) [OF event_schema_fit(2) [OF s] v] show ?thesis by blast
qed

definition demo_parse :: "zod \<Rightarrow> js \<Rightarrow> js option" where
  "demo_parse s v = (if is_string (jprop v ''messageId'') then Some v else None)"

theorem enforcement_rejects_only_malformed_witness:
  "\<exists>s v ps. Rejected TextMessageEndEventSchema (JObj [(''type'', JStr ''TEXT_MESSAGE_END'')]) = Rejected s v \<and>
     demo_parse s v = None \<and> map_of EVENT_SCHEMA_BY_TYPE (JStr ''TEXT_MESSAGE_END'') = Some s \<and>
     stripUnknown is_optional (JObj [(''type'', JStr ''TEXT_MESSAGE_END''), (''bogus'', JNull)]) s = Inr (v, ps) \<and> described v s"
proof -
  have "enforce_event is_optional demo_parse () (JObj [(''type'', JStr ''TEXT_MESSAGE_END''), (''bogus'', JNull)]) =
      Inl (Rejected TextMessageEndEventSchema (JObj [(''type'', JStr ''TEXT_MESSAGE_END'')]))"
    by code_simp
  from enforcement_rejects_only_malformed [OF _ this] show ?thesis by simp
qed



text \<open>
  \<open>omitOptionalNulls\<close> leaves no null in an optional position of the protocol, changes
  exactly the values that have one, and is idempotent.
\<close>

theorem omitted_nulls:
  "serialized (omitOptionalNulls v root) (Named root) \<and>
   (omitOptionalNulls v root = v \<longleftrightarrow> serialized v (Named root)) \<and>
   omitOptionalNulls (omitOptionalNulls v root) root = omitOptionalNulls v root"
proof -
  have ok: "serialized (omit v (Named root)) (Named root)" by (rule serialized_omit) simp
  moreover have "omit v (Named root) = v \<longleftrightarrow> serialized v (Named root)"
    using ok omit_serialized [of v "Named root"] by metis
  moreover have "omit (omit v (Named root)) (Named root) = omit v (Named root)" by (rule omit_serialized [OF ok])
  ultimately show ?thesis unfolding omitOptionalNulls_def by blast
qed

end
