(* ===== verification/AGUI_Wire.thy ===== *)
theory AGUI_Wire
  imports AGUI_Enforce "HOL-Library.Word"
begin

section \<open>The wire\<close>

text \<open>
  The encoder of \<^verbatim>\<open>encoder/src/encoder.ts\<close> and the transport readers of
  \<^verbatim>\<open>client/src/transform\<close>: \<open>parseProtoStream\<close> (\<^verbatim>\<open>proto.ts\<close>),
  \<open>parseSSEStream\<close> (\<^verbatim>\<open>sse.ts\<close>) and \<open>transformHttpEventStream\<close>
  (\<^verbatim>\<open>http.ts\<close>), on the HTTP events of \<^verbatim>\<open>run/http-request.ts\<close>.

  \<^item> An RxJS \<open>Subject\<close> is the list of values it delivered and how it ended; once it ended,
    \<open>next\<close>, \<open>error\<close> and \<open>complete\<close> do nothing.
  \<^item> Bytes are \<open>8 word\<close>, the frame prefix is a \<open>32 word\<close>. JavaScript text is a list of
    UTF-16 code units, so that its length is the one the size limit is measured with.
  \<^item> \<open>TextDecoder\<close> and \<open>TextEncoder\<close> are the UTF-8 decoder and encoder of the Encoding
    standard. \<open>proto.encode\<close>, \<open>proto.decode\<close>, \<open>JSON.stringify\<close> and
    \<open>JSON.parse\<close> are parameters, about which the theorems assume nothing unless they say so.
\<close>

subsection \<open>Subjects\<close>

datatype 'err ending = Live | Completed | Errored 'err

record ('a, 'err) subject =
  delivered :: "'a list"
  ending :: "'err ending"

definition new_subject :: "('a, 'err) subject" where
  "new_subject = \<lparr>delivered = [], ending = Live\<rparr>"

definition sub_next :: "'a \<Rightarrow> ('a, 'err) subject \<Rightarrow> ('a, 'err) subject" where
  "sub_next v s = (if ending s = Live then s\<lparr>delivered := delivered s @ [v]\<rparr> else s)"

definition sub_error :: "'err \<Rightarrow> ('a, 'err) subject \<Rightarrow> ('a, 'err) subject" where
  "sub_error err s = (if ending s = Live then s\<lparr>ending := Errored err\<rparr> else s)"

definition sub_complete :: "('a, 'err) subject \<Rightarrow> ('a, 'err) subject" where
  "sub_complete s = (if ending s = Live then s\<lparr>ending := Completed\<rparr> else s)"

lemmas sub_defs = sub_next_def sub_error_def sub_complete_def

lemma stopped_stays [simp]:
  "ending s \<noteq> Live \<Longrightarrow> sub_next v s = s"
  "ending s \<noteq> Live \<Longrightarrow> sub_error err s = s"
  "ending s \<noteq> Live \<Longrightarrow> sub_complete s = s"
  by (simp_all add: sub_defs)

lemma subject_simps [simp]:
  "ending (sub_next v s) = ending s"
  "ending s = Live \<Longrightarrow> delivered (sub_next v s) = delivered s @ [v]"
  "ending s = Live \<Longrightarrow> ending (sub_error err s) = Errored err"
  "ending s = Live \<Longrightarrow> ending (sub_complete s) = Completed"
  "delivered (sub_error err s) = delivered s"
  "delivered (sub_complete s) = delivered s"
  "ending (sub_error err s) \<noteq> Live"
  "ending (sub_complete s) \<noteq> Live"
  by (simp_all add: sub_defs)

type_synonym byte = "8 word"

datatype http_event =
    HEADERS nat "string \<Rightarrow> string option"
  | DATA "byte list option"

datatype wire_error =
    MessageTooLarge
  | DecodeFailed string
  | EndedMidFrame nat
  | BufferTooLarge
  | InvalidJson
  | NotAnObject
  | NoEventType
  | NoHeaders
  | SourceError string string

definition MAX_BUFFER_SIZE :: nat where
  "MAX_BUFFER_SIZE = 10 * 1024 * 1024"

subsection \<open>Binary frames\<close>

unbundle bit_operations_syntax

text \<open>\<open>DataView.setUint32(0, n, false)\<close> and \<open>getUint32(0, false)\<close>.\<close>

definition setUint32 :: "32 word \<Rightarrow> byte list" where
  "setUint32 w = [ucast (drop_bit 24 w), ucast (drop_bit 16 w), ucast (drop_bit 8 w), ucast w]"

fun getUint32 :: "byte list \<Rightarrow> 32 word" where
  "getUint32 (a # b # c # d # rest) =
     push_bit 24 (ucast a) OR push_bit 16 (ucast b) OR push_bit 8 (ucast c) OR ucast d"
| "getUint32 _ = 0"

definition encodeProtobuf :: "('e \<Rightarrow> byte list) \<Rightarrow> 'e \<Rightarrow> byte list" where
  "encodeProtobuf encode event =
     (let messageBytes = encode event in setUint32 (word_of_nat (length messageBytes)) @ messageBytes)"

lemma get_set_uint32: "getUint32 (setUint32 w @ rest) = w"
proof (rule bit_word_eqI)
  fix n :: nat
  assume n: "n < LENGTH(32)"
  consider "n < 8" | k where "n = 8 + k" "k < 8" | k where "n = 16 + k" "k < 8" | k where "n = 24 + k" "k < 8"
  proof -
    have "n < 8 \<or> (\<exists>k<8. n = 8 + k) \<or> (\<exists>k<8. n = 16 + k) \<or> (\<exists>k<8. n = 24 + k)"
      using n by simp presburger
    with that show thesis by blast
  qed
  then show "bit (getUint32 (setUint32 w @ rest)) n = bit w n"
    by cases (simp_all add: setUint32_def bit_simps)
qed

datatype 'e decoding = Decoded 'e | UnknownEventType | Undecodable string

record 'e proto_state =
  p_buffer :: "byte list"
  p_failed :: bool
  p_subject :: "('e, wire_error) subject"

definition initial_proto :: "'e proto_state" where
  "initial_proto = \<lparr>p_buffer = [], p_failed = False, p_subject = new_subject\<rparr>"

function proto_loop :: "(byte list \<Rightarrow> 'e decoding) \<Rightarrow> 'e proto_state \<Rightarrow> 'e proto_state" where
  "proto_loop decode st =
     (let buffer = p_buffer st;
          messageLength = unat (getUint32 buffer);
          totalLength = 4 + messageLength in
      if length buffer < 4 then st
      else if MAX_BUFFER_SIZE < totalLength then st\<lparr>p_subject := sub_error MessageTooLarge (p_subject st)\<rparr>
      else if length buffer < totalLength then st
      else case decode (take messageLength (drop 4 buffer)) of
          Decoded event \<Rightarrow>
            proto_loop decode (st\<lparr>p_subject := sub_next event (p_subject st), p_buffer := drop totalLength buffer\<rparr>)
        | UnknownEventType \<Rightarrow> proto_loop decode (st\<lparr>p_buffer := drop totalLength buffer\<rparr>)
        | Undecodable msg \<Rightarrow> st\<lparr>p_failed := True, p_subject := sub_error (DecodeFailed msg) (p_subject st)\<rparr>)"
  by auto
termination by (relation "measure (\<lambda>(decode, st). length (p_buffer st))") (auto simp: Let_def)

declare proto_loop.simps [simp del]

definition processBuffer :: "(byte list \<Rightarrow> 'e decoding) \<Rightarrow> 'e proto_state \<Rightarrow> 'e proto_state" where
  "processBuffer decode st = (if p_failed st then st else proto_loop decode st)"

definition proto_next :: "(byte list \<Rightarrow> 'e decoding) \<Rightarrow> http_event \<Rightarrow> 'e proto_state \<Rightarrow> 'e proto_state" where
  "proto_next decode event st =
     (case event of
        DATA (Some bytes) \<Rightarrow> processBuffer decode (st\<lparr>p_buffer := p_buffer st @ bytes\<rparr>)
      | _ \<Rightarrow> st)"

definition proto_error :: "wire_error \<Rightarrow> 'e proto_state \<Rightarrow> 'e proto_state" where
  "proto_error err st = st\<lparr>p_subject := sub_error err (p_subject st)\<rparr>"

definition proto_complete :: "(byte list \<Rightarrow> 'e decoding) \<Rightarrow> 'e proto_state \<Rightarrow> 'e proto_state" where
  "proto_complete decode st =
     (let st' = processBuffer decode st in
      if p_failed st' then st'
      else if p_buffer st' \<noteq> [] then
        st'\<lparr>p_subject := sub_error (EndedMidFrame (length (p_buffer st'))) (p_subject st')\<rparr>
      else st'\<lparr>p_subject := sub_complete (p_subject st')\<rparr>)"

subsection \<open>Framing is independent of the chunks\<close>

text \<open>What the loop needs of its buffer: the prefix reads the same with more bytes behind it.\<close>

lemma getUint32_append: "4 \<le> length b \<Longrightarrow> getUint32 (b @ c) = getUint32 b"
  by (cases b rule: getUint32.cases) auto

lemma proto_loop_stopped: "ending (p_subject st) \<noteq> Live \<Longrightarrow> p_subject (proto_loop decode st) = p_subject st"
proof (induction decode st rule: proto_loop.induct)
  case (1 decode st)
  then show ?case
    by (subst proto_loop.simps) (simp add: Let_def split: decoding.split)
qed

definition waiting :: "'e proto_state \<Rightarrow> bool" where
  "waiting st \<longleftrightarrow> \<not> p_failed st \<and> ending (p_subject st) = Live"

lemma proto_loop_append:
  assumes "waiting st"
  shows "if waiting (proto_loop decode st)
    then proto_loop decode (st\<lparr>p_buffer := p_buffer st @ c\<rparr>) =
      proto_loop decode ((proto_loop decode st)\<lparr>p_buffer := p_buffer (proto_loop decode st) @ c\<rparr>)
    else p_subject (proto_loop decode (st\<lparr>p_buffer := p_buffer st @ c\<rparr>)) = p_subject (proto_loop decode st)"
  using assms
proof (induction decode st rule: proto_loop.induct)
  case (1 decode st)
  let ?b = "p_buffer st" and ?n = "unat (getUint32 (p_buffer st))"
  let ?st = "st\<lparr>p_buffer := p_buffer st @ c\<rparr>"
  show ?case
  proof (cases "length ?b < 4 \<or> length ?b < 4 + ?n \<and> 4 + ?n \<le> MAX_BUFFER_SIZE")
    case True
    then have "proto_loop decode st = st" by (subst proto_loop.simps) (auto simp: Let_def)
    with 1 show ?thesis by simp
  next
    case False
    then have four: "4 \<le> length ?b" and n: "getUint32 (?b @ c) = getUint32 ?b" by (auto intro: getUint32_append)
    show ?thesis
    proof (cases "MAX_BUFFER_SIZE < 4 + ?n")
      case True
      then have "proto_loop decode st = st\<lparr>p_subject := sub_error MessageTooLarge (p_subject st)\<rparr>"
        "proto_loop decode ?st = ?st\<lparr>p_subject := sub_error MessageTooLarge (p_subject st)\<rparr>"
        using four n by (subst proto_loop.simps; simp add: Let_def)+
      then show ?thesis by (simp add: waiting_def)
    next
      case fits: False
      with False have len: "4 + ?n \<le> length ?b" by auto
      have neg: "\<not> length ?b < 4" and neg': "\<not> length ?b < 4 + ?n" using four len by simp_all
      then have cut: "take ?n (drop 4 (?b @ c)) = take ?n (drop 4 ?b)" "drop (4 + ?n) (?b @ c) = drop (4 + ?n) ?b @ c" by auto
      have un: "proto_loop decode st = (case decode (take ?n (drop 4 ?b)) of
            Decoded event \<Rightarrow> proto_loop decode (st\<lparr>p_subject := sub_next event (p_subject st), p_buffer := drop (4 + ?n) ?b\<rparr>)
          | UnknownEventType \<Rightarrow> proto_loop decode (st\<lparr>p_buffer := drop (4 + ?n) ?b\<rparr>)
          | Undecodable msg \<Rightarrow> st\<lparr>p_failed := True, p_subject := sub_error (DecodeFailed msg) (p_subject st)\<rparr>)"
        by (subst proto_loop.simps) (use four fits len in \<open>simp add: Let_def split: decoding.split\<close>)
      have un': "proto_loop decode ?st = (case decode (take ?n (drop 4 ?b)) of
            Decoded event \<Rightarrow> proto_loop decode (st\<lparr>p_subject := sub_next event (p_subject st), p_buffer := drop (4 + ?n) ?b @ c\<rparr>)
          | UnknownEventType \<Rightarrow> proto_loop decode (?st\<lparr>p_buffer := drop (4 + ?n) ?b @ c\<rparr>)
          | Undecodable msg \<Rightarrow> ?st\<lparr>p_failed := True, p_subject := sub_error (DecodeFailed msg) (p_subject st)\<rparr>)"
        by (subst proto_loop.simps, cases st) (use four fits len n cut in \<open>simp add: Let_def split: decoding.split\<close>)
      show ?thesis
      proof (cases "decode (take ?n (drop 4 ?b))")
        case (Decoded event)
        have w: "waiting (st\<lparr>p_subject := sub_next event (p_subject st), p_buffer := drop (4 + ?n) ?b\<rparr>)"
          using 1(3) by (simp add: waiting_def)
        from 1(1) [OF refl refl refl neg fits neg' Decoded w] Decoded un un' show ?thesis by (auto split: if_splits)
      next
        case UnknownEventType
        have w: "waiting (st\<lparr>p_buffer := drop (4 + ?n) ?b\<rparr>)" using 1(3) by (simp add: waiting_def)
        from 1(2) [OF refl refl refl neg fits neg' UnknownEventType w] UnknownEventType un un' show ?thesis by (auto split: if_splits)
      next
        case (Undecodable msg)
        with un un' show ?thesis by (simp add: waiting_def)
      qed
    qed
  qed
qed

lemma proto_loop_step:
  assumes "4 + unat (getUint32 (p_buffer st)) \<le> length (p_buffer st)" and "4 + unat (getUint32 (p_buffer st)) \<le> MAX_BUFFER_SIZE"
  shows "proto_loop decode st = (case decode (take (unat (getUint32 (p_buffer st))) (drop 4 (p_buffer st))) of
      Decoded event \<Rightarrow> proto_loop decode (st\<lparr>p_subject := sub_next event (p_subject st),
        p_buffer := drop (4 + unat (getUint32 (p_buffer st))) (p_buffer st)\<rparr>)
    | UnknownEventType \<Rightarrow> proto_loop decode (st\<lparr>p_buffer := drop (4 + unat (getUint32 (p_buffer st))) (p_buffer st)\<rparr>)
    | Undecodable msg \<Rightarrow> st\<lparr>p_failed := True, p_subject := sub_error (DecodeFailed msg) (p_subject st)\<rparr>)"
  by (subst proto_loop.simps) (use assms in \<open>simp add: Let_def split: decoding.split\<close>)

lemma proto_loop_outcome:
  "waiting st \<Longrightarrow> waiting (proto_loop decode st) \<and> length (p_buffer (proto_loop decode st)) < MAX_BUFFER_SIZE
     \<or> ending (p_subject (proto_loop decode st)) \<noteq> Live"
proof (induction decode st rule: proto_loop.induct)
  case (1 decode st)
  let ?b = "p_buffer st" and ?n = "unat (getUint32 (p_buffer st))"
  consider "length ?b < 4 \<or> length ?b < 4 + ?n \<and> 4 + ?n \<le> MAX_BUFFER_SIZE" | "4 \<le> length ?b" "MAX_BUFFER_SIZE < 4 + ?n"
    | "4 + ?n \<le> length ?b" "4 + ?n \<le> MAX_BUFFER_SIZE" by linarith
  then show ?case
  proof cases
    case 1
    then have "proto_loop decode st = st" by (subst proto_loop.simps) (auto simp: Let_def)
    moreover have "length ?b < MAX_BUFFER_SIZE" using 1 by (auto simp: MAX_BUFFER_SIZE_def)
    ultimately show ?thesis using \<open>waiting st\<close> by simp
  next
    case 2
    then have "proto_loop decode st = st\<lparr>p_subject := sub_error MessageTooLarge (p_subject st)\<rparr>"
      by (subst proto_loop.simps) (simp add: Let_def)
    then show ?thesis by simp
  next
    case 3
    then have neg: "\<not> length ?b < 4" "\<not> MAX_BUFFER_SIZE < 4 + ?n" "\<not> length ?b < 4 + ?n" by simp_all
    note step = proto_loop_step [OF 3, of decode]
    show ?thesis
    proof (cases "decode (take ?n (drop 4 ?b))")
      case (Decoded event)
      have "waiting (st\<lparr>p_subject := sub_next event (p_subject st), p_buffer := drop (4 + ?n) ?b\<rparr>)"
        using \<open>waiting st\<close> by (simp add: waiting_def)
      from 1(1) [OF refl refl refl neg Decoded this] step Decoded show ?thesis by simp
    next
      case UnknownEventType
      have "waiting (st\<lparr>p_buffer := drop (4 + ?n) ?b\<rparr>)" using \<open>waiting st\<close> by (simp add: waiting_def)
      from 1(2) [OF refl refl refl neg UnknownEventType this] step UnknownEventType show ?thesis by simp
    next
      case (Undecodable msg)
      with step show ?thesis by simp
    qed
  qed
qed

lemma proto_loop_failed: "waiting st \<Longrightarrow> \<not> waiting (proto_loop decode st) \<Longrightarrow> ending (p_subject (proto_loop decode st)) \<noteq> Live"
  using proto_loop_outcome by blast

definition proto_run :: "(byte list \<Rightarrow> 'e decoding) \<Rightarrow> byte list list \<Rightarrow> 'e proto_state \<Rightarrow> 'e proto_state" where
  "proto_run decode chunks st = proto_complete decode (fold (proto_next decode) (map (\<lambda>c. DATA (Some c)) chunks) st)"

lemma next_stopped:
  "ending (p_subject st) \<noteq> Live \<Longrightarrow> p_subject (proto_next decode event st) = p_subject st"
  by (auto simp: proto_next_def processBuffer_def proto_loop_stopped split: http_event.split option.split)

lemma fold_stopped:
  "ending (p_subject st) \<noteq> Live \<Longrightarrow> p_subject (fold (proto_next decode) events st) = p_subject st"
  by (induction events arbitrary: st) (simp_all add: next_stopped)

lemma complete_stopped:
  "ending (p_subject st) \<noteq> Live \<Longrightarrow> p_subject (proto_complete decode st) = p_subject st"
  by (simp add: proto_complete_def processBuffer_def Let_def proto_loop_stopped)

lemma run_stopped: "ending (p_subject st) \<noteq> Live \<Longrightarrow> p_subject (proto_run decode chunks st) = p_subject st"
  by (simp add: proto_run_def complete_stopped fold_stopped)

lemma complete_again:
  assumes "waiting st"
  shows "p_subject (proto_complete decode (proto_loop decode st)) = p_subject (proto_complete decode st)"
proof (cases "waiting (proto_loop decode st)")
  case True
  with proto_loop_append [OF assms, of decode "[]"] have "proto_loop decode (proto_loop decode st) = proto_loop decode st" by simp
  with assms True show ?thesis by (simp add: proto_complete_def processBuffer_def waiting_def)
next
  case False
  then have "ending (p_subject (proto_loop decode st)) \<noteq> Live" by (rule proto_loop_failed [OF assms])
  moreover from this have "p_subject (proto_complete decode st) = p_subject (proto_loop decode st)"
    using assms by (simp add: proto_complete_def processBuffer_def waiting_def Let_def)
  ultimately show ?thesis by (simp add: complete_stopped)
qed

lemma proto_chunks:
  "waiting st \<Longrightarrow> p_subject (proto_run decode chunks st) =
     p_subject (proto_complete decode (proto_loop decode (st\<lparr>p_buffer := p_buffer st @ concat chunks\<rparr>)))"
proof (induction chunks arbitrary: st)
  case Nil
  then show ?case by (simp add: proto_run_def complete_again)
next
  case (Cons c cs)
  let ?s = "st\<lparr>p_buffer := p_buffer st @ c\<rparr>"
  have w: "waiting ?s" using Cons.prems by (simp add: waiting_def)
  have run: "proto_run decode (c # cs) st = proto_run decode cs (proto_loop decode ?s)"
    using Cons.prems by (simp add: proto_run_def proto_next_def processBuffer_def waiting_def)
  show ?case
  proof (cases "waiting (proto_loop decode ?s)")
    case True
    with Cons.IH [OF True] run proto_loop_append [OF w, of decode "concat cs"] show ?thesis by simp
  next
    case False
    then have stop: "ending (p_subject (proto_loop decode ?s)) \<noteq> Live" by (rule proto_loop_failed [OF w])
    with False proto_loop_append [OF w, of decode "concat cs"]
    have "p_subject (proto_loop decode (st\<lparr>p_buffer := p_buffer st @ concat (c # cs)\<rparr>)) = p_subject (proto_loop decode ?s)"
      by simp
    with stop run show ?thesis by (simp add: run_stopped complete_stopped)
  qed
qed

fun decoded_of :: "'e decoding \<Rightarrow> 'e list" where
  "decoded_of (Decoded e) = [e]"
| "decoded_of _ = []"

lemma proto_loop_frame:
  assumes "p_buffer st = setUint32 (word_of_nat (length msg)) @ msg @ rest" and "4 + length msg \<le> MAX_BUFFER_SIZE"
    and "\<And>m. decode msg \<noteq> Undecodable m"
  shows "proto_loop decode st = proto_loop decode
    (st\<lparr>p_subject := fold sub_next (decoded_of (decode msg)) (p_subject st), p_buffer := rest\<rparr>)"
proof -
  have len: "length (setUint32 w) = 4" for w by (simp add: setUint32_def)
  have n: "unat (getUint32 (p_buffer st)) = length msg"
    using assms(1,2) by (simp add: get_set_uint32 MAX_BUFFER_SIZE_def unsigned_of_nat take_bit_nat_eq_self)
  show ?thesis
    by (subst proto_loop.simps, cases st)
      (use assms n len in \<open>auto simp: Let_def split: decoding.split\<close>)
qed

lemma proto_loop_frames:
  assumes "\<And>e. e \<in> set events \<Longrightarrow> 4 + length (encode e) \<le> MAX_BUFFER_SIZE"
    and "\<And>e m. e \<in> set events \<Longrightarrow> decode (encode e) \<noteq> Undecodable m"
  shows "proto_loop decode (st\<lparr>p_buffer := concat (map (encodeProtobuf encode) events)\<rparr>) =
    st\<lparr>p_subject := fold sub_next (concat (map (\<lambda>e. decoded_of (decode (encode e))) events)) (p_subject st), p_buffer := []\<rparr>"
  using assms
proof (induction events arbitrary: st)
  case Nil
  then show ?case by (subst proto_loop.simps, cases st) simp
next
  case (Cons e es)
  let ?rest = "concat (map (encodeProtobuf encode) es)"
  have "proto_loop decode (st\<lparr>p_buffer := encodeProtobuf encode e @ ?rest\<rparr>) =
      proto_loop decode (st\<lparr>p_subject := fold sub_next (decoded_of (decode (encode e))) (p_subject st), p_buffer := ?rest\<rparr>)"
    using proto_loop_frame [of "st\<lparr>p_buffer := encodeProtobuf encode e @ ?rest\<rparr>" "encode e" ?rest decode] Cons.prems
    by (cases st) (simp add: encodeProtobuf_def Let_def)
  with Cons.IH [of "st\<lparr>p_subject := fold sub_next (decoded_of (decode (encode e))) (p_subject st)\<rparr>"] Cons.prems
  show ?case by simp
qed

lemma deliver_all:
  "ending s = Live \<Longrightarrow> ending (fold sub_next vs s) = Live \<and> delivered (fold sub_next vs s) = delivered s @ vs"
  by (induction vs arbitrary: s) simp_all

subsection \<open>Text on the wire\<close>

text \<open>
  \<open>TextDecoder("utf-8", { fatal: false })\<close> in streaming mode, one byte at a time: the code
  point under construction, the continuation bytes it still needs, the range the next one has to be
  in, and whether the start of the stream (where a byte order mark is dropped) is past.
\<close>

type_synonym text16 = "nat list"

record utf8_state =
  u_point :: nat
  u_needed :: nat
  u_lower :: nat
  u_upper :: nat
  u_started :: bool

definition initial_utf8 :: utf8_state where
  "initial_utf8 = \<lparr>u_point = 0, u_needed = 0, u_lower = 0x80, u_upper = 0xBF, u_started = False\<rparr>"

definition between_points :: "utf8_state \<Rightarrow> utf8_state" where
  "between_points st = st\<lparr>u_point := 0, u_needed := 0, u_lower := 0x80, u_upper := 0xBF\<rparr>"

definition utf8_lead :: "nat \<Rightarrow> utf8_state \<Rightarrow> nat list \<times> utf8_state" where
  "utf8_lead b st =
     (if b \<le> 0x7F then ([b], st)
      else if 0xC2 \<le> b \<and> b \<le> 0xDF then ([], st\<lparr>u_point := b mod 32, u_needed := 1\<rparr>)
      else if 0xE0 \<le> b \<and> b \<le> 0xEF then
        ([], st\<lparr>u_point := b mod 16, u_needed := 2, u_lower := (if b = 0xE0 then 0xA0 else 0x80),
               u_upper := (if b = 0xED then 0x9F else 0xBF)\<rparr>)
      else if 0xF0 \<le> b \<and> b \<le> 0xF4 then
        ([], st\<lparr>u_point := b mod 8, u_needed := 3, u_lower := (if b = 0xF0 then 0x90 else 0x80),
               u_upper := (if b = 0xF4 then 0x8F else 0xBF)\<rparr>)
      else ([0xFFFD], st))"

definition utf8_byte :: "nat \<Rightarrow> utf8_state \<Rightarrow> nat list \<times> utf8_state" where
  "utf8_byte b st =
     (if u_needed st = 0 then utf8_lead b st
      else if b < u_lower st \<or> u_upper st < b then
        (case utf8_lead b (between_points st) of (out, st') \<Rightarrow> (0xFFFD # out, st'))
      else let point = u_point st * 64 + b mod 64 in
        if u_needed st = 1 then ([point], between_points st)
        else ([], st\<lparr>u_point := point, u_needed := u_needed st - 1, u_lower := 0x80, u_upper := 0xBF\<rparr>))"

definition utf16 :: "nat \<Rightarrow> text16" where
  "utf16 c = (if c < 0x10000 then [c] else [0xD800 + (c - 0x10000) div 1024, 0xDC00 + (c - 0x10000) mod 1024])"

definition drop_bom :: "nat list \<Rightarrow> utf8_state \<Rightarrow> nat list \<times> utf8_state" where
  "drop_bom points st =
     (if u_started st \<or> points = [] then (points, st)
      else (if hd points = 0xFEFF then tl points else points, st\<lparr>u_started := True\<rparr>))"

fun decoder_decode :: "byte list \<Rightarrow> utf8_state \<Rightarrow> text16 \<times> utf8_state" where
  "decoder_decode [] st = ([], st)"
| "decoder_decode (b # bs) st =
     (case utf8_byte (unat b) st of
        (points, st') \<Rightarrow>
          (case drop_bom points st' of
             (points', st'') \<Rightarrow>
               (case decoder_decode bs st'' of (t, st3) \<Rightarrow> (concat (map utf16 points') @ t, st3))))"

text \<open>The final \<open>decoder.decode()\<close>, which ends the stream.\<close>

definition decoder_flush :: "utf8_state \<Rightarrow> text16" where
  "decoder_flush st = (if u_needed st = 0 then [] else [0xFFFD])"

text \<open>\<open>TextEncoder\<close>: surrogate pairs are joined, a lone surrogate is replaced.\<close>

definition high_surrogate :: "nat \<Rightarrow> bool" where
  "high_surrogate u \<longleftrightarrow> 0xD800 \<le> u \<and> u \<le> 0xDBFF"

definition low_surrogate :: "nat \<Rightarrow> bool" where
  "low_surrogate u \<longleftrightarrow> 0xDC00 \<le> u \<and> u \<le> 0xDFFF"

fun scalars :: "text16 \<Rightarrow> nat list" where
  "scalars [] = []"
| "scalars [u] = [if high_surrogate u \<or> low_surrogate u then 0xFFFD else u]"
| "scalars (u # v # t) =
     (if high_surrogate u \<and> low_surrogate v
      then (0x10000 + (u - 0xD800) * 1024 + (v - 0xDC00)) # scalars t
      else (if high_surrogate u \<or> low_surrogate u then 0xFFFD else u) # scalars (v # t))"

definition utf8_bytes :: "nat \<Rightarrow> nat list" where
  "utf8_bytes c =
     (if c < 0x80 then [c]
      else if c < 0x800 then [0xC0 + c div 64, 0x80 + c mod 64]
      else if c < 0x10000 then [0xE0 + c div 4096, 0x80 + c div 64 mod 64, 0x80 + c mod 64]
      else [0xF0 + c div 262144, 0x80 + c div 4096 mod 64, 0x80 + c div 64 mod 64, 0x80 + c mod 64])"

definition encoder_encode :: "text16 \<Rightarrow> byte list" where
  "encoder_encode t = map word_of_nat (concat (map utf8_bytes (scalars t)))"

text \<open>Text without lone surrogates.\<close>

fun well_formed :: "text16 \<Rightarrow> bool" where
  "well_formed [] = True"
| "well_formed (u # t) =
     (if high_surrogate u then t \<noteq> [] \<and> low_surrogate (hd t) \<and> well_formed (tl t)
      else \<not> low_surrogate u \<and> u < 0x10000 \<and> well_formed t)"

definition scalar :: "nat \<Rightarrow> bool" where
  "scalar c \<longleftrightarrow> c < 0x110000 \<and> \<not> (0xD800 \<le> c \<and> c \<le> 0xDFFF)"

lemma unat_byte: "n < 256 \<Longrightarrow> unat (word_of_nat n :: byte) = n"
  by (simp add: unsigned_of_nat take_bit_nat_eq_self)

definition idle :: "utf8_state \<Rightarrow> bool" where
  "idle st \<longleftrightarrow> between_points st = st"

lemma idle_simps: "idle st \<longleftrightarrow> u_point st = 0 \<and> u_needed st = 0 \<and> u_lower st = 0x80 \<and> u_upper st = 0xBF"
  by (cases st) (auto simp: idle_def between_points_def)

fun utf8_points :: "nat list \<Rightarrow> utf8_state \<Rightarrow> nat list \<times> utf8_state" where
  "utf8_points [] st = ([], st)"
| "utf8_points (b # bs) st =
     (case utf8_byte b st of (ps, st') \<Rightarrow> (case utf8_points bs st' of (qs, st'') \<Rightarrow> (ps @ qs, st'')))"

lemma three: "(c div 4096 * 64 + c div 64 mod 64) * 64 + c mod 64 = (c :: nat)"
proof -
  have "c div 64 div 64 = c div 4096" by (simp add: div_mult2_eq [symmetric])
  then have "c div 4096 * 64 + c div 64 mod 64 = c div 64" using div_mult_mod_eq [of "c div 64" 64] by simp
  then show ?thesis using div_mult_mod_eq [of c 64] by simp
qed

lemma four: "((c div 262144 * 64 + c div 4096 mod 64) * 64 + c div 64 mod 64) * 64 + c mod 64 = (c :: nat)"
proof -
  have "c div 4096 div 64 = c div 262144" by (simp add: div_mult2_eq [symmetric])
  then have "c div 262144 * 64 + c div 4096 mod 64 = c div 4096" using div_mult_mod_eq [of "c div 4096" 64] by simp
  then show ?thesis using three by simp
qed

lemma div_bounds: "0 < d \<Longrightarrow> n * d \<le> c \<Longrightarrow> n \<le> c div d" "c < n * d \<Longrightarrow> c div d < n" for c d n :: nat
  by (simp_all add: less_eq_div_iff_mult_less_eq less_mult_imp_div_less)

lemma second_of_three:
  fixes c :: nat
  assumes "0x800 \<le> c" "c < 0x10000" "\<not> (0xD800 \<le> c \<and> c \<le> 0xDFFF)"
  shows "c div 4096 = 0 \<Longrightarrow> 0x20 \<le> c div 64 mod 64" and "c div 4096 = 13 \<Longrightarrow> c div 64 mod 64 < 0x20"
proof -
  let ?x = "c div 64"
  have x: "?x div 64 = c div 4096" by (simp add: div_mult2_eq [symmetric])
  have split: "?x = c div 4096 * 64 + ?x mod 64" using div_mult_mod_eq [of ?x 64] x by simp
  have c: "?x * 64 \<le> c" "c < ?x * 64 + 64" using div_mult_mod_eq [of c 64] mod_less_divisor [of 64 c] by linarith+
  show "c div 4096 = 0 \<Longrightarrow> 0x20 \<le> ?x mod 64" using split assms(1) div_bounds(1) [of 64 32 c] by simp
  show "c div 4096 = 13 \<Longrightarrow> ?x mod 64 < 0x20"
    using split c assms(3) mod_less_divisor [of 64 ?x] by linarith
qed

lemma second_of_four:
  fixes c :: nat
  assumes "0x10000 \<le> c" "c < 0x110000"
  shows "c div 262144 = 0 \<Longrightarrow> 0x10 \<le> c div 4096 mod 64" and "c div 262144 = 4 \<Longrightarrow> c div 4096 mod 64 < 0x10"
proof -
  let ?x = "c div 4096"
  have x: "?x div 64 = c div 262144" by (simp add: div_mult2_eq [symmetric])
  have split: "?x = c div 262144 * 64 + ?x mod 64" using div_mult_mod_eq [of ?x 64] x by simp
  show "c div 262144 = 0 \<Longrightarrow> 0x10 \<le> ?x mod 64" using split assms(1) div_bounds(1) [of 4096 16 c] by simp
  show "c div 262144 = 4 \<Longrightarrow> ?x mod 64 < 0x10" using split assms(2) div_bounds(2) [of c 272 4096] by linarith
qed

lemma add_mod: "x < m \<Longrightarrow> (m * k + x) mod m = x" for x m k :: nat
  by simp

lemma utf8_sequences:
  assumes "idle st"
  shows "x < 128 \<Longrightarrow> utf8_points [x] st = ([x], st)"
    and "2 \<le> x \<Longrightarrow> x < 32 \<Longrightarrow> y < 64 \<Longrightarrow> utf8_points [192 + x, 128 + y] st = ([x * 64 + y], st)"
    and "x < 16 \<Longrightarrow> y < 64 \<Longrightarrow> z < 64 \<Longrightarrow> (x = 0 \<longrightarrow> 32 \<le> y) \<Longrightarrow> (x = 13 \<longrightarrow> y < 32) \<Longrightarrow>
      utf8_points [224 + x, 128 + y, 128 + z] st = ([(x * 64 + y) * 64 + z], st)"
    and "x < 5 \<Longrightarrow> y < 64 \<Longrightarrow> z < 64 \<Longrightarrow> w < 64 \<Longrightarrow> (x = 0 \<longrightarrow> 16 \<le> y) \<Longrightarrow> (x = 4 \<longrightarrow> y < 16) \<Longrightarrow>
      utf8_points [240 + x, 128 + y, 128 + z, 128 + w] st = ([((x * 64 + y) * 64 + z) * 64 + w], st)"
proof -
  have st: "u_point st = 0" "u_needed st = 0" "u_lower st = 0x80" "u_upper st = 0xBF" and home: "between_points st = st"
    using assms idle_simps [of st] by (simp_all add: idle_def)
  have home': "between_points (st\<lparr>u_point := p, u_needed := n, u_lower := l, u_upper := u\<rparr>) = st"
    "between_points (st\<lparr>u_point := p, u_needed := n\<rparr>) = st" for p n l u
    using home by (cases st; simp add: between_points_def)+
  note defs = utf8_byte_def utf8_lead_def st home'
  have m: "(128 + v) mod 64 = v" if "v < 64" for v :: nat using that add_mod [of v 64 2] by simp
  show "x < 128 \<Longrightarrow> utf8_points [x] st = ([x], st)" by (simp add: defs)
  show "2 \<le> x \<Longrightarrow> x < 32 \<Longrightarrow> y < 64 \<Longrightarrow> utf8_points [192 + x, 128 + y] st = ([x * 64 + y], st)"
    using add_mod [of x 32 6] by (simp add: defs m)
  show "x < 16 \<Longrightarrow> y < 64 \<Longrightarrow> z < 64 \<Longrightarrow> (x = 0 \<longrightarrow> 32 \<le> y) \<Longrightarrow> (x = 13 \<longrightarrow> y < 32) \<Longrightarrow>
      utf8_points [224 + x, 128 + y, 128 + z] st = ([(x * 64 + y) * 64 + z], st)"
    using add_mod [of x 16 14] by (auto simp: defs m)
  show "x < 5 \<Longrightarrow> y < 64 \<Longrightarrow> z < 64 \<Longrightarrow> w < 64 \<Longrightarrow> (x = 0 \<longrightarrow> 16 \<le> y) \<Longrightarrow> (x = 4 \<longrightarrow> y < 16) \<Longrightarrow>
      utf8_points [240 + x, 128 + y, 128 + z, 128 + w] st = ([((x * 64 + y) * 64 + z) * 64 + w], st)"
    using add_mod [of x 8 30] by (auto simp: defs m)
qed

lemma utf8_round_trip:
  assumes "scalar c" and "idle st"
  shows "utf8_points (utf8_bytes c) st = ([c], st)"
proof -
  note seqs = utf8_sequences [OF assms(2)]
  have lt: "x mod 64 < (64 :: nat)" for x by simp
  consider "c < 0x80" | "0x80 \<le> c" "c < 0x800" | "0x800 \<le> c" "c < 0x10000" | "0x10000 \<le> c" by linarith
  then show ?thesis
  proof cases
    case 1
    with seqs(1) show ?thesis by (simp add: utf8_bytes_def)
  next
    case 2
    then have "2 \<le> c div 64" "c div 64 < 32" using div_bounds(1) [of 64 2 c] div_bounds(2) [of c 32 64] by simp_all
    from seqs(2) [OF this lt] 2 show ?thesis by (simp add: utf8_bytes_def del: utf8_points.simps)
  next
    case 3
    have "c div 4096 < 16" using 3 by (intro div_bounds(2)) simp
    from seqs(3) [OF this lt lt] second_of_three [OF 3] assms(1) three [of c] 3 show ?thesis
      by (simp add: utf8_bytes_def scalar_def del: utf8_points.simps)
  next
    case 4
    have "c div 262144 < 5" using assms(1) by (intro div_bounds(2)) (simp add: scalar_def)
    from seqs(4) [OF this lt lt lt] second_of_four [OF 4] assms(1) four [of c] 4 show ?thesis
      by (simp add: utf8_bytes_def scalar_def del: utf8_points.simps)
  qed
qed

definition strip_bom :: "nat list \<Rightarrow> nat list" where
  "strip_bom ps = (if ps \<noteq> [] \<and> hd ps = 0xFEFF then tl ps else ps)"

lemma utf8_byte_started:
  "utf8_byte b (st\<lparr>u_started := x\<rparr>) = (fst (utf8_byte b st), (snd (utf8_byte b st))\<lparr>u_started := x\<rparr>)"
  by (cases st) (simp add: utf8_byte_def utf8_lead_def between_points_def Let_def)

lemma utf8_byte_keeps: "u_started (snd (utf8_byte b st)) = u_started st"
  by (cases st) (simp add: utf8_byte_def utf8_lead_def between_points_def Let_def)

lemma utf8_points_started:
  "utf8_points bs (st\<lparr>u_started := x\<rparr>) = (fst (utf8_points bs st), (snd (utf8_points bs st))\<lparr>u_started := x\<rparr>)"
proof (induction bs arbitrary: st)
  case (Cons b bs)
  show ?case using Cons [of "snd (utf8_byte b st)"] by (simp add: utf8_byte_started case_prod_unfold)
qed simp

lemma decoder_points:
  "decoder_decode bs st =
     (concat (map utf16 (if u_started st then fst (utf8_points (map unat bs) st) else strip_bom (fst (utf8_points (map unat bs) st)))),
      (snd (utf8_points (map unat bs) st))\<lparr>u_started := u_started st \<or> fst (utf8_points (map unat bs) st) \<noteq> []\<rparr>)"
proof (induction bs arbitrary: st)
  case (Cons b bs)
  obtain ps st1 where p: "utf8_byte (unat b) st = (ps, st1)" by fastforce
  then have s: "u_started st1 = u_started st" using utf8_byte_keeps [of "unat b" st] by simp
  obtain qs st2 where q: "utf8_points (map unat bs) st1 = (qs, st2)" by fastforce
  show ?case
  proof (cases "u_started st \<or> ps = []")
    case True
    then have "drop_bom ps st1 = (ps, st1)" using s by (simp add: drop_bom_def)
    with p q s Cons [of st1] True show ?thesis by (auto simp: strip_bom_def)
  next
    case False
    then have "drop_bom ps st1 = (strip_bom ps, st1\<lparr>u_started := True\<rparr>)" using s by (simp add: drop_bom_def strip_bom_def)
    with p q s Cons [of "st1\<lparr>u_started := True\<rparr>"] utf8_points_started [where st = st1 and x = True] False
    show ?thesis by (simp add: strip_bom_def)
  qed
qed (simp add: strip_bom_def)

lemma decoder_append:
  "decoder_decode (a @ b) st =
     (fst (decoder_decode a st) @ fst (decoder_decode b (snd (decoder_decode a st))), snd (decoder_decode b (snd (decoder_decode a st))))"
  by (induction a arbitrary: st) (simp_all add: case_prod_unfold)

lemma utf8_points_append:
  "utf8_points (a @ b) st =
     (fst (utf8_points a st) @ fst (utf8_points b (snd (utf8_points a st))), snd (utf8_points b (snd (utf8_points a st))))"
  by (induction a arbitrary: st) (simp_all add: case_prod_unfold)

lemma utf8_points_all:
  "list_all scalar cs \<Longrightarrow> idle st \<Longrightarrow> utf8_points (concat (map utf8_bytes cs)) st = (cs, st)"
  by (induction cs) (simp_all add: utf8_points_append utf8_round_trip)

lemma utf8_bytes_small: "scalar c \<Longrightarrow> \<forall>b \<in> set (utf8_bytes c). b < 256"
  using div_bounds(2) [of c 32 64] div_bounds(2) [of c 16 4096] div_bounds(2) [of c 5 262144]
  by (auto simp: utf8_bytes_def scalar_def intro: less_trans [OF mod_less_divisor])

lemma scalars_well_formed: "well_formed t \<Longrightarrow> list_all scalar (scalars t) \<and> concat (map utf16 (scalars t)) = t"
proof (induction t rule: scalars.induct)
  case (3 u v t)
  show ?case
  proof (cases "high_surrogate u")
    case True
    with 3 have low: "low_surrogate v" and ih: "list_all scalar (scalars t)" "concat (map utf16 (scalars t)) = t" by auto
    obtain x y where u: "u = 0xD800 + x" "x < 1024" and v: "v = 0xDC00 + y" "y < 1024"
      using True low by (auto simp: high_surrogate_def low_surrogate_def dest!: le_Suc_ex)
    have "scalar (0x10000 + x * 1024 + y)" using u(2) v(2) by (simp add: scalar_def)
    moreover have "utf16 (0x10000 + x * 1024 + y) = [u, v]" using u v by (simp add: utf16_def)
    ultimately show ?thesis using True low ih u(1) v(1) by simp
  next
    case False
    with 3 show ?thesis by (auto simp: scalar_def utf16_def low_surrogate_def high_surrogate_def)
  qed
qed (auto simp: scalar_def utf16_def low_surrogate_def high_surrogate_def)

lemma idle_initial: "idle initial_utf8"
  by (simp add: idle_simps initial_utf8_def)

lemma decode_encode:
  assumes "well_formed t" and "t = [] \<or> hd t \<noteq> 0xFEFF"
  shows "decoder_decode (encoder_encode t) initial_utf8 = (t, initial_utf8\<lparr>u_started := (t \<noteq> [])\<rparr>)"
proof -
  note sc = scalars_well_formed [OF assms(1)]
  have "\<forall>b \<in> set (concat (map utf8_bytes (scalars t))). b < 256"
    using sc utf8_bytes_small by (auto simp: list_all_iff)
  then have "map unat (encoder_encode t) = concat (map utf8_bytes (scalars t))"
    unfolding encoder_encode_def map_map by (intro map_idI) (auto intro!: unat_byte)
  then have ps: "utf8_points (map unat (encoder_encode t)) initial_utf8 = (scalars t, initial_utf8)"
    using sc idle_initial by (simp add: utf8_points_all)
  have "strip_bom (scalars t) = scalars t"
  proof (cases "scalars t")
    case (Cons c cs)
    with sc have "concat (map utf16 (c # cs)) = t" by simp
    with assms(2) have "c \<noteq> 0xFEFF" by (auto simp: utf16_def)
    with Cons show ?thesis by (simp add: strip_bom_def)
  qed (simp add: strip_bom_def)
  moreover have "scalars t = [] \<longleftrightarrow> t = []" by (cases t rule: scalars.cases) auto
  ultimately show ?thesis using sc ps by (simp add: decoder_points initial_utf8_def)
qed

subsection \<open>Server-sent events\<close>

abbreviation newline :: nat where "newline \<equiv> 10"

definition units :: "string \<Rightarrow> text16" where
  "units s = map of_char s"

text \<open>\<open>split(/\n\n/)\<close> and \<open>split("\n")\<close>; the result is never empty.\<close>

definition cons_first :: "'a \<Rightarrow> 'a list list \<Rightarrow> 'a list list" where
  "cons_first x fs = (x # hd fs) # tl fs"

fun split_frames :: "text16 \<Rightarrow> text16 list" where
  "split_frames [] = [[]]"
| "split_frames [x] = [[x]]"
| "split_frames (x # y # t) =
     (if x = newline \<and> y = newline then [] # split_frames t else cons_first x (split_frames (y # t)))"

fun split_lines :: "text16 \<Rightarrow> text16 list" where
  "split_lines [] = [[]]"
| "split_lines (x # t) = (if x = newline then [] # split_lines t else cons_first x (split_lines t))"

fun join_lines :: "text16 list \<Rightarrow> text16" where
  "join_lines [] = []"
| "join_lines [l] = l"
| "join_lines (l # ls) = l @ newline # join_lines ls"

definition data_of :: "text16 \<Rightarrow> text16" where
  "data_of line = (let rest = drop 5 line in if rest \<noteq> [] \<and> hd rest = 32 then tl rest else rest)"

definition data_lines :: "text16 \<Rightarrow> text16 list" where
  "data_lines t = map data_of (filter (\<lambda>line. take 5 line = units ''data:'') (split_lines t))"

definition processSSEEvent ::
    "(text16 \<Rightarrow> js option) \<Rightarrow> text16 \<Rightarrow> (js, wire_error) subject \<Rightarrow> (js, wire_error) subject" where
  "processSSEEvent parse t s =
     (if data_lines t = [] then s
      else case parse (join_lines (data_lines t)) of
          None \<Rightarrow> sub_error InvalidJson s
        | Some json \<Rightarrow> sub_next json s)"

record sse_state =
  s_decoder :: utf8_state
  s_buffer :: text16
  s_subject :: "(js, wire_error) subject"

definition initial_sse :: sse_state where
  "initial_sse = \<lparr>s_decoder = initial_utf8, s_buffer = [], s_subject = new_subject\<rparr>"

definition sse_text :: "(text16 \<Rightarrow> js option) \<Rightarrow> text16 \<Rightarrow> sse_state \<Rightarrow> sse_state" where
  "sse_text parse t st =
     (let events = split_frames (s_buffer st @ t);
          buffer = last events;
          s = fold (processSSEEvent parse) (butlast events) (s_subject st) in
      st\<lparr>s_buffer := buffer,
         s_subject := (if MAX_BUFFER_SIZE < length buffer then sub_error BufferTooLarge s else s)\<rparr>)"

definition sse_next :: "(text16 \<Rightarrow> js option) \<Rightarrow> http_event \<Rightarrow> sse_state \<Rightarrow> sse_state" where
  "sse_next parse event st =
     (case event of
        DATA (Some bytes) \<Rightarrow>
          (case decoder_decode bytes (s_decoder st) of (t, dec) \<Rightarrow> sse_text parse t (st\<lparr>s_decoder := dec\<rparr>))
      | _ \<Rightarrow> st)"

definition sse_error :: "wire_error \<Rightarrow> sse_state \<Rightarrow> sse_state" where
  "sse_error err st = st\<lparr>s_subject := sub_error err (s_subject st)\<rparr>"

definition sse_complete :: "(text16 \<Rightarrow> js option) \<Rightarrow> sse_state \<Rightarrow> sse_state" where
  "sse_complete parse st =
     (let st' = (if s_buffer st = [] then st
                 else let buffer = s_buffer st @ decoder_flush (s_decoder st) in
                   st\<lparr>s_buffer := buffer, s_subject := processSSEEvent parse buffer (s_subject st)\<rparr>) in
      st'\<lparr>s_subject := sub_complete (s_subject st')\<rparr>)"

definition encodeSSE :: "(js \<Rightarrow> text16) \<Rightarrow> js \<Rightarrow> text16" where
  "encodeSSE stringify event =
     units ''data: '' @ stringify (omitOptionalNulls event ''Event'') @ [newline, newline]"

definition encodeBinary ::
    "bool \<Rightarrow> (js \<Rightarrow> byte list) \<Rightarrow> (js \<Rightarrow> text16) \<Rightarrow> js \<Rightarrow> byte list" where
  "encodeBinary acceptsProtobuf encode stringify event =
     (if acceptsProtobuf then encodeProtobuf encode event else encoder_encode (encodeSSE stringify event))"

subsection \<open>Events are independent of the chunks\<close>

lemma split_frames_nonempty [simp]: "split_frames t \<noteq> []"
  by (induction t rule: split_frames.induct) (simp_all add: cons_first_def)

lemma split_frames_cons: "\<not> (x = newline \<and> y = newline) \<Longrightarrow> split_frames (x # y # t) = cons_first x (split_frames (y # t))"
  by auto

lemma split_frames_single: "split_frames t = [f] \<Longrightarrow> f = t"
proof (induction t arbitrary: f rule: split_frames.induct)
  case (3 x y t)
  show ?case
  proof (cases "x = newline \<and> y = newline")
    case False
    obtain g gs where g: "split_frames (y # t) = g # gs" by (cases "split_frames (y # t)") auto
    with 3(2) [OF False, of g] 3(3) False show ?thesis by (auto simp: split_frames_cons cons_first_def)
  qed (use 3(3) in simp)
qed simp_all

lemma split_frames_append:
  "split_frames (a @ b) = butlast (split_frames a) @ split_frames (last (split_frames a) @ b)"
proof (induction a rule: split_frames.induct)
  case (3 x y t)
  show ?case
  proof (cases "x = newline \<and> y = newline")
    case True
    with 3(1) show ?thesis by simp
  next
    case False
    obtain f fs where f: "split_frames (y # t) = f # fs" by (cases "split_frames (y # t)") auto
    note ih = 3(2) [OF False, unfolded f]
    show ?thesis
    proof (cases "fs = []")
      case True
      with f split_frames_single [of "y # t" f] have "f = y # t" by simp
      with True f have "split_frames (x # y # t) = [x # y # t]" unfolding split_frames_cons [OF False] by (simp add: cons_first_def)
      then show ?thesis by (simp only: last.simps butlast.simps simp_thms if_True append_Nil)
    next
      case fs: False
      have "split_frames (x # y # t @ b) = cons_first x (split_frames ((y # t) @ b))"
        using split_frames_cons [OF False] by simp
      with ih fs f show ?thesis unfolding split_frames_cons [OF False] append_Cons using False by (simp add: cons_first_def)
    qed
  qed
qed simp_all

lemma last_frame_single: "split_frames (last (split_frames p)) = [last (split_frames p)]"
proof -
  have "split_frames p = butlast (split_frames p) @ split_frames (last (split_frames p))"
    using split_frames_append [of p "[]"] by simp
  then have "length (split_frames (last (split_frames p))) = 1"
    by (metis add_left_cancel append_butlast_last_id length_append length_Cons list.size(3) One_nat_def split_frames_nonempty)
  then obtain f where f: "split_frames (last (split_frames p)) = [f]" by (cases "split_frames (last (split_frames p))") auto
  with split_frames_single [OF f] show ?thesis by simp
qed

lemma first_frame_long: "split_frames f = [f] \<Longrightarrow> length f \<le> Suc (length (hd (split_frames (f @ r))))"
proof (induction f rule: split_frames.induct)
  case (3 x y t)
  have no: "\<not> (x = newline \<and> y = newline)" using 3(3) by auto
  with 3(3) have "split_frames (y # t) = [y # t]"
    unfolding split_frames_cons [OF no] by (cases "split_frames (y # t)") (auto simp: cons_first_def)
  from 3(2) [OF no this] show ?case unfolding append_Cons split_frames_cons [OF no] by (simp add: cons_first_def)
qed simp_all

lemma frames_continue:
  "butlast (split_frames (p @ t)) = butlast (split_frames p) @ butlast (split_frames (last (split_frames p) @ t))"
  "last (split_frames (p @ t)) = last (split_frames (last (split_frames p) @ t))"
  using split_frames_append [of p t] by (simp_all add: butlast_append)

lemma buffer_fits:
  assumes "\<forall>f \<in> set (split_frames (p @ r)). length f < MAX_BUFFER_SIZE"
  shows "length (last (split_frames p)) \<le> MAX_BUFFER_SIZE"
proof -
  have "hd (split_frames (last (split_frames p) @ r)) \<in> set (split_frames (p @ r))"
    unfolding split_frames_append [of p r] by simp
  with assms first_frame_long [OF last_frame_single, of p r] show ?thesis by fastforce
qed

definition sse_run :: "(text16 \<Rightarrow> js option) \<Rightarrow> byte list list \<Rightarrow> sse_state \<Rightarrow> sse_state" where
  "sse_run parse chunks st = sse_complete parse (fold (sse_next parse) (map (\<lambda>c. DATA (Some c)) chunks) st)"

text \<open>The state after a text: the last frame is held, the others are delivered.\<close>

definition sse_after :: "(text16 \<Rightarrow> js option) \<Rightarrow> text16 \<Rightarrow> utf8_state \<Rightarrow> sse_state" where
  "sse_after parse t dec =
     \<lparr>s_decoder = dec, s_buffer = last (split_frames t),
      s_subject = fold (processSSEEvent parse) (butlast (split_frames t)) new_subject\<rparr>"

lemma sse_next_after:
  assumes "decoder_decode c dec = (t, dec')" and "length (last (split_frames (p @ t))) \<le> MAX_BUFFER_SIZE"
  shows "sse_next parse (DATA (Some c)) (sse_after parse p dec) = sse_after parse (p @ t) dec'"
  using assms unfolding sse_after_def frames_continue [of p t] by (simp add: sse_next_def sse_text_def Let_def)

lemma sse_chunks:
  assumes "\<forall>f \<in> set (split_frames (p @ fst (decoder_decode (concat chunks) dec))). length f < MAX_BUFFER_SIZE"
  shows "fold (sse_next parse) (map (\<lambda>c. DATA (Some c)) chunks) (sse_after parse p dec) =
    sse_after parse (p @ fst (decoder_decode (concat chunks) dec)) (snd (decoder_decode (concat chunks) dec))"
  using assms
proof (induction chunks arbitrary: p dec)
  case (Cons c cs)
  obtain t dec' where d: "decoder_decode c dec = (t, dec')" by fastforce
  then have whole: "decoder_decode (concat (c # cs)) dec =
      (t @ fst (decoder_decode (concat cs) dec'), snd (decoder_decode (concat cs) dec'))"
    by (simp add: decoder_append)
  have "length (last (split_frames (p @ t))) \<le> MAX_BUFFER_SIZE"
    using Cons.prems whole buffer_fits [of "p @ t" "fst (decoder_decode (concat cs) dec')"] by simp
  with Cons.IH [of "p @ t" dec'] Cons.prems whole sse_next_after [OF d] show ?case by simp
qed simp

lemma sse_after_initial: "initial_sse = sse_after parse [] initial_utf8"
  by (simp add: initial_sse_def sse_after_def)

subsection \<open>What the encoder writes\<close>

lemma split_frames_line: "newline \<notin> set l \<Longrightarrow> split_frames (l @ newline # newline # t) = l # split_frames t"
proof (induction l)
  case (Cons x l)
  then show ?case by (cases l) (auto simp: cons_first_def)
qed simp

lemma split_lines_line: "newline \<notin> set l \<Longrightarrow> split_lines l = [l]"
  by (induction l) (auto simp: cons_first_def)

lemma units_data: "units ''data: '' = units ''data:'' @ [32]"
  by (simp add: units_def)

lemma data_lines_line: "newline \<notin> set j \<Longrightarrow> data_lines (units ''data: '' @ j) = [j]"
  by (simp add: data_lines_def split_lines_line units_def data_of_def cons_first_def Let_def)

lemma well_formed_append: "well_formed a \<Longrightarrow> well_formed b \<Longrightarrow> well_formed (a @ b)"
proof (induction a rule: well_formed.induct)
  case (2 u t)
  then show ?case by (cases t) auto
qed simp

lemma scalars_append: "well_formed a \<Longrightarrow> scalars (a @ b) = scalars a @ scalars b"
proof (induction a rule: scalars.induct)
  case (2 u)
  then show ?case by (cases b) (auto simp: high_surrogate_def low_surrogate_def)
next
  case (3 u v t)
  then show ?case by (cases "high_surrogate u") auto
qed simp

lemma well_formed_units: "well_formed (units s)"
proof (induction s)
  case (Cons c s)
  have "of_char c < (256 :: nat)" by simp
  then have "of_char c < (0xD800 :: nat)" by linarith
  then have "\<not> high_surrogate (of_char c)" "\<not> low_surrogate (of_char c)" "of_char c < (0x10000 :: nat)"
    by (simp_all add: high_surrogate_def low_surrogate_def)
  with Cons show ?case by (simp add: units_def)
qed (simp add: units_def)

lemma well_formed_encodeSSE:
  "well_formed (stringify (omitOptionalNulls e ''Event'')) \<Longrightarrow> well_formed (encodeSSE stringify e)"
  unfolding encodeSSE_def
  by (intro well_formed_append well_formed_units) (simp_all add: high_surrogate_def low_surrogate_def)

lemma encode_all:
  "(\<And>e. e \<in> set events \<Longrightarrow> well_formed (f e)) \<Longrightarrow>
     concat (map (\<lambda>e. encoder_encode (f e)) events) = encoder_encode (concat (map f events)) \<and> well_formed (concat (map f events))"
  by (induction events) (simp_all add: encoder_encode_def scalars_append well_formed_append)

lemma split_encoded:
  assumes "\<And>e. e \<in> set events \<Longrightarrow> newline \<notin> set (stringify (omitOptionalNulls e ''Event''))"
  shows "split_frames (concat (map (encodeSSE stringify) events)) =
    map (\<lambda>e. units ''data: '' @ stringify (omitOptionalNulls e ''Event'')) events @ [[]]"
  using assms
proof (induction events)
  case (Cons e es)
  have "newline \<notin> set (units ''data: '' @ stringify (omitOptionalNulls e ''Event''))"
    using Cons.prems [of e] by (simp add: units_def)
  from split_frames_line [OF this, of "concat (map (encodeSSE stringify) es)"]
  have "split_frames (concat (map (encodeSSE stringify) (e # es))) =
      (units ''data: '' @ stringify (omitOptionalNulls e ''Event'')) # split_frames (concat (map (encodeSSE stringify) es))"
    by (simp add: encodeSSE_def)
  with Cons show ?case by simp
qed simp

lemma process_all:
  assumes "\<And>e. e \<in> set events \<Longrightarrow> newline \<notin> set (g e)" and "\<And>e. e \<in> set events \<Longrightarrow> parse (g e) = Some (h e)"
  shows "fold (processSSEEvent parse) (map (\<lambda>e. units ''data: '' @ g e) events) s = fold sub_next (map h events) s"
  using assms by (induction events arbitrary: s) (simp_all add: processSSEEvent_def data_lines_line)

subsection \<open>The transport reader\<close>

text \<open>
  \<open>transformHttpEventStream\<close>: the parser is chosen by the content type of the HEADERS event and
  attached while that event is handled; what it delivers is relayed to the output subject, and a
  failure of either side releases the source (\<open>h_reading\<close>), after which no source event
  arrives any more. The error object of an aborted request is represented by its name and message.
\<close>

definition AGUI_MEDIA_TYPE :: string where
  "AGUI_MEDIA_TYPE = ''application/vnd.ag-ui.event+proto''"

datatype reader = NoParser | ProtoParser "js proto_state" | SseParser sse_state

record http_state =
  h_parser :: reader
  h_reading :: bool
  h_subject :: "(js, wire_error) subject"

definition initial_http :: http_state where
  "initial_http = \<lparr>h_parser = NoParser, h_reading = True, h_subject = new_subject\<rparr>"

definition frame_checked :: "js \<Rightarrow> (js, wire_error) subject \<Rightarrow> (js, wire_error) subject" where
  "frame_checked json s =
     (if \<not> is_object json then sub_error NotAnObject s
      else if \<not> is_string (jprop json ''type'') \<or> jprop json ''type'' = JStr [] then sub_error NoEventType s
      else sub_next json s)"

definition abort_event :: "string \<Rightarrow> string \<Rightarrow> js" where
  "abort_event name message =
     JObj [(''type'', JStr ''RUN_ERROR''),
           (''message'', JStr (if message = [] then ''Request aborted'' else message)),
           (''code'', JStr ''abort''),
           (''rawEvent'', JObj [(''name'', JStr name), (''message'', JStr message)])]"

fun relay_value :: "reader \<Rightarrow> js \<Rightarrow> (js, wire_error) subject \<Rightarrow> (js, wire_error) subject" where
  "relay_value (SseParser p) v s = frame_checked v s"
| "relay_value _ v s = sub_next v s"

definition relay_error :: "reader \<Rightarrow> wire_error \<Rightarrow> (js, wire_error) subject \<Rightarrow> (js, wire_error) subject" where
  "relay_error parser err s =
     (case (parser, err) of
        (SseParser p, SourceError name message) \<Rightarrow>
          if name = ''AbortError'' then sub_complete (sub_next (abort_event name message) s) else sub_error err s
      | _ \<Rightarrow> sub_error err s)"

definition relay_ending :: "reader \<Rightarrow> wire_error ending \<Rightarrow> (js, wire_error) subject \<Rightarrow> (js, wire_error) subject" where
  "relay_ending parser outcome s =
     (case outcome of Live \<Rightarrow> s | Completed \<Rightarrow> sub_complete s | Errored err \<Rightarrow> relay_error parser err s)"

fun reader_subject :: "reader \<Rightarrow> (js, wire_error) subject" where
  "reader_subject NoParser = new_subject"
| "reader_subject (ProtoParser p) = p_subject p"
| "reader_subject (SseParser p) = s_subject p"

text \<open>The parser moves on; its new values and its end are relayed.\<close>

definition advance_reader :: "reader \<Rightarrow> http_state \<Rightarrow> http_state" where
  "advance_reader parser st =
     (let old = reader_subject (h_parser st); new = reader_subject parser;
          s = relay_ending parser (ending new)
                (fold (relay_value parser) (drop (length (delivered old)) (delivered new)) (h_subject st)) in
      st\<lparr>h_parser := parser, h_subject := s, h_reading := (h_reading st \<and> ending s = Live)\<rparr>)"

definition fail_stream :: "wire_error \<Rightarrow> http_state \<Rightarrow> http_state" where
  "fail_stream err st = st\<lparr>h_reading := False, h_subject := sub_error err (h_subject st)\<rparr>"

text \<open>What the buffered subject passes on to the parser.\<close>

fun reader_next :: "(byte list \<Rightarrow> js decoding) \<Rightarrow> (text16 \<Rightarrow> js option) \<Rightarrow> http_event \<Rightarrow> reader \<Rightarrow> reader" where
  "reader_next decode parse event (ProtoParser p) = ProtoParser (proto_next decode event p)"
| "reader_next decode parse event (SseParser p) = SseParser (sse_next parse event p)"
| "reader_next decode parse event NoParser = NoParser"

fun reader_error :: "wire_error \<Rightarrow> reader \<Rightarrow> reader" where
  "reader_error err (ProtoParser p) = ProtoParser (proto_error err p)"
| "reader_error err (SseParser p) = SseParser (sse_error err p)"
| "reader_error err NoParser = NoParser"

fun reader_complete :: "(byte list \<Rightarrow> js decoding) \<Rightarrow> (text16 \<Rightarrow> js option) \<Rightarrow> reader \<Rightarrow> reader" where
  "reader_complete decode parse (ProtoParser p) = ProtoParser (proto_complete decode p)"
| "reader_complete decode parse (SseParser p) = SseParser (sse_complete parse p)"
| "reader_complete decode parse NoParser = NoParser"

definition http_next ::
    "(byte list \<Rightarrow> js decoding) \<Rightarrow> (text16 \<Rightarrow> js option) \<Rightarrow> http_event \<Rightarrow> http_state \<Rightarrow> http_state" where
  "http_next decode parse event st =
     (if \<not> h_reading st then st
      else if h_parser st \<noteq> NoParser then advance_reader (reader_next decode parse event (h_parser st)) st
      else case event of
        HEADERS status headers \<Rightarrow>
          st\<lparr>h_parser := (if headers ''content-type'' = Some AGUI_MEDIA_TYPE
            then ProtoParser initial_proto else SseParser initial_sse)\<rparr>
      | DATA bytes \<Rightarrow> fail_stream NoHeaders st)"

definition http_error :: "wire_error \<Rightarrow> http_state \<Rightarrow> http_state" where
  "http_error err st =
     (if \<not> h_reading st then st
      else fail_stream err (advance_reader (reader_error err (h_parser st)) st))"

definition http_complete ::
    "(byte list \<Rightarrow> js decoding) \<Rightarrow> (text16 \<Rightarrow> js option) \<Rightarrow> http_state \<Rightarrow> http_state" where
  "http_complete decode parse st =
     (if \<not> h_reading st then st else advance_reader (reader_complete decode parse (h_parser st)) st)"

abbreviation http_feed ::
    "(byte list \<Rightarrow> js decoding) \<Rightarrow> (text16 \<Rightarrow> js option) \<Rightarrow> http_event list \<Rightarrow> http_state \<Rightarrow> http_state" where
  "http_feed decode parse \<equiv> fold (http_next decode parse)"

definition getContentType :: "bool \<Rightarrow> string" where
  "getContentType acceptsProtobuf = (if acceptsProtobuf then AGUI_MEDIA_TYPE else ''text/event-stream'')"

subsection \<open>The output is the relayed parser\<close>

definition relayed :: "reader \<Rightarrow> (js, wire_error) subject" where
  "relayed parser =
     relay_ending parser (ending (reader_subject parser))
       (fold (relay_value parser) (delivered (reader_subject parser)) new_subject)"

fun same_kind :: "reader \<Rightarrow> reader \<Rightarrow> bool" where
  "same_kind NoParser NoParser = True"
| "same_kind (ProtoParser p) (ProtoParser q) = True"
| "same_kind (SseParser p) (SseParser q) = True"
| "same_kind _ _ = False"

text \<open>A later state of the same parser: it ended and stays, or it delivered more.\<close>

definition extends :: "reader \<Rightarrow> reader \<Rightarrow> bool" where
  "extends p q \<longleftrightarrow> same_kind p q \<and>
     (if ending (reader_subject p) = Live
      then \<exists>vs. delivered (reader_subject q) = delivered (reader_subject p) @ vs
      else reader_subject q = reader_subject p)"

lemma same_kind_relay: "same_kind p q \<Longrightarrow> relay_value q = relay_value p \<and> relay_ending q = relay_ending p"
  by (cases p; cases q) (auto simp: relay_ending_def relay_error_def fun_eq_iff split: ending.split wire_error.split)

lemma relay_value_stopped: "ending s \<noteq> Live \<Longrightarrow> relay_value p v s = s"
  by (cases p) (simp_all add: frame_checked_def)

lemma fold_relay_stopped: "ending s \<noteq> Live \<Longrightarrow> fold (relay_value p) vs s = s"
  by (induction vs) (simp_all add: relay_value_stopped)

lemma relay_ending_stopped: "ending s \<noteq> Live \<Longrightarrow> relay_ending p e s = s"
  by (auto simp: relay_ending_def relay_error_def split: ending.split reader.split wire_error.split)

lemma relay_ending_ends: "e \<noteq> Live \<Longrightarrow> ending (relay_ending p e s) \<noteq> Live"
  by (auto simp: relay_ending_def relay_error_def split: ending.split reader.split wire_error.split)

lemma relayed_live: "ending (relayed p) = Live \<Longrightarrow> ending (reader_subject p) = Live"
  using relay_ending_ends by (auto simp: relayed_def)

lemma relayed_extends:
  assumes "extends p q" and "ending (relayed p) \<noteq> Live"
  shows "relayed q = relayed p"
proof (cases "ending (reader_subject p) = Live")
  case True
  with assms obtain vs where vs: "delivered (reader_subject q) = delivered (reader_subject p) @ vs"
    and k: "same_kind p q" by (auto simp: extends_def)
  have p: "relayed p = fold (relay_value p) (delivered (reader_subject p)) new_subject"
    using True by (simp add: relayed_def relay_ending_def)
  then show ?thesis
    using vs assms(2) same_kind_relay [OF k] by (simp add: relayed_def [of q] fold_relay_stopped relay_ending_stopped)
next
  case False
  with assms(1) same_kind_relay [of p q] show ?thesis by (simp add: extends_def relayed_def)
qed

text \<open>While the source is read the output mirrors the parser, and it stops exactly when the output ends.\<close>

definition mirrors :: "http_state \<Rightarrow> bool" where
  "mirrors st \<longleftrightarrow> h_subject st = relayed (h_parser st) \<and> (h_reading st \<longleftrightarrow> ending (h_subject st) = Live)"

lemma advance_mirrors:
  assumes "mirrors st" and "h_reading st" and "extends (h_parser st) p"
  shows "mirrors (advance_reader p st)" and "h_parser (advance_reader p st) = p"
proof -
  have live: "ending (relayed (h_parser st)) = Live" using assms(1,2) unfolding mirrors_def by metis
  then have inner: "ending (reader_subject (h_parser st)) = Live" by (rule relayed_live)
  with assms(3) obtain vs where vs: "delivered (reader_subject p) = delivered (reader_subject (h_parser st)) @ vs"
    and k: "same_kind (h_parser st) p" by (auto simp: extends_def)
  have "h_subject st = fold (relay_value p) (delivered (reader_subject (h_parser st))) new_subject"
    using assms(1) inner same_kind_relay [OF k] by (simp add: mirrors_def relayed_def relay_ending_def)
  with vs assms(2) show "mirrors (advance_reader p st)" "h_parser (advance_reader p st) = p"
    by (simp_all add: mirrors_def advance_reader_def Let_def relayed_def)
qed


text \<open>Every step of a parser extends it.\<close>

definition sub_extends :: "('a, 'err) subject \<Rightarrow> ('a, 'err) subject \<Rightarrow> bool" where
  "sub_extends s t \<longleftrightarrow> (if ending s = Live then \<exists>vs. delivered t = delivered s @ vs else t = s)"

lemma sub_extends_refl: "sub_extends s s"
  by (simp add: sub_extends_def)

lemma sub_extends_trans: "sub_extends s t \<Longrightarrow> sub_extends t u \<Longrightarrow> sub_extends s u"
  by (auto simp: sub_extends_def split: if_splits)

lemma sub_extends_steps: "sub_extends s (sub_next v s)" "sub_extends s (sub_error err s)" "sub_extends s (sub_complete s)"
  by (simp_all add: sub_extends_def)

lemma proto_loop_extends: "sub_extends (p_subject st) (p_subject (proto_loop decode st))"
proof (induction decode st rule: proto_loop.induct)
  case (1 decode st)
  show ?case
  proof (cases "length (p_buffer st) < 4 + unat (getUint32 (p_buffer st)) \<or> MAX_BUFFER_SIZE < 4 + unat (getUint32 (p_buffer st))")
    case True
    then show ?thesis by (subst proto_loop.simps) (auto simp: Let_def sub_extends_refl sub_extends_steps)
  next
    case False
    then have neg: "\<not> length (p_buffer st) < 4" "\<not> MAX_BUFFER_SIZE < 4 + unat (getUint32 (p_buffer st))"
      "\<not> length (p_buffer st) < 4 + unat (getUint32 (p_buffer st))" by auto
    have step: "proto_loop decode st = (case decode (take (unat (getUint32 (p_buffer st))) (drop 4 (p_buffer st))) of
        Decoded event \<Rightarrow> proto_loop decode (st\<lparr>p_subject := sub_next event (p_subject st),
          p_buffer := drop (4 + unat (getUint32 (p_buffer st))) (p_buffer st)\<rparr>)
      | UnknownEventType \<Rightarrow> proto_loop decode (st\<lparr>p_buffer := drop (4 + unat (getUint32 (p_buffer st))) (p_buffer st)\<rparr>)
      | Undecodable msg \<Rightarrow> st\<lparr>p_failed := True, p_subject := sub_error (DecodeFailed msg) (p_subject st)\<rparr>)"
      by (rule proto_loop_step) (use neg in simp_all)
    show ?thesis
    proof (cases "decode (take (unat (getUint32 (p_buffer st))) (drop 4 (p_buffer st)))")
      case (Decoded event)
      from sub_extends_trans [OF sub_extends_steps(1)] 1(1) [OF refl refl refl neg Decoded] step Decoded show ?thesis
        by simp
    next
      case UnknownEventType
      with 1(2) [OF refl refl refl neg] step show ?thesis by simp
    next
      case (Undecodable msg)
      with step show ?thesis by (simp add: sub_extends_steps)
    qed
  qed
qed

lemma process_extends: "sub_extends (p_subject st) (p_subject (processBuffer decode st))"
  using proto_loop_extends [of st decode] by (simp add: processBuffer_def sub_extends_refl)

lemma processSSE_extends: "sub_extends s (processSSEEvent parse t s)"
  by (simp add: processSSEEvent_def sub_extends_refl sub_extends_steps split: option.split)

lemma fold_processSSE_extends: "sub_extends s (fold (processSSEEvent parse) ts s)"
  by (induction ts arbitrary: s) (auto simp: sub_extends_refl intro: sub_extends_trans [OF processSSE_extends])

lemma extends_iff: "extends p q \<longleftrightarrow> same_kind p q \<and> sub_extends (reader_subject p) (reader_subject q)"
  by (simp add: extends_def sub_extends_def)

lemma sse_next_extends: "sub_extends (s_subject st) (s_subject (sse_next parse event st))"
  using fold_processSSE_extends sub_extends_trans [OF fold_processSSE_extends sub_extends_steps(2)]
  by (auto simp: sse_next_def sse_text_def Let_def sub_extends_refl split: http_event.split option.split prod.split)

lemma proto_next_extends: "sub_extends (p_subject st) (p_subject (proto_next decode event st))"
proof -
  have "sub_extends (p_subject st) (p_subject (processBuffer decode (st\<lparr>p_buffer := b\<rparr>)))" for b
    using process_extends [of "st\<lparr>p_buffer := b\<rparr>" decode] by simp
  then show ?thesis by (simp add: proto_next_def sub_extends_refl split: http_event.split option.split)
qed

lemma reader_extends:
  "extends p (reader_next decode parse event p)" "extends p (reader_error err p)" "extends p (reader_complete decode parse p)"
proof -
  show "extends p (reader_next decode parse event p)"
    using proto_next_extends sse_next_extends by (cases p) (auto simp: extends_iff sub_extends_refl)
  show "extends p (reader_error err p)"
    by (cases p) (simp_all add: extends_iff proto_error_def sse_error_def sub_extends_refl sub_extends_steps)
  show "extends p (reader_complete decode parse p)"
    using sub_extends_trans [OF process_extends sub_extends_steps(2)] sub_extends_trans [OF process_extends sub_extends_steps(3)]
      process_extends sub_extends_trans [OF processSSE_extends sub_extends_steps(3)]
    by (cases p) (auto simp: extends_iff proto_complete_def sse_complete_def Let_def sub_extends_refl sub_extends_steps)
qed

lemma mirrors_initial: "mirrors initial_http"
  by (simp add: mirrors_def initial_http_def relayed_def relay_ending_def new_subject_def)

text \<open>Along any source: a reader that failed before it had a parser has no parser any more to mirror.\<close>

definition no_headers :: "http_state \<Rightarrow> bool" where
  "no_headers st \<longleftrightarrow> \<not> h_reading st \<and> ending (h_subject st) \<noteq> Live"

lemma next_mirrors: "mirrors st \<Longrightarrow> mirrors (http_next decode parse event st) \<or> no_headers (http_next decode parse event st)"
proof (cases "h_reading st \<and> h_parser st \<noteq> NoParser")
  case True
  assume m: "mirrors st"
  from True advance_mirrors(1) [OF m _ reader_extends(1)] show ?thesis by (simp add: http_next_def)
next
  case False
  assume m: "mirrors st"
  show ?thesis
  proof (cases "h_reading st")
    case True
    with False have "h_parser st = NoParser" by simp
    with m True show ?thesis
      by (auto simp: http_next_def no_headers_def fail_stream_def mirrors_def relayed_def relay_ending_def initial_proto_def
          initial_sse_def new_subject_def split: http_event.split)
  qed (use m in \<open>simp add: http_next_def\<close>)
qed

lemma feed_stopped: "\<not> h_reading st \<Longrightarrow> http_feed decode parse events st = st"
  by (induction events) (simp_all add: http_next_def)

lemma feed_mirrors: "mirrors st \<or> no_headers st \<Longrightarrow>
    mirrors (http_feed decode parse events st) \<or> no_headers (http_feed decode parse events st)"
proof (induction events arbitrary: st)
  case (Cons e es)
  have "mirrors (http_next decode parse e st) \<or> no_headers (http_next decode parse e st)"
  proof (cases "h_reading st")
    case False
    then have "http_next decode parse e st = st" by (simp add: http_next_def)
    with Cons.prems show ?thesis by simp
  next
    case True
    with Cons.prems next_mirrors show ?thesis by (auto simp: no_headers_def)
  qed
  with Cons.IH show ?case by simp
qed simp

definition run_reader :: "(byte list \<Rightarrow> js decoding) \<Rightarrow> (text16 \<Rightarrow> js option) \<Rightarrow> http_event list \<Rightarrow> reader \<Rightarrow> reader" where
  "run_reader decode parse events p = reader_complete decode parse (fold (reader_next decode parse) events p)"

lemma kind_next: "p \<noteq> NoParser \<Longrightarrow> reader_next decode parse event p \<noteq> NoParser"
  by (cases p) simp_all

lemma extends_trans: "extends p q \<Longrightarrow> extends q r \<Longrightarrow> extends p r"
  by (cases p; cases q; cases r) (auto simp: extends_iff intro: sub_extends_trans)

lemma fold_reader_extends: "extends p (fold (reader_next decode parse) events p)"
proof (induction events arbitrary: p)
  case Nil
  show ?case by (cases p) (simp_all add: extends_iff sub_extends_refl)
qed (simp, blast intro: extends_trans reader_extends)

lemma run_reader_extends: "extends p (run_reader decode parse events p)"
  unfolding run_reader_def by (rule extends_trans [OF fold_reader_extends reader_extends(3)])

text \<open>The output of a completed source is what its parser delivered on its own, relayed.\<close>

lemma http_output:
  assumes "mirrors st" and "h_parser st \<noteq> NoParser"
  shows "h_subject (http_complete decode parse (http_feed decode parse events st)) =
    relayed (run_reader decode parse events (h_parser st))"
  using assms
proof (induction events arbitrary: st)
  case Nil
  show ?case
  proof (cases "h_reading st")
    case True
    with advance_mirrors [OF Nil(1) True reader_extends(3)] show ?thesis
      by (simp add: http_complete_def run_reader_def mirrors_def)
  next
    case False
    with Nil(1) have "relayed (run_reader decode parse [] (h_parser st)) = relayed (h_parser st)"
      by (intro relayed_extends [OF run_reader_extends]) (auto simp: mirrors_def)
    with False Nil(1) show ?thesis by (simp add: http_complete_def mirrors_def)
  qed
next
  case (Cons e es)
  show ?case
  proof (cases "h_reading st")
    case True
    let ?st = "advance_reader (reader_next decode parse e (h_parser st)) st"
    have "http_next decode parse e st = ?st" using True Cons.prems by (simp add: http_next_def)
    with Cons.IH [of ?st] advance_mirrors [OF Cons.prems(1) True reader_extends(1)] kind_next [OF Cons.prems(2)]
    show ?thesis by (simp add: run_reader_def)
  next
    case False
    with Cons.prems(1) have "relayed (run_reader decode parse (e # es) (h_parser st)) = relayed (h_parser st)"
      by (intro relayed_extends [OF run_reader_extends]) (auto simp: mirrors_def)
    with False Cons.prems(1) feed_stopped [of st decode parse "e # es"] show ?thesis by (simp add: http_complete_def mirrors_def)
  qed
qed

lemma headers_state:
  "http_next decode parse (HEADERS status headers) initial_http =
     initial_http\<lparr>h_parser := (if headers ''content-type'' = Some AGUI_MEDIA_TYPE then ProtoParser initial_proto else SseParser initial_sse)\<rparr>"
  by (simp add: http_next_def initial_http_def)

lemma headers_mirrors: "mirrors (http_next decode parse (HEADERS status headers) initial_http)"
  using next_mirrors [OF mirrors_initial, of decode parse "HEADERS status headers"]
  unfolding headers_state by (auto simp: no_headers_def initial_http_def)

definition body :: "byte list list \<Rightarrow> http_event list" where
  "body chunks = map (\<lambda>c. DATA (Some c)) chunks"

lemma run_reader_proto: "run_reader decode parse (body chunks) (ProtoParser p) = ProtoParser (proto_run decode chunks p)"
proof -
  have "fold (reader_next decode parse) es (ProtoParser p) = ProtoParser (fold (proto_next decode) es p)" for es p
    by (induction es arbitrary: p) simp_all
  then show ?thesis by (simp add: run_reader_def body_def proto_run_def)
qed

lemma run_reader_sse: "run_reader decode parse (body chunks) (SseParser p) = SseParser (sse_run parse chunks p)"
proof -
  have "fold (reader_next decode parse) es (SseParser p) = SseParser (fold (sse_next parse) es p)" for es p
    by (induction es arbitrary: p) simp_all
  then show ?thesis by (simp add: run_reader_def body_def sse_run_def)
qed

lemma deliver_new:
  fixes s :: "('a, 'err) subject"
  assumes "s = sub_complete (fold sub_next vs new_subject)"
  shows "ending s = Completed \<and> delivered s = vs"
  using deliver_all [of "new_subject :: ('a, 'err) subject" vs] assms by (simp add: new_subject_def)

lemma relayed_proto: "ending (p_subject p) = Completed \<Longrightarrow> ending (relayed (ProtoParser p)) = Completed \<and>
    delivered (relayed (ProtoParser p)) = delivered (p_subject p)"
proof -
  have "fold (relay_value (ProtoParser p)) vs = fold sub_next vs" for vs by (induction vs) auto
  then show "ending (p_subject p) = Completed \<Longrightarrow> ?thesis"
    using deliver_new [OF refl, of "delivered (p_subject p)"] by (simp add: relayed_def relay_ending_def)
qed

definition framed_event :: "js \<Rightarrow> bool" where
  "framed_event v \<longleftrightarrow> (\<exists>t. jprop v ''type'' = JStr t \<and> t \<noteq> [])"

lemma relayed_sse:
  assumes "ending (s_subject p) = Completed" and "list_all framed_event (delivered (s_subject p))"
  shows "ending (relayed (SseParser p)) = Completed \<and> delivered (relayed (SseParser p)) = delivered (s_subject p)"
proof -
  have "framed_event v \<Longrightarrow> frame_checked v s = sub_next v s" for v s
    by (cases v) (auto simp: framed_event_def frame_checked_def)
  then have "list_all framed_event vs \<Longrightarrow> fold (relay_value (SseParser p)) vs s = fold sub_next vs s" for vs s
    by (induction vs arbitrary: s) simp_all
  with assms deliver_new [OF refl, of "delivered (s_subject p)"] show ?thesis by (simp add: relayed_def relay_ending_def)
qed

subsection \<open>Bounded buffers\<close>

fun buffered :: "reader \<Rightarrow> nat" where
  "buffered NoParser = 0"
| "buffered (ProtoParser p) = length (p_buffer p)"
| "buffered (SseParser p) = length (s_buffer p)"

fun bounded_reader :: "reader \<Rightarrow> bool" where
  "bounded_reader NoParser = True"
| "bounded_reader (ProtoParser p) = (waiting p \<and> length (p_buffer p) < MAX_BUFFER_SIZE)"
| "bounded_reader (SseParser p) = (length (s_buffer p) \<le> MAX_BUFFER_SIZE)"

lemma bounded_next:
  assumes "bounded_reader p" and "ending (reader_subject (reader_next decode parse event p)) = Live"
  shows "bounded_reader (reader_next decode parse event p)"
proof (cases p)
  case (ProtoParser q)
  have "bounded_reader (ProtoParser (proto_next decode (DATA (Some b)) q))"
    if "ending (p_subject (proto_next decode (DATA (Some b)) q)) = Live" for b
  proof -
    have w: "waiting (q\<lparr>p_buffer := p_buffer q @ b\<rparr>)" using assms(1) ProtoParser by (simp add: waiting_def)
    then have eq: "proto_next decode (DATA (Some b)) q = proto_loop decode (q\<lparr>p_buffer := p_buffer q @ b\<rparr>)"
      by (simp add: proto_next_def processBuffer_def waiting_def)
    with proto_loop_outcome [OF w, of decode] that show ?thesis by simp
  qed
  with assms ProtoParser show ?thesis
    by (cases event) (auto simp: proto_next_def split: option.splits)
next
  case (SseParser q)
  with assms show ?thesis
    by (auto simp: sse_next_def sse_text_def Let_def split: http_event.splits option.splits prod.splits if_splits)
qed simp

lemma next_bounded:
  assumes "h_reading st \<Longrightarrow> bounded_reader (h_parser st)" and "mirrors st \<or> no_headers st"
    and "h_reading (http_next decode parse event st)"
  shows "bounded_reader (h_parser (http_next decode parse event st))"
proof -
  have r: "h_reading st" using assms(3) by (auto simp: http_next_def split: if_splits)
  then have m: "mirrors st" using assms(2) by (simp add: no_headers_def)
  show ?thesis
  proof (cases "h_parser st = NoParser")
    case True
    with r assms(3) show ?thesis
      by (auto simp: http_next_def fail_stream_def waiting_def initial_proto_def initial_sse_def new_subject_def
          MAX_BUFFER_SIZE_def split: http_event.splits)
  next
    case False
    let ?p = "reader_next decode parse event (h_parser st)"
    have nx: "http_next decode parse event st = advance_reader ?p st" using r False by (simp add: http_next_def)
    note adv = advance_mirrors [OF m r reader_extends(1) [of _ decode parse event]]
    have "ending (relayed ?p) = Live" using adv assms(3) unfolding nx mirrors_def by metis
    then show ?thesis using bounded_next [OF assms(1) [OF r] relayed_live] adv(2) nx by simp
  qed
qed

lemma feed_bounded:
  "(h_reading st \<Longrightarrow> bounded_reader (h_parser st)) \<Longrightarrow> mirrors st \<or> no_headers st \<Longrightarrow>
     h_reading (http_feed decode parse events st) \<Longrightarrow> bounded_reader (h_parser (http_feed decode parse events st))"
proof (induction events arbitrary: st)
  case (Cons e es)
  have "mirrors (http_next decode parse e st) \<or> no_headers (http_next decode parse e st)"
    using feed_mirrors [OF Cons.prems(2), of decode parse "[e]"] by simp
  with Cons.IH [of "http_next decode parse e st"] next_bounded [OF Cons.prems(1,2)] Cons.prems(3) show ?case by simp
qed simp

subsection \<open>Settling\<close>

lemma proto_complete_ends: "p_failed p \<longrightarrow> ending (p_subject p) \<noteq> Live \<Longrightarrow> ending (p_subject (proto_complete decode p)) \<noteq> Live"
proof -
  assume f: "p_failed p \<longrightarrow> ending (p_subject p) \<noteq> Live"
  have "p_failed (processBuffer decode p) \<Longrightarrow> ending (p_subject (processBuffer decode p)) \<noteq> Live"
  proof (cases "p_failed p \<or> ending (p_subject p) \<noteq> Live")
    case True
    with f show ?thesis by (auto simp: processBuffer_def proto_loop_stopped)
  next
    case False
    assume "p_failed (processBuffer decode p)"
    with False proto_loop_outcome [of p decode] show ?thesis by (auto simp: processBuffer_def waiting_def)
  qed
  then show ?thesis by (auto simp: proto_complete_def Let_def)
qed

fun failed_ended :: "reader \<Rightarrow> bool" where
  "failed_ended (ProtoParser p) = (p_failed p \<longrightarrow> ending (p_subject p) \<noteq> Live)"
| "failed_ended _ = True"

lemma complete_ends: "p \<noteq> NoParser \<Longrightarrow> failed_ended p \<Longrightarrow> ending (reader_subject (reader_complete decode parse p)) \<noteq> Live"
  using proto_complete_ends by (cases p) (auto simp: sse_complete_def Let_def)

lemma error_ends: "p \<noteq> NoParser \<Longrightarrow> ending (reader_subject (reader_error err p)) \<noteq> Live"
  by (cases p) (simp_all add: proto_error_def sse_error_def)

lemma feed_parser: "h_parser st \<noteq> NoParser \<Longrightarrow> mirrors st \<Longrightarrow>
    h_parser (http_feed decode parse events st) \<noteq> NoParser \<and> mirrors (http_feed decode parse events st)"
proof (induction events arbitrary: st)
  case (Cons e es)
  have "h_parser (http_next decode parse e st) \<noteq> NoParser \<and> mirrors (http_next decode parse e st)"
    using Cons.prems advance_mirrors [OF Cons.prems(2) _ reader_extends(1) [of _ decode parse e]] kind_next
    by (cases "h_reading st") (auto simp: http_next_def)
  with Cons.IH show ?case by simp
qed simp


lemma feed_failed_ended:
  "bounded_reader (h_parser st) \<Longrightarrow> h_reading st \<Longrightarrow> mirrors st \<Longrightarrow> h_reading (http_feed decode parse events st) \<Longrightarrow>
     failed_ended (h_parser (http_feed decode parse events st))"
  using feed_bounded [of st decode parse events]
  by (cases "h_parser (http_feed decode parse events st)") (auto simp: waiting_def)

lemma relayed_ends: "ending (reader_subject p) \<noteq> Live \<Longrightarrow> ending (relayed p) \<noteq> Live"
  by (simp add: relayed_def relay_ending_ends)

lemma settled_complete:
  assumes "bounded_reader (h_parser st)" "h_reading st" "mirrors st" "h_parser st \<noteq> NoParser"
  shows "ending (h_subject (http_complete decode parse (http_feed decode parse events st))) \<noteq> Live"
    and "ending (h_subject (http_error err (http_feed decode parse events st))) \<noteq> Live"
proof -
  let ?f = "http_feed decode parse events st"
  note fp = feed_parser [OF assms(4,3), of decode parse events]
  show "ending (h_subject (http_complete decode parse ?f)) \<noteq> Live"
  proof (cases "h_reading ?f")
    case True
    have "failed_ended (h_parser ?f)" by (rule feed_failed_ended [OF assms(1-3) True])
    with complete_ends fp have "ending (reader_subject (reader_complete decode parse (h_parser ?f))) \<noteq> Live" by blast
    then have "ending (relayed (reader_complete decode parse (h_parser ?f))) \<noteq> Live" by (rule relayed_ends)
    moreover have "mirrors (advance_reader (reader_complete decode parse (h_parser ?f)) ?f)"
      "h_parser (advance_reader (reader_complete decode parse (h_parser ?f)) ?f) = reader_complete decode parse (h_parser ?f)"
      using advance_mirrors [OF _ True reader_extends(3)] fp by blast+
    ultimately show ?thesis using True unfolding http_complete_def mirrors_def by (metis (full_types))
  next
    case False
    then have "ending (h_subject ?f) \<noteq> Live" using fp unfolding mirrors_def by blast
    with False show ?thesis by (simp add: http_complete_def)
  qed
  show "ending (h_subject (http_error err ?f)) \<noteq> Live"
  proof (cases "h_reading ?f")
    case False
    then have "ending (h_subject ?f) \<noteq> Live" using fp unfolding mirrors_def by blast
    with False show ?thesis by (simp add: http_error_def)
  qed (simp add: http_error_def fail_stream_def)
qed

subsection \<open>Properties\<close>

text \<open>The binary format from the bytes up, shared with the codec.\<close>

lemma binary_stream_delivered:
  assumes "headers ''content-type'' = Some (getContentType True)"
    and "concat chunks = concat (map (encodeBinary True encode stringify) events)"
    and "\<And>e. e \<in> set events \<Longrightarrow> 4 + length (encode e) \<le> MAX_BUFFER_SIZE"
    and "\<And>e m. e \<in> set events \<Longrightarrow> decode (encode e) \<noteq> Undecodable m"
    and "s = h_subject (http_complete decode parse (http_feed decode parse (HEADERS status headers # body chunks) initial_http))"
  shows "ending s = Completed \<and> delivered s = concat (map (\<lambda>e. decoded_of (decode (encode e))) events)"
proof -
  let ?st = "http_next decode parse (HEADERS status headers) initial_http"
  have p: "h_parser ?st = ProtoParser initial_proto" using assms(1) by (simp add: headers_state getContentType_def)
  have s: "s = relayed (ProtoParser (proto_run decode chunks initial_proto))"
    using http_output [OF headers_mirrors, of decode parse status headers decode parse "body chunks"] p
    by (simp add: assms(5) run_reader_proto)
  let ?vs = "concat (map (\<lambda>e. decoded_of (decode (encode e))) events)"
  have w: "waiting (initial_proto :: js proto_state)" by (simp add: waiting_def initial_proto_def new_subject_def)
  have "concat chunks = concat (map (encodeProtobuf encode) events)" using assms(2) by (simp add: encodeBinary_def cong: map_cong)
  then have loop: "proto_loop decode (initial_proto\<lparr>p_buffer := p_buffer initial_proto @ concat chunks\<rparr>) =
      initial_proto\<lparr>p_subject := fold sub_next ?vs new_subject, p_buffer := []\<rparr>"
    using proto_loop_frames [of events encode decode initial_proto] assms(3,4) by (simp add: initial_proto_def)
  have run: "p_subject (proto_run decode chunks initial_proto) =
      p_subject (proto_complete decode (initial_proto\<lparr>p_subject := fold sub_next ?vs new_subject, p_buffer := []\<rparr>))"
    using proto_chunks [OF w, of decode chunks] unfolding loop .
  also have "\<dots> = sub_complete (fold sub_next ?vs new_subject)"
    by (simp add: proto_complete_def processBuffer_def initial_proto_def proto_loop.simps)
  finally have out: "p_subject (proto_run decode chunks initial_proto) = sub_complete (fold sub_next ?vs new_subject)" .
  from deliver_new [OF this] relayed_proto [of "proto_run decode chunks initial_proto"] s show ?thesis by simp
qed

text \<open>
  C6. Whatever chunks the transport delivers, the client receives exactly the events the encoder
  framed for the binary format: however the bytes of the frames are cut, the events decoded from
  the messages arrive in order, a message of an unknown kind is skipped, and the stream completes.
  Encoding and decoding of one message are arbitrary functions; no message may be larger than the
  limit or undecodable.
\<close>

theorem binary_events_arrive:
  assumes "headers ''content-type'' = Some (getContentType True)"
    and "concat chunks = concat (map (encodeBinary True encode stringify) events)"
    and "\<And>e. e \<in> set events \<Longrightarrow> 4 + length (encode e) \<le> MAX_BUFFER_SIZE"
    and "\<And>e m. e \<in> set events \<Longrightarrow> decode (encode e) \<noteq> Undecodable m"
    and "s = h_subject (http_complete decode parse (http_feed decode parse (HEADERS status headers # body chunks) initial_http))"
  shows "ending s = Completed \<and> delivered s = concat (map (\<lambda>e. decoded_of (decode (encode e))) events)"
  by (rule binary_stream_delivered [OF assms])

text \<open>The text format from the bytes up, shared with the agent behind HTTP.\<close>

lemma text_stream_delivered:
  assumes "headers ''content-type'' = Some (getContentType False)"
    and "concat chunks = concat (map (encodeBinary False encode stringify) events)"
    and "\<And>e. e \<in> set events \<Longrightarrow> well_formed (stringify (omitOptionalNulls e ''Event''))
      \<and> newline \<notin> set (stringify (omitOptionalNulls e ''Event''))
      \<and> parse (stringify (omitOptionalNulls e ''Event'')) = Some (omitOptionalNulls e ''Event'')
      \<and> 6 + length (stringify (omitOptionalNulls e ''Event'')) < MAX_BUFFER_SIZE"
    and "\<And>e. e \<in> set events \<Longrightarrow> framed_event (omitOptionalNulls e ''Event'')"
    and "s = h_subject (http_complete decode parse (http_feed decode parse (HEADERS status headers # body chunks) initial_http))"
  shows "ending s = Completed \<and> delivered s = map (\<lambda>e. omitOptionalNulls e ''Event'') events"
proof -
  let ?st = "http_next decode parse (HEADERS status headers) initial_http"
  let ?g = "\<lambda>e. stringify (omitOptionalNulls e ''Event'')" and ?vs = "map (\<lambda>e. omitOptionalNulls e ''Event'') events"
  let ?T = "concat (map (encodeSSE stringify) events)"
  have p: "h_parser ?st = SseParser initial_sse"
    using assms(1) by (simp add: headers_state getContentType_def AGUI_MEDIA_TYPE_def)
  have s: "s = relayed (SseParser (sse_run parse chunks initial_sse))"
    using http_output [OF headers_mirrors, of decode parse status headers decode parse "body chunks"] p
    by (simp add: assms(5) run_reader_sse)
  have wf: "well_formed (encodeSSE stringify e)" if "e \<in> set events" for e
    using assms(3) that by (intro well_formed_encodeSSE) blast
  have bytes: "concat chunks = encoder_encode ?T" "well_formed ?T"
    using encode_all [of events "encodeSSE stringify"] wf assms(2) by (simp_all add: encodeBinary_def cong: map_cong)
  have hd: "?T = [] \<or> hd ?T \<noteq> 0xFEFF" by (cases events) (simp_all add: encodeSSE_def units_def)
  have dec: "decoder_decode (concat chunks) initial_utf8 = (?T, initial_utf8\<lparr>u_started := (?T \<noteq> [])\<rparr>)"
    unfolding bytes(1) by (rule decode_encode [OF bytes(2) hd])
  have frames: "split_frames ?T = map (\<lambda>e. units ''data: '' @ ?g e) events @ [[]]"
    using assms(3) by (intro split_encoded) blast
  have len: "length (units ''data: '') = 6" by (simp add: units_def)
  have "\<forall>f \<in> set (split_frames ?T). length f < MAX_BUFFER_SIZE"
    using assms(3) len by (auto simp: frames MAX_BUFFER_SIZE_def)
  with sse_chunks [of "[]" chunks initial_utf8 parse] dec
  have fed: "fold (sse_next parse) (map (\<lambda>c. DATA (Some c)) chunks) initial_sse = sse_after parse ?T (initial_utf8\<lparr>u_started := (?T \<noteq> [])\<rparr>)"
    by (simp add: sse_after_initial [of parse])
  have "fold (processSSEEvent parse) (map (\<lambda>e. units ''data: '' @ ?g e) events) new_subject = fold sub_next ?vs new_subject"
    using assms(3) process_all [of events ?g parse "\<lambda>e. omitOptionalNulls e ''Event''" new_subject] by blast
  then have out: "s_subject (sse_run parse chunks initial_sse) = sub_complete (fold sub_next ?vs new_subject)"
    by (simp add: sse_run_def fed sse_complete_def sse_after_def frames)
  have all: "list_all framed_event ?vs" using assms(4) by (simp add: list_all_iff)
  from deliver_new [OF out] relayed_sse [of "sse_run parse chunks initial_sse"] all s show ?thesis by simp
qed

text \<open>
  C7. The same for the text format, from the bytes up: whatever chunks the UTF-8 bytes of the
  encoder's \<open>data:\<close> lines arrive in, also in the middle of a character, the client
  receives exactly the events, without their optional nulls, in order, and the stream completes.
  \<open>JSON.stringify\<close> and \<open>JSON.parse\<close> are arbitrary functions that do what they are
  documented to do for these events: the text is well formed, has no line break and parses back.
\<close>

theorem text_events_arrive:
  assumes "headers ''content-type'' = Some (getContentType False)"
    and "concat chunks = concat (map (encodeBinary False encode stringify) events)"
    and "\<And>e. e \<in> set events \<Longrightarrow> well_formed (stringify (omitOptionalNulls e ''Event''))
      \<and> newline \<notin> set (stringify (omitOptionalNulls e ''Event''))
      \<and> parse (stringify (omitOptionalNulls e ''Event'')) = Some (omitOptionalNulls e ''Event'')
      \<and> 6 + length (stringify (omitOptionalNulls e ''Event'')) < MAX_BUFFER_SIZE"
    and "\<And>e. e \<in> set events \<Longrightarrow> framed_event (omitOptionalNulls e ''Event'')"
    and "s = h_subject (http_complete decode parse (http_feed decode parse (HEADERS status headers # body chunks) initial_http))"
  shows "ending s = Completed \<and> delivered s = map (\<lambda>e. omitOptionalNulls e ''Event'') events"
  by (rule text_stream_delivered [OF assms])

text \<open>
  The memory of the transport reader is bounded: as long as the source is read, whatever it
  sends and in whatever chunks, the reader holds at most \<open>MAX_BUFFER_SIZE\<close> bytes, or
  characters, between two chunks; it releases a source that would need more.
\<close>

theorem transport_buffer_bounded:
  assumes "h_reading (http_feed decode parse events initial_http)"
  shows "buffered (h_parser (http_feed decode parse events initial_http)) \<le> MAX_BUFFER_SIZE"
proof -
  have "bounded_reader (h_parser (http_feed decode parse events initial_http))"
    using assms mirrors_initial by (intro feed_bounded) (auto simp: initial_http_def)
  then show ?thesis by (cases "h_parser (http_feed decode parse events initial_http)") simp_all
qed

text \<open>
  A run never hangs on its transport: once the response headers have arrived, the output has
  ended when the source completes or fails, whatever bytes came in between.
\<close>

lemma transport_settles:
  "ending (h_subject (http_complete decode parse
     (http_feed decode parse (HEADERS status headers # events) initial_http))) \<noteq> Live \<and>
   ending (h_subject (http_error err
     (http_feed decode parse (HEADERS status headers # events) initial_http))) \<noteq> Live"
proof -
  let ?st = "http_next decode parse (HEADERS status headers) initial_http"
  have "bounded_reader (h_parser ?st)" "h_reading ?st" "h_parser ?st \<noteq> NoParser"
    unfolding headers_state
    by (simp_all add: initial_http_def waiting_def initial_proto_def initial_sse_def new_subject_def MAX_BUFFER_SIZE_def)
  from settled_complete [OF this(1,2) headers_mirrors this(3)] show ?thesis by simp
qed

definition demo_headers :: "bool \<Rightarrow> string \<Rightarrow> string option" where
  "demo_headers binary k = (if k = ''content-type'' then Some (getContentType binary) else None)"

fun demo_encode :: "js \<Rightarrow> byte list" where
  "demo_encode (JNum n) = [word_of_int n, 0]"
| "demo_encode v = []"

fun demo_decode :: "byte list \<Rightarrow> js decoding" where
  "demo_decode [b, c] = Decoded (JNum (uint b))"
| "demo_decode bs = UnknownEventType"

theorem binary_events_arrive_witness:
  "delivered (h_subject (http_complete demo_decode (\<lambda>t. None)
     (http_feed demo_decode (\<lambda>t. None)
        (HEADERS 200 (demo_headers True) # body [[0, 0], [0, 2, 7, 0, 0], [0, 0, 0, 0, 0], [0, 2, 9], [0]]) initial_http))) =
   [JNum 7, JNum 9]"
proof -
  let ?evs = "[JNum 7, JNull, JNum 9]"
  have h: "demo_headers True ''content-type'' = Some (getContentType True)" by (simp add: demo_headers_def)
  have c: "concat [[0, 0], [0, 2, 7, 0, 0], [0, 0, 0, 0, 0], [0, 2, 9], [0]] =
      concat (map (encodeBinary True demo_encode (\<lambda>v. [])) ?evs)"
    by code_simp
  have l: "\<And>e. e \<in> set ?evs \<Longrightarrow> 4 + length (demo_encode e) \<le> MAX_BUFFER_SIZE" by (auto simp: MAX_BUFFER_SIZE_def)
  have d: "\<And>e m. e \<in> set ?evs \<Longrightarrow> demo_decode (demo_encode e) \<noteq> Undecodable m" by auto
  show ?thesis
    using binary_events_arrive [of "demo_headers True" "[[0, 0], [0, 2, 7, 0, 0], [0, 0, 0, 0, 0], [0, 2, 9], [0]]"
      demo_encode "\<lambda>v. []" ?evs demo_decode, OF h c _ _ refl, of "\<lambda>t. None" 200] l d
    by simp
qed

definition demo_stringify :: "js \<Rightarrow> text16" where
  "demo_stringify v = (case jprop v ''message'' of JStr s \<Rightarrow> units s | _ \<Rightarrow> [])"

definition demo_json :: "text16 \<Rightarrow> js option" where
  "demo_json t = Some (JObj [(''type'', JStr ''RUN_ERROR''), (''message'', JStr (map char_of t))])"

definition demo_error :: js where
  "demo_error = JObj [(''type'', JStr ''RUN_ERROR''), (''message'', JStr [char_of (233 :: nat)]), (''code'', JNull)]"

theorem text_events_arrive_witness:
  "delivered (h_subject (http_complete demo_decode demo_json
     (http_feed demo_decode demo_json
        (HEADERS 200 (demo_headers False) # body [[100, 97, 116, 97, 58, 32, 195], [169, 10], [10]]) initial_http))) =
   [JObj [(''type'', JStr ''RUN_ERROR''), (''message'', JStr [char_of (233 :: nat)])]]"
proof -
  have h: "demo_headers False ''content-type'' = Some (getContentType False)" by (simp add: demo_headers_def)
  have o: "omitOptionalNulls demo_error ''Event'' = JObj [(''type'', JStr ''RUN_ERROR''), (''message'', JStr [char_of (233 :: nat)])]"
    by code_simp
  have g: "demo_stringify (omitOptionalNulls demo_error ''Event'') = [233]"
    unfolding o by (simp add: demo_stringify_def units_def)
  have c: "concat [[100, 97, 116, 97, 58, 32, 195], [169, 10], [10]] =
      concat (map (encodeBinary False demo_encode demo_stringify) [demo_error])"
    by (simp add: encodeBinary_def encodeSSE_def g encoder_encode_def units_def utf8_bytes_def
        high_surrogate_def low_surrogate_def)
  have p: "well_formed [233]" "newline \<notin> set [233]" "6 + length [233 :: nat] < MAX_BUFFER_SIZE"
    "demo_json [233] = Some (omitOptionalNulls demo_error ''Event'')"
    unfolding o by (simp_all add: high_surrogate_def low_surrogate_def MAX_BUFFER_SIZE_def demo_json_def)
  have f: "framed_event (omitOptionalNulls demo_error ''Event'')" unfolding o by (simp add: framed_event_def)
  show ?thesis
    using text_events_arrive [of "demo_headers False" "[[100, 97, 116, 97, 58, 32, 195], [169, 10], [10]]"
      demo_encode demo_stringify "[demo_error]" demo_json, OF h c _ _ refl, of demo_decode 200] g p f o
    by simp
qed

theorem transport_buffer_bounded_witness:
  "buffered (h_parser (http_feed demo_decode demo_json
     [HEADERS 200 (demo_headers True), DATA (Some [0, 0, 0]), DATA None] initial_http)) \<le> MAX_BUFFER_SIZE"
proof (rule transport_buffer_bounded)
  let ?st = "http_next demo_decode demo_json (HEADERS 200 (demo_headers True)) initial_http"
  have st: "?st = initial_http\<lparr>h_parser := ProtoParser initial_proto\<rparr>"
    by (simp add: headers_state demo_headers_def getContentType_def)
  have d: "http_next demo_decode demo_json (DATA (Some [0, 0, 0])) ?st =
      initial_http\<lparr>h_parser := ProtoParser (initial_proto\<lparr>p_buffer := [0, 0, 0]\<rparr>)\<rparr>"
    unfolding st by code_simp
  have "http_next demo_decode demo_json (DATA None) (http_next demo_decode demo_json (DATA (Some [0, 0, 0])) ?st) =
      initial_http\<lparr>h_parser := ProtoParser (initial_proto\<lparr>p_buffer := [0, 0, 0]\<rparr>)\<rparr>"
    unfolding d by code_simp
  then show "h_reading (http_feed demo_decode demo_json
      [HEADERS 200 (demo_headers True), DATA (Some [0, 0, 0]), DATA None] initial_http)"
    by (simp add: initial_http_def)
qed

text \<open>
  A stream with the line ends \<open>\r\n\<close>, which the SSE standard allows, is not split into
  events: both frames are handed to \<open>JSON.parse\<close> as one text.
\<close>

lemma crlf_frames_merge:
  "data_lines (units ''data: 1'' @ [13, 10, 13, 10] @ units ''data: 2'' @ [13, 10, 13, 10]) = [units ''1'' @ [13], units ''2'' @ [13]]"
  "split_frames (units ''data: 1'' @ [13, 10, 13, 10] @ units ''data: 2'' @ [13, 10, 13, 10]) =
     [units ''data: 1'' @ [13, 10, 13, 10] @ units ''data: 2'' @ [13, 10, 13, 10]]"
  by code_simp+

end
