(* ===== verification/AGUI_Middleware.thy ===== *)
theory AGUI_Middleware
  imports AGUI_Chunks "HOL-Library.Sublist"
begin

section \<open>Middleware\<close>

text \<open>
  The middleware of \<^verbatim>\<open>client/src/middleware\<close>: the tool-call filter
  (\<^verbatim>\<open>filter-tool-calls.ts\<close>), the shims for old peers
  (\<^verbatim>\<open>backward-compatibility-0-0-39.ts\<close>, \<^verbatim>\<open>-45.ts\<close>, \<^verbatim>\<open>-57.ts\<close>), the
  upgrade of legacy attachments (\<^verbatim>\<open>legacy-content.ts\<close>), the compatibility boundary
  (\<^verbatim>\<open>compatibility-boundary.ts\<close>) and the chain \<open>runAgent\<close> builds out of them
  (\<^verbatim>\<open>agent.ts\<close>).

  \<^item> An observable is the list of its events and the error it ended with, if it did. A middleware
    is a function of the run input and of the agent it wraps; \<open>runNext\<close> expands chunks first.
  \<^item> \<open>randomUUID()\<close> is a parameter: the sequence of identifiers the library hands out.
  \<^item> Identifiers are compared as values; the sources compare them with \<open>===\<close>, which differs
    only for identifiers that are objects.
  \<^item> Console warnings are left out, except the boundary's, whose once-per-run rule is state.
\<close>

subsection \<open>Streams and agents\<close>

datatype run_error =
    ChunkFailed chunk_error
  | ReadOfNull
  | SourceFailed string

type_synonym outcome = "event list \<times> run_error option"

type_synonym agent_run = "jobj \<Rightarrow> outcome"

text \<open>\<open>source.pipe(operator)\<close>: the operator sees what the source emitted, then how it ended.\<close>

definition piped :: "('s, 'a, 'err, 'b) stage \<Rightarrow> 's \<Rightarrow> 'a list \<times> 'err option \<Rightarrow> 'b list \<times> 'err option" where
  "piped f s source =
     (emitted f s (fst source), case failure f s (fst source) of Some err \<Rightarrow> Some err | None \<Rightarrow> snd source)"

definition expanding :: "(chunk_state, event, run_error, event) stage" where
  "expanding st e = map_sum ChunkFailed id (chunk_event st e)"

definition runNext :: "jobj \<Rightarrow> agent_run \<Rightarrow> outcome" where
  "runNext input next_agent = piped expanding initial_chunk_state (next_agent input)"

text \<open>\<open>map\<close> with a callback that may throw.\<close>

fun traverse :: "('a \<Rightarrow> 'e + 'b) \<Rightarrow> 'a list \<Rightarrow> 'e + 'b list" where
  "traverse f [] = Inr []"
| "traverse f (x # xs) =
     (case f x of Inl err \<Rightarrow> Inl err
      | Inr y \<Rightarrow> (case traverse f xs of Inl err \<Rightarrow> Inl err | Inr ys \<Rightarrow> Inr (y # ys)))"

subsection \<open>Filtering tool calls\<close>

record tool_filter =
  allowedTools :: "string list option"
  disallowedTools :: "string list option"

datatype filter_error = BothLists | NoList

definition FilterToolCallsMiddleware ::
    "string list option \<Rightarrow> string list option \<Rightarrow> filter_error + tool_filter" where
  "FilterToolCallsMiddleware allowed disallowed =
     (if allowed \<noteq> None \<and> disallowed \<noteq> None then Inl BothLists
      else if allowed = None \<and> disallowed = None then Inl NoList
      else if allowed \<noteq> None then Inr \<lparr>allowedTools = allowed, disallowedTools = None\<rparr>
      else Inr \<lparr>allowedTools = None, disallowedTools = disallowed\<rparr>)"

fun in_names :: "js \<Rightarrow> string list \<Rightarrow> bool" where
  "in_names (JStr s) names = (s \<in> set names)"
| "in_names _ names = False"

definition shouldFilterTool :: "tool_filter \<Rightarrow> js \<Rightarrow> bool" where
  "shouldFilterTool config toolName =
     (case allowedTools config of
        Some names \<Rightarrow> \<not> in_names toolName names
      | None \<Rightarrow> (case disallowedTools config of Some names \<Rightarrow> in_names toolName names | None \<Rightarrow> False))"

definition filter_event :: "tool_filter \<Rightarrow> (js list, event, run_error, event) stage" where
  "filter_event config blockedToolCallIds e =
     (let t = etype e; toolCallId = attr e ''toolCallId'' in
      if t = RUN_STARTED then Inr ([e], [])
      else if t = TOOL_CALL_START then
        (if shouldFilterTool config (attr e ''toolCallName'') then Inr ([], sadd toolCallId blockedToolCallIds)
         else Inr ([e], blockedToolCallIds))
      else if t = TOOL_CALL_ARGS \<or> t = TOOL_CALL_END then
        Inr (if toolCallId \<in> set blockedToolCallIds then [] else [e], blockedToolCallIds)
      else if t = TOOL_CALL_RESULT then
        (if toolCallId \<in> set blockedToolCallIds then Inr ([], sdel toolCallId blockedToolCallIds)
         else Inr ([e], blockedToolCallIds))
      else Inr ([e], blockedToolCallIds))"

definition filter_run :: "tool_filter \<Rightarrow> jobj \<Rightarrow> agent_run \<Rightarrow> outcome" where
  "filter_run config input next_agent = piped (filter_event config) [] (runNext input next_agent)"

subsection \<open>Peers up to 0.0.57: no subagents\<close>

fun stripSubagentRunId :: "js \<Rightarrow> js" where
  "stripSubagentRunId (JObj obj) = JObj (odel ''subagentRunId'' obj)"
| "stripSubagentRunId v = v"

definition stripMessages :: "js list \<Rightarrow> js list" where
  "stripMessages = map stripSubagentRunId"

text \<open>\<open>{ ...o, k: stripMessages(o.k) }\<close> when \<open>o.k\<close> is an array.\<close>

definition strip_entries :: "string \<Rightarrow> jobj \<Rightarrow> jobj" where
  "strip_entries k obj =
     (case oget obj k of JArr ms \<Rightarrow> oset k (JArr (stripMessages ms)) obj | _ \<Rightarrow> obj)"

definition strip_entries_in :: "string \<Rightarrow> string \<Rightarrow> jobj \<Rightarrow> jobj" where
  "strip_entries_in field k obj =
     (case oget obj field of
        JObj inner \<Rightarrow> (if is_array (oget inner k) then oset field (JObj (strip_entries k inner)) obj else obj)
      | _ \<Rightarrow> obj)"

definition pre_subagent_event :: "(unit, event, run_error, event) stage" where
  "pre_subagent_event st e =
     (if etype e \<in> {SUBAGENT_STARTED, SUBAGENT_FINISHED, SUBAGENT_ERROR} then Inr ([], st)
      else let stripped = without_prop ''subagentRunId'' e; obj = props stripped in
        if etype stripped = MESSAGES_SNAPSHOT then
          Inr ([Event (etype stripped) (strip_entries ''messages'' obj)], st)
        else if etype stripped = RUN_FINISHED then
          Inr ([Event (etype stripped) (strip_entries_in ''outcome'' ''interrupts'' obj)], st)
        else if etype stripped = RUN_STARTED then
          Inr ([Event (etype stripped) (strip_entries_in ''input'' ''messages'' obj)], st)
        else Inr ([stripped], st))"

definition pre_subagent_input :: "jobj \<Rightarrow> jobj" where
  "pre_subagent_input input =
     oset ''messages'' (JArr (map stripSubagentRunId (elements (oget input ''messages'')))) input"

definition BackwardCompatibility_0_0_57 :: "jobj \<Rightarrow> agent_run \<Rightarrow> outcome" where
  "BackwardCompatibility_0_0_57 input next_agent =
     piped pre_subagent_event () (runNext (pre_subagent_input input) next_agent)"

subsection \<open>Peers up to 0.0.39: text content only\<close>

definition isTextPart :: "js \<Rightarrow> bool" where
  "isTextPart part \<longleftrightarrow> jprop part ''type'' = JStr ''text''"

definition isText :: "js \<Rightarrow> bool" where
  "isText part \<longleftrightarrow> isTextPart part \<and> is_string (jprop part ''text'')"

fun text_of_string :: "js \<Rightarrow> string" where
  "text_of_string (JStr s) = s"
| "text_of_string _ = []"

text \<open>A message as it comes in; \<open>rawContent\<close> of a message that is not an object cannot be read.\<close>

definition sanitizeMessageContent :: "js \<Rightarrow> run_error + js" where
  "sanitizeMessageContent message =
     (if nullish message then Inl ReadOfNull
      else case jprop message ''content'' of
        JArr parts \<Rightarrow>
          (if \<exists>part \<in> set parts. isTextPart part \<and> \<not> isText part then Inr message
           else Inr (JObj (oset ''content''
             (JStr (concat (map (\<lambda>part. text_of_string (jprop part ''text'')) (filter isText parts))))
             (fields_of message))))
      | JUndef \<Rightarrow> Inr (JObj (oset ''content'' (JStr []) (fields_of message)))
      | _ \<Rightarrow> Inr message)"

definition text_only_input :: "jobj \<Rightarrow> run_error + jobj" where
  "text_only_input input =
     (case traverse sanitizeMessageContent (elements (oget input ''messages'')) of
        Inl err \<Rightarrow> Inl err
      | Inr ms \<Rightarrow> Inr (oset ''messages'' (JArr ms) (odel ''parentRunId'' input)))"

definition BackwardCompatibility_0_0_39 :: "jobj \<Rightarrow> agent_run \<Rightarrow> outcome" where
  "BackwardCompatibility_0_0_39 input next_agent =
     (case text_only_input input of
        Inl err \<Rightarrow> ([], Some err)
      | Inr sanitizedInput \<Rightarrow> runNext sanitizedInput next_agent)"

subsection \<open>Legacy attachments\<close>

definition mimeTypeToContentType :: "string \<Rightarrow> string" where
  "mimeTypeToContentType mimeType =
     (if take 6 mimeType = ''image/'' then ''image''
      else if take 6 mimeType = ''audio/'' then ''audio''
      else if take 6 mimeType = ''video/'' then ''video''
      else ''document'')"

definition isLegacyBinaryContent :: "js \<Rightarrow> bool" where
  "isLegacyBinaryContent part \<longleftrightarrow>
     jprop part ''type'' = JStr ''binary'' \<and> is_string (jprop part ''mimeType'')"

text \<open>The part with its bytes or its address as a source; \<open>None\<close> when it only has an id.\<close>

definition media_part :: "js \<Rightarrow> string \<Rightarrow> js \<Rightarrow> js" where
  "media_part binary kind v =
     JObj ([(''type'', JStr (mimeTypeToContentType (text_of_string (jprop binary ''mimeType'')))),
            (''source'', JObj [(''type'', JStr kind), (''value'', v), (''mimeType'', jprop binary ''mimeType'')])] @
           (if truthy (jprop binary ''filename'')
            then [(''metadata'', JObj [(''filename'', jprop binary ''filename'')])] else []))"

definition convertBinaryToNewFormat :: "js \<Rightarrow> js option" where
  "convertBinaryToNewFormat binary =
     (if truthy (jprop binary ''data'') then Some (media_part binary ''data'' (jprop binary ''data''))
      else if truthy (jprop binary ''url'') then Some (media_part binary ''url'' (jprop binary ''url''))
      else None)"

fun js_has :: "js \<Rightarrow> string \<Rightarrow> bool" where
  "js_has (JObj obj) k = has_own obj k"
| "js_has _ k = False"

definition matchesModernPart :: "js \<Rightarrow> js \<Rightarrow> js \<Rightarrow> bool" where
  "matchesModernPart part converted filename \<longleftrightarrow>
     js_has part ''type'' \<and> jprop part ''type'' = jprop converted ''type'' \<and> js_has part ''source'' \<and>
     (let source = jprop part ''source''; source' = jprop converted ''source'' in
       (\<forall>k \<in> {''type'', ''value'', ''mimeType''}. js_has source k \<and> jprop source k = jprop source' k)) \<and>
     (\<not> truthy filename \<or>
      js_has (jprop part ''metadata'') ''filename'' \<and> jprop (jprop part ''metadata'') ''filename'' = filename)"

definition upgrade_part :: "js list \<Rightarrow> js \<Rightarrow> js list" where
  "upgrade_part rawContent part =
     (if isLegacyBinaryContent part then
        (case convertBinaryToNewFormat part of
           None \<Rightarrow> [part]
         | Some converted \<Rightarrow>
             (if \<exists>other \<in> set rawContent. matchesModernPart other converted (jprop part ''filename'')
              then [] else [converted]))
      else [part])"

definition upgradeMessageContent :: "js \<Rightarrow> run_error + js" where
  "upgradeMessageContent message =
     (if nullish message then Inl ReadOfNull
      else case jprop message ''content'' of
        JArr rawContent \<Rightarrow>
          Inr (JObj (oset ''content'' (JArr (concat (map (upgrade_part rawContent) rawContent))) (fields_of message)))
      | _ \<Rightarrow> Inr message)"

subsection \<open>The compatibility boundary\<close>

text \<open>
  What the boundary reports: an optional null read as absent (at most once per location and run), a
  retired shape, a title that has no place in the new shape, an identifier invented for a
  continuation without an opener.
\<close>

datatype notice =
    NullRead string
  | Converted string
  | TitleDropped js
  | IdMinted string string

record boundary_state =
  currentReasoningId :: "string option"
  currentMessageId :: "string option"
  nullsNoticedThisRun :: "string list"
  minted :: nat
  notices :: "notice list"

definition initial_boundary :: boundary_state where
  "initial_boundary =
     \<lparr>currentReasoningId = None, currentMessageId = None, nullsNoticedThisRun = [], minted = 0, notices = []\<rparr>"

definition noticeNullOncePerRun :: "string \<Rightarrow> boundary_state \<Rightarrow> boundary_state" where
  "noticeNullOncePerRun what st =
     (if what \<in> set (nullsNoticedThisRun st) then st
      else st\<lparr>nullsNoticedThisRun := nullsNoticedThisRun st @ [what], notices := notices st @ [NullRead what]\<rparr>)"

definition warn :: "notice \<Rightarrow> boundary_state \<Rightarrow> boundary_state" where
  "warn n st = st\<lparr>notices := notices st @ [n]\<rparr>"

text \<open>The table of optional nulls, its event-type rows apart.\<close>

definition EVENT_OPTIONAL_NULLS :: "string list" where
  "EVENT_OPTIONAL_NULLS = [''rawEvent'', ''subagentRunId'']"

fun EVENT_TYPE_OPTIONAL_NULLS :: "event_type \<Rightarrow> (string \<times> string list) option" where
  "EVENT_TYPE_OPTIONAL_NULLS RUN_STARTED = Some (''RUN_STARTED'', [''parentRunId'', ''input''])"
| "EVENT_TYPE_OPTIONAL_NULLS RUN_FINISHED = Some (''RUN_FINISHED'', [''result'', ''outcome''])"
| "EVENT_TYPE_OPTIONAL_NULLS RUN_ERROR = Some (''RUN_ERROR'', [''usage''])"
| "EVENT_TYPE_OPTIONAL_NULLS SUBAGENT_FINISHED = Some (''SUBAGENT_FINISHED'', [''result''])"
| "EVENT_TYPE_OPTIONAL_NULLS TOOL_CALL_START = Some (''TOOL_CALL_START'', [''parentMessageId''])"
| "EVENT_TYPE_OPTIONAL_NULLS TOOL_CALL_CHUNK = Some (''TOOL_CALL_CHUNK'', [''parentMessageId''])"
| "EVENT_TYPE_OPTIONAL_NULLS TOOL_CALL_RESULT = Some (''TOOL_CALL_RESULT'', [''role''])"
| "EVENT_TYPE_OPTIONAL_NULLS _ = None"

definition OUTCOME_OPTIONAL_NULLS :: "string list" where
  "OUTCOME_OPTIONAL_NULLS = [''pendingToolCallIds'']"

definition USAGE_OPTIONAL_NULLS :: "string list" where
  "USAGE_OPTIONAL_NULLS = [''provider'', ''reasoningTokens'', ''cachedInputTokens'', ''cacheWriteInputTokens'']"

text \<open>Values with the labels of the nulls that were read as absent.\<close>

definition null_fields :: "string list \<Rightarrow> jobj \<Rightarrow> string list" where
  "null_fields names obj = filter (\<lambda>f. oget obj f = JNull) names"

definition omit_null_fields :: "string list \<Rightarrow> jobj \<Rightarrow> jobj" where
  "omit_null_fields names obj = fold odel (null_fields names obj) obj"

fun omitNulls :: "string list \<Rightarrow> string \<Rightarrow> js \<Rightarrow> js \<times> string list" where
  "omitNulls names label (JObj obj) =
     (JObj (omit_null_fields names obj), map (\<lambda>f. label @ f @ '': null'') (null_fields names obj))"
| "omitNulls names label v = (v, [])"

definition mapProtocolArray :: "string \<Rightarrow> (js \<Rightarrow> js \<times> string list) \<Rightarrow> js \<Rightarrow> js \<times> string list" where
  "mapProtocolArray field convert v =
     (case v of
        JObj obj \<Rightarrow>
          (case oget obj field of
             JArr original \<Rightarrow>
               let entries = map (fst \<circ> convert) original in
               (if entries \<noteq> original then JObj (oset field (JArr entries) obj) else v,
                concat (map (snd \<circ> convert) original))
           | _ \<Rightarrow> (v, []))
      | _ \<Rightarrow> (v, []))"

definition MEDIA_TYPES :: "string list" where
  "MEDIA_TYPES = [''image'', ''audio'', ''video'', ''document'']"

definition normalize_part :: "js \<Rightarrow> js \<times> string list" where
  "normalize_part part =
     (case jprop part ''type'' of
        JStr t \<Rightarrow> (if t \<in> set MEDIA_TYPES then omitNulls [''metadata''] (t @ '' input content.'') part else (part, []))
      | _ \<Rightarrow> (part, []))"

definition normalizeLegacyMessageNulls :: "js \<Rightarrow> js \<times> string list" where
  "normalizeLegacyMessageNulls = mapProtocolArray ''content'' normalize_part"

definition then_labels :: "(js \<Rightarrow> js \<times> string list) \<Rightarrow> js \<times> string list \<Rightarrow> js \<times> string list" where
  "then_labels f r = (fst (f (fst r)), snd r @ snd (f (fst r)))"

definition normalizeLegacyRunAgentInput :: "js \<Rightarrow> js \<times> string list" where
  "normalizeLegacyRunAgentInput input =
     then_labels (mapProtocolArray ''messages'' normalizeLegacyMessageNulls)
      (then_labels (mapProtocolArray ''resume'' (omitNulls [''payload''] ''ResumeEntry.''))
        (then_labels (mapProtocolArray ''tools'' (omitNulls [''parameters''] ''Tool.''))
          (omitNulls [''forwardedProps''] ''RunAgentInput.'' input)))"

text \<open>\<open>upgradeInboundMessage\<close>, and its \<open>map\<close> over a message list, with the boundary's state.\<close>

definition is_legacy_binary :: "js \<Rightarrow> bool" where
  "is_legacy_binary part \<longleftrightarrow> jprop part ''type'' = JStr ''binary''"

definition upgradeInboundMessage :: "boundary_state \<Rightarrow> js \<Rightarrow> run_error + js \<times> boundary_state" where
  "upgradeInboundMessage st message =
     (let (message', labels) = normalizeLegacyMessageNulls message; st' = fold noticeNullOncePerRun labels st in
      if nullish message' then Inl ReadOfNull
      else case jprop message' ''content'' of
        JArr content \<Rightarrow>
          (if \<exists>part \<in> set content. is_legacy_binary part
           then map_sum id (\<lambda>m. (m, warn (Converted ''binary input content'') st')) (upgradeMessageContent message')
           else Inr (message', st'))
      | _ \<Rightarrow> Inr (message', st'))"

fun upgrade_messages :: "boundary_state \<Rightarrow> js list \<Rightarrow> run_error + js list \<times> boundary_state" where
  "upgrade_messages st [] = Inr ([], st)"
| "upgrade_messages st (m # ms) =
     (case upgradeInboundMessage st m of Inl err \<Rightarrow> Inl err
      | Inr (m', st') \<Rightarrow>
          (case upgrade_messages st' ms of Inl err \<Rightarrow> Inl err | Inr (ms', st'') \<Rightarrow> Inr (m' # ms', st'')))"

text \<open>\<open>{ ...event, type, messageId }\<close> and the identifier of a continuation.\<close>

definition retyped :: "event_type \<Rightarrow> string \<Rightarrow> jobj \<Rightarrow> event" where
  "retyped t messageId obj = Event t (oset ''messageId'' (JStr messageId) obj)"

definition fresh_id :: "(nat \<Rightarrow> string) \<Rightarrow> boundary_state \<Rightarrow> string \<times> boundary_state" where
  "fresh_id uuid st = (uuid (minted st), st\<lparr>minted := Suc (minted st)\<rparr>)"

definition mintedContinuationId ::
    "(nat \<Rightarrow> string) \<Rightarrow> string \<Rightarrow> string option \<Rightarrow> boundary_state \<Rightarrow> string \<times> boundary_state" where
  "mintedContinuationId uuid from_type established st =
     (case established of
        Some messageId \<Rightarrow> (messageId, st)
      | None \<Rightarrow> let (messageId, st') = fresh_id uuid st in (messageId, warn (IdMinted from_type messageId) st'))"

text \<open>The arms of the switch.\<close>

definition thinking_start :: "(nat \<Rightarrow> string) \<Rightarrow> event \<Rightarrow> boundary_state \<Rightarrow> event \<times> boundary_state" where
  "thinking_start uuid e st =
     (let (messageId, st1) = fresh_id uuid st;
          st2 = warn (Converted ''THINKING_START'') (st1\<lparr>currentReasoningId := Some messageId\<rparr>);
          title = attr e ''title'';
          st3 = (if title = JUndef then st2 else warn (TitleDropped title) st2) in
      (retyped REASONING_START messageId (odel ''title'' (props e)), st3))"

definition thinking_text_message_start ::
    "(nat \<Rightarrow> string) \<Rightarrow> event \<Rightarrow> boundary_state \<Rightarrow> event \<times> boundary_state" where
  "thinking_text_message_start uuid e st =
     (let (messageId, st1) = fresh_id uuid st in
      (with_prop ''role'' (JStr ''reasoning'') (retyped REASONING_MESSAGE_START messageId (props e)),
       warn (Converted ''THINKING_TEXT_MESSAGE_START'') (st1\<lparr>currentMessageId := Some messageId\<rparr>)))"

definition thinking_text_message_content ::
    "(nat \<Rightarrow> string) \<Rightarrow> event \<Rightarrow> boundary_state \<Rightarrow> event \<times> boundary_state" where
  "thinking_text_message_content uuid e st =
     (let st1 = warn (Converted ''THINKING_TEXT_MESSAGE_CONTENT'') st;
          (messageId, st2) = mintedContinuationId uuid ''THINKING_TEXT_MESSAGE_CONTENT'' (currentMessageId st1) st1 in
      (with_prop ''delta'' (attr e ''delta'')
         (retyped REASONING_MESSAGE_CONTENT messageId (odel ''delta'' (props e))), st2))"

definition thinking_text_message_end ::
    "(nat \<Rightarrow> string) \<Rightarrow> event \<Rightarrow> boundary_state \<Rightarrow> event \<times> boundary_state" where
  "thinking_text_message_end uuid e st =
     (let (messageId, st1) = mintedContinuationId uuid ''THINKING_TEXT_MESSAGE_END'' (currentMessageId st) st in
      (retyped REASONING_MESSAGE_END messageId (props e),
       warn (Converted ''THINKING_TEXT_MESSAGE_END'') (st1\<lparr>currentMessageId := None\<rparr>)))"

definition thinking_end :: "(nat \<Rightarrow> string) \<Rightarrow> event \<Rightarrow> boundary_state \<Rightarrow> event \<times> boundary_state" where
  "thinking_end uuid e st =
     (let (messageId, st1) = mintedContinuationId uuid ''THINKING_END'' (currentReasoningId st) st in
      (retyped REASONING_END messageId (props e),
       warn (Converted ''THINKING_END'') (st1\<lparr>currentReasoningId := None\<rparr>)))"

text \<open>A value transformed in place: \<open>v' === v ? o : { ...o, k: v' }\<close>.\<close>

definition replaced :: "string \<Rightarrow> js \<Rightarrow> jobj \<Rightarrow> jobj" where
  "replaced k v obj = (if v = oget obj k then obj else oset k v obj)"

definition boundary_run_finished :: "event \<Rightarrow> boundary_state \<Rightarrow> event \<times> boundary_state" where
  "boundary_run_finished e st =
     (let (outcome, labels) = omitNulls OUTCOME_OPTIONAL_NULLS ''RUN_FINISHED.outcome.'' (attr e ''outcome'');
          (normalized, labels') = mapProtocolArray ''usage'' (omitNulls USAGE_OPTIONAL_NULLS ''RUN_FINISHED.usage[].'')
            (JObj (replaced ''outcome'' outcome (props e))) in
      (Event (etype e) (fields_of normalized), fold noticeNullOncePerRun (labels @ labels') st))"

definition boundary_messages_snapshot :: "event \<Rightarrow> boundary_state \<Rightarrow> run_error + event \<times> boundary_state" where
  "boundary_messages_snapshot e st =
     (case attr e ''messages'' of
        JArr ms \<Rightarrow> map_sum id (\<lambda>(ms', st'). (with_prop ''messages'' (JArr ms') e, st')) (upgrade_messages st ms)
      | _ \<Rightarrow> Inr (e, st))"

definition boundary_run_started :: "event \<Rightarrow> boundary_state \<Rightarrow> run_error + event \<times> boundary_state" where
  "boundary_run_started e st =
     (let (input, labels) = normalizeLegacyRunAgentInput (attr e ''input'');
          st' = fold noticeNullOncePerRun labels st;
          normalized = Event (etype e) (replaced ''input'' input (props e)) in
      case jprop (attr normalized ''input'') ''messages'' of
        JArr ms \<Rightarrow>
          map_sum id (\<lambda>(ms', st''). (with_prop ''input''
            (JObj (oset ''messages'' (JArr ms') (fields_of (attr normalized ''input'')))) normalized, st''))
            (upgrade_messages st' ms)
      | _ \<Rightarrow> Inr (normalized, st'))"

text \<open>Whole optional nulls first, so that the translations see the normalized event.\<close>

definition boundary_nulls :: "event \<Rightarrow> event \<times> string list" where
  "boundary_nulls e =
     (let (v, labels) = omitNulls EVENT_OPTIONAL_NULLS [] (JObj (props e)) in
      case EVENT_TYPE_OPTIONAL_NULLS (etype e) of
        None \<Rightarrow> (Event (etype e) (fields_of v), labels)
      | Some (t, typeFields) \<Rightarrow>
          (let (v', labels') = omitNulls typeFields (t @ ''.'') v in
           (Event (etype e) (fields_of v'), labels @ labels')))"

definition boundary_switch ::
    "(nat \<Rightarrow> string) \<Rightarrow> event \<Rightarrow> boundary_state \<Rightarrow> run_error + event \<times> boundary_state" where
  "boundary_switch uuid e st =
     (case etype e of
        OTHER_TYPE t \<Rightarrow>
          Inr (if t = ''THINKING_START'' then thinking_start uuid e st
            else if t = ''THINKING_TEXT_MESSAGE_START'' then thinking_text_message_start uuid e st
            else if t = ''THINKING_TEXT_MESSAGE_CONTENT'' then thinking_text_message_content uuid e st
            else if t = ''THINKING_TEXT_MESSAGE_END'' then thinking_text_message_end uuid e st
            else if t = ''THINKING_END'' then thinking_end uuid e st
            else (e, st))
      | RUN_FINISHED \<Rightarrow> Inr (boundary_run_finished e st)
      | MESSAGES_SNAPSHOT \<Rightarrow> boundary_messages_snapshot e st
      | RUN_STARTED \<Rightarrow> boundary_run_started e st
      | _ \<Rightarrow> Inr (e, st))"

definition boundary_event :: "(nat \<Rightarrow> string) \<Rightarrow> (boundary_state, event, run_error, event) stage" where
  "boundary_event uuid st e =
     (let st' = (if etype e = RUN_STARTED then st\<lparr>nullsNoticedThisRun := []\<rparr> else st);
          (e', labels) = boundary_nulls e in
      map_sum id (\<lambda>(e'', st''). ([e''], st'')) (boundary_switch uuid e' (fold noticeNullOncePerRun labels st')))"

text \<open>
  As a middleware the boundary reads the raw stream, chunks included; it upgrades the outgoing
  messages first.
\<close>

definition CompatibilityBoundary :: "(nat \<Rightarrow> string) \<Rightarrow> jobj \<Rightarrow> agent_run \<Rightarrow> outcome" where
  "CompatibilityBoundary uuid input next_agent =
     (case traverse upgradeMessageContent (elements (oget input ''messages'')) of
        Inl err \<Rightarrow> ([], Some err)
      | Inr ms \<Rightarrow> piped (boundary_event uuid) initial_boundary (next_agent (oset ''messages'' (JArr ms) input)))"

definition compatibilityBoundaryOperator :: "(nat \<Rightarrow> string) \<Rightarrow> outcome \<Rightarrow> outcome" where
  "compatibilityBoundaryOperator uuid = piped (boundary_event uuid) initial_boundary"

subsection \<open>Peers up to 0.0.45: thinking becomes reasoning\<close>

text \<open>The same state machine as the boundary's, on the expanded stream and without its notices.\<close>

record thinking_state =
  reasoning_id :: "string option"
  message_id :: "string option"
  uuids_used :: nat

definition initial_thinking :: thinking_state where
  "initial_thinking = \<lparr>reasoning_id = None, message_id = None, uuids_used = 0\<rparr>"

definition id_or_fresh :: "(nat \<Rightarrow> string) \<Rightarrow> string option \<Rightarrow> thinking_state \<Rightarrow> string \<times> thinking_state" where
  "id_or_fresh uuid established st =
     (case established of
        Some messageId \<Rightarrow> (messageId, st)
      | None \<Rightarrow> (uuid (uuids_used st), st\<lparr>uuids_used := Suc (uuids_used st)\<rparr>))"

definition pre_reasoning_event :: "(nat \<Rightarrow> string) \<Rightarrow> (thinking_state, event, run_error, event) stage" where
  "pre_reasoning_event uuid st e =
     (if etype e = OTHER_TYPE ''THINKING_START'' then
        (let (messageId, st') = id_or_fresh uuid None st in
         Inr ([retyped REASONING_START messageId (odel ''title'' (props e))], st'\<lparr>reasoning_id := Some messageId\<rparr>))
      else if etype e = OTHER_TYPE ''THINKING_TEXT_MESSAGE_START'' then
        (let (messageId, st') = id_or_fresh uuid None st in
         Inr ([with_prop ''role'' (JStr ''reasoning'') (retyped REASONING_MESSAGE_START messageId (props e))],
              st'\<lparr>message_id := Some messageId\<rparr>))
      else if etype e = OTHER_TYPE ''THINKING_TEXT_MESSAGE_CONTENT'' then
        (let (messageId, st') = id_or_fresh uuid (message_id st) st in
         Inr ([with_prop ''delta'' (attr e ''delta'')
                 (retyped REASONING_MESSAGE_CONTENT messageId (odel ''delta'' (props e)))], st'))
      else if etype e = OTHER_TYPE ''THINKING_TEXT_MESSAGE_END'' then
        (let (messageId, st') = id_or_fresh uuid (message_id st) st in
         Inr ([retyped REASONING_MESSAGE_END messageId (props e)], st'))
      else if etype e = OTHER_TYPE ''THINKING_END'' then
        (let (messageId, st') = id_or_fresh uuid (reasoning_id st) st in
         Inr ([retyped REASONING_END messageId (props e)], st'))
      else Inr ([e], st))"

definition BackwardCompatibility_0_0_45 :: "(nat \<Rightarrow> string) \<Rightarrow> jobj \<Rightarrow> agent_run \<Rightarrow> outcome" where
  "BackwardCompatibility_0_0_45 uuid input next_agent =
     piped (pre_reasoning_event uuid) initial_thinking (runNext input next_agent)"

subsection \<open>The chain\<close>

datatype middleware =
    BackwardCompat39
  | BackwardCompat45
  | BackwardCompat57
  | FilterToolCalls tool_filter
  | Boundary
  | FunctionMiddleware "jobj \<Rightarrow> agent_run \<Rightarrow> outcome"

fun run_middleware :: "(nat \<Rightarrow> string) \<Rightarrow> middleware \<Rightarrow> jobj \<Rightarrow> agent_run \<Rightarrow> outcome" where
  "run_middleware uuid BackwardCompat39 = BackwardCompatibility_0_0_39"
| "run_middleware uuid BackwardCompat45 = BackwardCompatibility_0_0_45 uuid"
| "run_middleware uuid BackwardCompat57 = BackwardCompatibility_0_0_57"
| "run_middleware uuid (FilterToolCalls config) = filter_run config"
| "run_middleware uuid Boundary = CompatibilityBoundary uuid"
| "run_middleware uuid (FunctionMiddleware fn) = fn"

text \<open>
  The shims the constructor installs for a peer whose ceiling is an old version; \<open>compareVersions\<close>
  is a library function. Each call of \<open>unshift\<close> puts its shim in front.
\<close>

definition peer_shims :: "(string \<Rightarrow> string \<Rightarrow> int) \<Rightarrow> string \<Rightarrow> middleware list" where
  "peer_shims compareVersions peerCeiling =
     (if compareVersions peerCeiling ''0.0.57'' \<le> 0 then [BackwardCompat57] else []) @
     (if compareVersions peerCeiling ''0.0.45'' \<le> 0 then [BackwardCompat45] else []) @
     (if compareVersions peerCeiling ''0.0.39'' \<le> 0 then [BackwardCompat39] else [])"

text \<open>The \<open>reduceRight\<close> of \<open>runAgent\<close>; the \<open>n\<close>-th middleware draws identifiers of its own.\<close>

fun chain_from :: "(nat \<Rightarrow> nat \<Rightarrow> string) \<Rightarrow> nat \<Rightarrow> middleware list \<Rightarrow> agent_run \<Rightarrow> agent_run" where
  "chain_from uuid n [] agent = agent"
| "chain_from uuid n (mw # mws) agent =
     (\<lambda>input. run_middleware (uuid n) mw input (chain_from uuid (Suc n) mws agent))"

definition chainedAgent :: "(nat \<Rightarrow> nat \<Rightarrow> string) \<Rightarrow> middleware list \<Rightarrow> agent_run \<Rightarrow> agent_run" where
  "chainedAgent uuid middlewares agent = chain_from uuid 0 (middlewares @ [Boundary]) agent"

subsection \<open>Laws of stages\<close>

lemma piped_total:
  assumes "\<And>st x. \<exists>r. f st x = Inr r"
  shows "accepts f st xs"
proof (induction xs arbitrary: st)
  case (Cons x xs)
  with assms [of st x] show ?case by (auto simp: accepts_Cons)
qed simp

lemma emitted_snoc:
  assumes "accepts f st xs" and "f (final_state f st xs) x = Inr (ys, st')"
  shows "emitted f st (xs @ [x]) = emitted f st xs @ ys" "final_state f st (xs @ [x]) = st'"
  using assms by (simp_all add: emitted_append final_state_append)

text \<open>A stage that emits only values with a property.\<close>

lemma emitted_only:
  assumes "\<And>st x ys st' y. f st x = Inr (ys, st') \<Longrightarrow> y \<in> set ys \<Longrightarrow> P y"
  shows "\<forall>y \<in> set (emitted f st xs). P y"
proof (induction xs arbitrary: st)
  case (Cons x xs)
  show ?case
  proof (cases "f st x")
    case (Inr r)
    obtain ys st' where "f st x = Inr (ys, st')" using Inr by (cases r) auto
    with Cons.IH [of st'] assms show ?thesis by auto
  qed simp
qed simp

lemma traverse_Inr: "traverse f xs = Inr ys \<Longrightarrow> list_all2 (\<lambda>x y. f x = Inr y) xs ys"
  by (induction xs arbitrary: ys) (auto split: sum.splits)

text \<open>Expansion inside the chain: no middleware after \<open>runNext\<close> sees a chunk.\<close>

lemma expanding_Inr: "expanding st e = Inr r \<longleftrightarrow> chunk_event st e = Inr r"
  by (cases "chunk_event st e") (simp_all add: expanding_def)

lemma emitted_expanding: "emitted expanding st es = emitted chunk_event st es"
proof (induction es arbitrary: st)
  case (Cons e es)
  show ?case
  proof (cases "chunk_event st e")
    case (Inl err)
    then have "expanding st e = Inl (ChunkFailed err)" by (simp add: expanding_def)
    with Inl show ?thesis by simp
  next
    case (Inr r)
    obtain ys st' where r: "chunk_event st e = Inr (ys, st')" using Inr by (cases r) auto
    then have "expanding st e = Inr (ys, st')" by (simp add: expanding_def)
    with r Cons.IH show ?thesis by simp
  qed
qed simp

lemma runNext_no_chunks:
  assumes "e \<in> set (fst (runNext input next_agent))"
  shows "\<not> is_chunk e"
proof -
  have "\<forall>x \<in> set (emitted chunk_event initial_chunk_state es). \<not> is_chunk x" for es
    by (rule expander.emitted_all [OF expansion_no_chunk_step]) simp_all
  with assms show ?thesis by (simp add: runNext_def piped_def emitted_expanding)
qed

subsection \<open>What the filter hides\<close>

text \<open>
  A call is blocked after a prefix of the stream when its start was filtered in the current run and
  its result has not come since.
\<close>

definition blocked_in :: "tool_filter \<Rightarrow> event list \<Rightarrow> js \<Rightarrow> bool" where
  "blocked_in config es toolCallId \<longleftrightarrow>
     (\<exists>before start since. es = before @ start # since \<and> etype start = TOOL_CALL_START \<and>
        attr start ''toolCallId'' = toolCallId \<and> shouldFilterTool config (attr start ''toolCallName'') \<and>
        (\<forall>e \<in> set since. etype e \<noteq> RUN_STARTED \<and>
           \<not> (etype e = TOOL_CALL_RESULT \<and> attr e ''toolCallId'' = toolCallId)))"

definition hidden :: "tool_filter \<Rightarrow> event list \<Rightarrow> event \<Rightarrow> bool" where
  "hidden config es e \<longleftrightarrow>
     (etype e = TOOL_CALL_START \<and> shouldFilterTool config (attr e ''toolCallName'')) \<or>
     (etype e \<in> {TOOL_CALL_ARGS, TOOL_CALL_END, TOOL_CALL_RESULT} \<and> blocked_in config es (attr e ''toolCallId''))"

lemma blocked_in_Nil [simp]: "\<not> blocked_in config [] i"
  by (simp add: blocked_in_def)

definition forgets :: "event \<Rightarrow> js \<Rightarrow> bool" where
  "forgets e i \<longleftrightarrow> etype e = RUN_STARTED \<or> (etype e = TOOL_CALL_RESULT \<and> attr e ''toolCallId'' = i)"

definition blocks :: "tool_filter \<Rightarrow> event \<Rightarrow> js \<Rightarrow> bool" where
  "blocks config e i \<longleftrightarrow> etype e = TOOL_CALL_START \<and> attr e ''toolCallId'' = i \<and>
     shouldFilterTool config (attr e ''toolCallName'')"

lemma blocked_in_snoc:
  "blocked_in config (es @ [e]) i \<longleftrightarrow> blocks config e i \<or> (blocked_in config es i \<and> \<not> forgets e i)"
proof
  assume "blocked_in config (es @ [e]) i"
  then obtain before start since where split: "es @ [e] = before @ start # since"
    and start: "blocks config start i" and since: "\<forall>x \<in> set since. \<not> forgets x i"
    by (auto simp: blocked_in_def blocks_def forgets_def)
  show "blocks config e i \<or> (blocked_in config es i \<and> \<not> forgets e i)"
  proof (cases since rule: rev_cases)
    case Nil
    with split start show ?thesis by simp
  next
    case (snoc since' x)
    with split start since have "es = before @ start # since'" "x = e" by auto
    with snoc start since show ?thesis by (auto simp: blocked_in_def blocks_def forgets_def)
  qed
next
  assume "blocks config e i \<or> (blocked_in config es i \<and> \<not> forgets e i)"
  then show "blocked_in config (es @ [e]) i"
  proof
    assume "blocks config e i"
    then show ?thesis unfolding blocked_in_def blocks_def
      by (intro exI [of _ es] exI [of _ e] exI [of _ "[]"]) auto
  next
    assume b: "blocked_in config es i \<and> \<not> forgets e i"
    then obtain before start since where "es = before @ start # since" "blocks config start i"
      "\<forall>x \<in> set since. \<not> forgets x i" by (auto simp: blocked_in_def blocks_def forgets_def)
    with b show ?thesis unfolding blocked_in_def blocks_def forgets_def
      by (intro exI [of _ before] exI [of _ start] exI [of _ "since @ [e]"]) auto
  qed
qed

lemma filter_step:
  "\<exists>st'. filter_event config st e =
     Inr (if (etype e = TOOL_CALL_START \<and> shouldFilterTool config (attr e ''toolCallName'')) \<or>
            (etype e \<in> {TOOL_CALL_ARGS, TOOL_CALL_END, TOOL_CALL_RESULT} \<and> attr e ''toolCallId'' \<in> set st)
          then [] else [e], st') \<and>
     (\<forall>i. i \<in> set st' \<longleftrightarrow> blocks config e i \<or> (i \<in> set st \<and> \<not> forgets e i))"
  by (auto simp: filter_event_def Let_def blocks_def forgets_def)

lemma filter_accepts: "accepts (filter_event config) st es"
  using filter_step by (intro piped_total) blast

lemma blocked_ids: "i \<in> set (final_state (filter_event config) [] es) \<longleftrightarrow> blocked_in config es i"
proof (induction es rule: rev_induct)
  case (snoc e es)
  from filter_step [of config "final_state (filter_event config) [] es" e] obtain ys st' where
    "filter_event config (final_state (filter_event config) [] es) e = Inr (ys, st')"
    and "\<forall>j. j \<in> set st' \<longleftrightarrow> blocks config e j \<or> (j \<in> set (final_state (filter_event config) [] es) \<and> \<not> forgets e j)"
    by auto
  with emitted_snoc(2) [OF filter_accepts] snoc.IH show ?case by (simp add: blocked_in_snoc)
qed simp

lemma filter_emits:
  "\<forall>x \<in> set (emitted (filter_event config) st es). x \<in> set es \<and>
     \<not> (etype x = TOOL_CALL_START \<and> shouldFilterTool config (attr x ''toolCallName''))"
proof (induction es arbitrary: st)
  case (Cons e es)
  from filter_step [of config st e] obtain ys st' where "filter_event config st e = Inr (ys, st')"
    and "ys = [] \<or> ys = [e] \<and> \<not> (etype e = TOOL_CALL_START \<and> shouldFilterTool config (attr e ''toolCallName''))"
    by (auto split: if_splits)
  with Cons.IH [of st'] show ?case by auto
qed simp


subsection \<open>What an old peer sees of subagents\<close>

abbreviation tagged :: "js \<Rightarrow> bool" where "tagged v \<equiv> js_has v ''subagentRunId''"

definition attributed :: "event \<Rightarrow> bool" where
  "attributed e \<longleftrightarrow>
     etype e \<in> {SUBAGENT_STARTED, SUBAGENT_FINISHED, SUBAGENT_ERROR} \<or> tagged (JObj (props e)) \<or>
     (etype e = MESSAGES_SNAPSHOT \<and> filter tagged (elements (attr e ''messages'')) \<noteq> []) \<or>
     (etype e = RUN_FINISHED \<and> filter tagged (elements (jprop (attr e ''outcome'') ''interrupts'')) \<noteq> []) \<or>
     (etype e = RUN_STARTED \<and> filter tagged (elements (jprop (attr e ''input'') ''messages'')) \<noteq> [])"

lemma strip_untagged: "\<not> tagged (stripSubagentRunId v)" "\<not> tagged v \<Longrightarrow> stripSubagentRunId v = v"
  by (cases v; simp add: odel_absent)+

lemma stripMessages_untagged:
  "filter tagged (stripMessages ms) = []"
  "filter tagged ms = [] \<Longrightarrow> stripMessages ms = ms"
  using strip_untagged(1) by (auto simp: stripMessages_def filter_empty_conv strip_untagged(2) intro: map_idI)

lemma strip_entries_laws:
  "filter tagged (elements (oget (strip_entries k obj) k)) = []"
  "k' \<noteq> k \<Longrightarrow> has_own (strip_entries k obj) k' \<longleftrightarrow> has_own obj k'"
  "filter tagged (elements (oget obj k)) = [] \<Longrightarrow> strip_entries k obj = obj"
proof -
  show "filter tagged (elements (oget (strip_entries k obj) k)) = []"
    by (cases "oget obj k") (simp_all add: strip_entries_def stripMessages_untagged(1))
  show "k' \<noteq> k \<Longrightarrow> has_own (strip_entries k obj) k' \<longleftrightarrow> has_own obj k'"
    by (cases "oget obj k") (simp_all add: strip_entries_def)
  assume "filter tagged (elements (oget obj k)) = []"
  then show "strip_entries k obj = obj"
    by (cases "oget obj k") (simp_all add: strip_entries_def stripMessages_untagged(2) oset_oget)
qed

lemma strip_entries_in_laws:
  "filter tagged (elements (jprop (oget (strip_entries_in field k obj) field) k)) = []"
  "k' \<noteq> field \<Longrightarrow> has_own (strip_entries_in field k obj) k' \<longleftrightarrow> has_own obj k'"
  "filter tagged (elements (jprop (oget obj field) k)) = [] \<Longrightarrow> strip_entries_in field k obj = obj"
proof -
  have not_array: "\<not> is_array v \<Longrightarrow> elements v = []" for v by (cases v) simp_all
  show "filter tagged (elements (jprop (oget (strip_entries_in field k obj) field) k)) = []"
    by (cases "oget obj field") (simp_all add: strip_entries_in_def strip_entries_laws(1) not_array)
  show "k' \<noteq> field \<Longrightarrow> has_own (strip_entries_in field k obj) k' \<longleftrightarrow> has_own obj k'"
    by (cases "oget obj field") (simp_all add: strip_entries_in_def)
  assume "filter tagged (elements (jprop (oget obj field) k)) = []"
  then show "strip_entries_in field k obj = obj"
    by (cases "oget obj field") (simp_all add: strip_entries_in_def strip_entries_laws(3) oset_oget)
qed

lemma pre_subagent_step:
  "\<exists>ys. pre_subagent_event st e = Inr (ys, st) \<and> filter attributed ys = [] \<and>
     map etype ys = (if etype e \<in> {SUBAGENT_STARTED, SUBAGENT_FINISHED, SUBAGENT_ERROR} then [] else [etype e]) \<and>
     (\<not> attributed e \<longrightarrow> ys = [e])"
proof (cases "etype e \<in> {SUBAGENT_STARTED, SUBAGENT_FINISHED, SUBAGENT_ERROR}")
  case True
  then show ?thesis by (auto simp: pre_subagent_event_def attributed_def)
next
  case False
  obtain t obj where e: "e = Event t obj" by (cases e)
  let ?obj = "odel ''subagentRunId'' obj"
  have keep: "\<not> attributed e \<Longrightarrow> ?obj = obj" by (simp add: e attributed_def odel_absent)
  have step: "pre_subagent_event st e = Inr ([Event t (if t = MESSAGES_SNAPSHOT then strip_entries ''messages'' ?obj
      else if t = RUN_FINISHED then strip_entries_in ''outcome'' ''interrupts'' ?obj
      else if t = RUN_STARTED then strip_entries_in ''input'' ''messages'' ?obj else ?obj)], st)"
    using False by (simp add: e pre_subagent_event_def without_prop_def Let_def)
  consider "t = MESSAGES_SNAPSHOT" | "t = RUN_FINISHED" | "t = RUN_STARTED"
    | "t \<notin> {MESSAGES_SNAPSHOT, RUN_FINISHED, RUN_STARTED}" by blast
  then show ?thesis
  proof cases
    case 1
    with step keep show ?thesis by (simp add: e attributed_def strip_entries_laws)
  next
    case 2
    with step keep show ?thesis by (simp add: e attributed_def strip_entries_in_laws)
  next
    case 3
    with step keep show ?thesis by (simp add: e attributed_def strip_entries_in_laws)
  next
    case 4
    with step keep False show ?thesis by (simp add: e attributed_def)
  qed
qed

lemma pre_subagent_run:
  "filter attributed (emitted pre_subagent_event st es) = []"
  "map etype (emitted pre_subagent_event st es) =
     filter (\<lambda>t. t \<notin> {SUBAGENT_STARTED, SUBAGENT_FINISHED, SUBAGENT_ERROR}) (map etype es)"
  "filter attributed es = [] \<Longrightarrow> emitted pre_subagent_event st es = es"
proof (atomize (full), induction es arbitrary: st)
  case (Cons e es)
  from pre_subagent_step [of st e] obtain ys where "pre_subagent_event st e = Inr (ys, st)"
    and "filter attributed ys = []" and "\<not> attributed e \<longrightarrow> ys = [e]"
    and "map etype ys = (if etype e \<in> {SUBAGENT_STARTED, SUBAGENT_FINISHED, SUBAGENT_ERROR} then [] else [etype e])"
    by blast
  with Cons.IH [of st] show ?case by (auto split: if_splits)
qed simp


subsection \<open>Attachments\<close>

definition convertible :: "js \<Rightarrow> bool" where
  "convertible part \<longleftrightarrow> isLegacyBinaryContent part \<and> convertBinaryToNewFormat part \<noteq> None"

text \<open>A part that carries what a legacy attachment held.\<close>

definition carries_attachment :: "js \<Rightarrow> js \<Rightarrow> bool" where
  "carries_attachment binary part \<longleftrightarrow>
     matchesModernPart part (the (convertBinaryToNewFormat binary)) (jprop binary ''filename'')"

lemma content_type_modern: "mimeTypeToContentType m \<noteq> ''binary''"
  by (simp add: mimeTypeToContentType_def)

lemma converted_matches:
  assumes "convertBinaryToNewFormat part = Some converted"
  shows "matchesModernPart converted converted (jprop part ''filename'')" "\<not> isLegacyBinaryContent converted"
  using assms content_type_modern
  by (auto simp: convertBinaryToNewFormat_def media_part_def matchesModernPart_def isLegacyBinaryContent_def
      split: if_splits)

lemma matching_not_legacy:
  assumes "convertBinaryToNewFormat part = Some converted" and "matchesModernPart other converted filename"
  shows "\<not> isLegacyBinaryContent other"
  using assms content_type_modern
  by (auto simp: convertBinaryToNewFormat_def media_part_def matchesModernPart_def isLegacyBinaryContent_def
      split: if_splits)

lemma upgrade_part_kept: "\<not> convertible part \<Longrightarrow> upgrade_part raw part = [part]"
  by (auto simp: upgrade_part_def convertible_def)

lemma upgrade_part_modern: "filter convertible (upgrade_part raw part) = []"
  using converted_matches(2) by (auto simp: upgrade_part_def convertible_def split: option.splits)

lemma upgrade_parts_modern: "filter convertible (concat (map (upgrade_part raw) parts)) = []"
  using upgrade_part_modern by (induction parts) simp_all

lemma upgrade_parts_id: "filter convertible parts = [] \<Longrightarrow> concat (map (upgrade_part raw) parts) = parts"
  by (induction parts) (auto simp: upgrade_part_kept split: if_splits)

lemma upgrade_carries:
  assumes "convertible part" and "part \<in> set raw"
  shows "\<exists>q \<in> set (concat (map (upgrade_part raw) raw)). carries_attachment part q"
proof -
  from assms(1) obtain converted where c: "convertBinaryToNewFormat part = Some converted" and l: "isLegacyBinaryContent part"
    by (auto simp: convertible_def)
  show ?thesis
  proof (cases "\<exists>other \<in> set raw. matchesModernPart other converted (jprop part ''filename'')")
    case True
    then obtain other where o: "other \<in> set raw" "matchesModernPart other converted (jprop part ''filename'')" by blast
    with matching_not_legacy [OF c] have "upgrade_part raw other = [other]" by (simp add: upgrade_part_def)
    with o c show ?thesis by (auto simp: carries_attachment_def intro!: bexI [of _ other])
  next
    case False
    with l c have "upgrade_part raw part = [converted]" by (simp add: upgrade_part_def)
    with assms(2) have "converted \<in> set (concat (map (upgrade_part raw) raw))" by force
    with c converted_matches(1) [OF c] show ?thesis by (auto simp: carries_attachment_def)
  qed
qed

lemma upgrade_keeps_modern: "subseq (filter (\<lambda>p. \<not> convertible p) parts) (concat (map (upgrade_part raw) parts))"
  by (induction parts) (auto simp: upgrade_part_kept)


subsection \<open>What leaves the boundary\<close>

definition no_nulls :: "string list \<Rightarrow> js \<Rightarrow> bool" where
  "no_nulls names v \<longleftrightarrow> null_fields names (fields_of v) = []"

text \<open>Current shapes: no listed null, no attachment in a retired shape, no retired event type.\<close>

definition current_part :: "js \<Rightarrow> bool" where
  "current_part part \<longleftrightarrow> \<not> convertible part \<and>
     (jprop part ''type'' \<in> JStr ` set MEDIA_TYPES \<longrightarrow> no_nulls [''metadata''] part)"

definition current_message :: "js \<Rightarrow> bool" where
  "current_message m \<longleftrightarrow> \<not> nullish m \<and> list_all current_part (elements (jprop m ''content''))"

definition current_input :: "js \<Rightarrow> bool" where
  "current_input v \<longleftrightarrow> no_nulls [''forwardedProps''] v \<and>
     list_all (no_nulls [''parameters'']) (elements (jprop v ''tools'')) \<and>
     list_all (no_nulls [''payload'']) (elements (jprop v ''resume'')) \<and>
     list_all current_message (elements (jprop v ''messages''))"

definition retired_types :: "string list" where
  "retired_types = [''THINKING_START'', ''THINKING_END'', ''THINKING_TEXT_MESSAGE_START'',
     ''THINKING_TEXT_MESSAGE_CONTENT'', ''THINKING_TEXT_MESSAGE_END'']"

definition typed_nulls :: "event_type \<Rightarrow> string list" where
  "typed_nulls t = (case EVENT_TYPE_OPTIONAL_NULLS t of None \<Rightarrow> [] | Some r \<Rightarrow> snd r)"

definition current :: "event \<Rightarrow> bool" where
  "current e \<longleftrightarrow>
     etype e \<notin> OTHER_TYPE ` set retired_types \<and>
     null_fields (EVENT_OPTIONAL_NULLS @ typed_nulls (etype e)) (props e) = [] \<and>
     (etype e = RUN_FINISHED \<longrightarrow> no_nulls OUTCOME_OPTIONAL_NULLS (attr e ''outcome'') \<and>
        list_all (no_nulls USAGE_OPTIONAL_NULLS) (elements (attr e ''usage''))) \<and>
     (etype e = MESSAGES_SNAPSHOT \<longrightarrow> list_all current_message (elements (attr e ''messages''))) \<and>
     (etype e = RUN_STARTED \<longrightarrow> current_input (attr e ''input''))"

lemma oget_fold_odel: "oget (fold odel ks obj) k = (if k \<in> set ks then JUndef else oget obj k)"
  by (induction ks arbitrary: obj) auto

lemma oget_omitted: "oget (omit_null_fields names obj) k = (if k \<in> set names \<and> oget obj k = JNull then JUndef else oget obj k)"
  by (simp add: omit_null_fields_def oget_fold_odel null_fields_def)

lemma omitted_none: "null_fields names (omit_null_fields names obj) = []"
  by (simp add: null_fields_def [of names "omit_null_fields names obj"] oget_omitted filter_empty_conv)

lemma omit_none: "null_fields names obj = [] \<Longrightarrow> omit_null_fields names obj = obj"
  by (simp add: omit_null_fields_def)

lemma null_fields_append: "null_fields (a @ b) obj = null_fields a obj @ null_fields b obj"
  by (simp add: null_fields_def)

lemma null_fields_omitted: "null_fields names obj = [] \<Longrightarrow> null_fields names (omit_null_fields names' obj) = []"
  by (auto simp: null_fields_def [of names] oget_omitted filter_empty_conv)

lemma null_fields_cong: "(\<And>k. k \<in> set names \<Longrightarrow> oget obj k = JNull \<longleftrightarrow> oget obj' k = JNull) \<Longrightarrow>
    null_fields names obj = [] \<longleftrightarrow> null_fields names obj' = []"
  by (auto simp: null_fields_def filter_empty_conv)

lemma null_fields_Nil [simp]: "null_fields names [] = []"
  by (simp add: null_fields_def)

lemma omitNulls_eq: "fst (omitNulls names label v) = (if is_object v then JObj (omit_null_fields names (fields_of v)) else v)"
  by (cases v) simp_all

lemma omitNulls_laws [simp]:
  "no_nulls names (fst (omitNulls names label v))"
  "no_nulls names v \<Longrightarrow> fst (omitNulls names label v) = v"
  "fst (omitNulls names label v) = JNull \<longleftrightarrow> v = JNull"
  "nullish (fst (omitNulls names label v)) \<longleftrightarrow> nullish v"
  by (cases v; simp add: no_nulls_def omitted_none omit_none)+

lemma map_array_eq: "fst (mapProtocolArray field c v) =
    (case jprop v field of JArr xs \<Rightarrow> JObj (oset field (JArr (map (fst \<circ> c) xs)) (fields_of v)) | _ \<Rightarrow> v)"
  by (cases v) (auto simp: mapProtocolArray_def Let_def oset_oget split: js.split)

lemma map_array_laws:
  "list_all P (elements (jprop (fst (mapProtocolArray field c v)) field)) \<longleftrightarrow>
     list_all (P \<circ> fst \<circ> c) (elements (jprop v field))"
  "k \<noteq> field \<Longrightarrow> jprop (fst (mapProtocolArray field c v)) k = jprop v k"
  "nullish (fst (mapProtocolArray field c v)) \<longleftrightarrow> nullish v"
  "fst (mapProtocolArray field c v) = JNull \<longleftrightarrow> v = JNull"
proof -
  show "list_all P (elements (jprop (fst (mapProtocolArray field c v)) field)) \<longleftrightarrow>
     list_all (P \<circ> fst \<circ> c) (elements (jprop v field))"
    by (cases v; cases "jprop v field") (simp_all add: map_array_eq list_all_iff)
qed (cases v; cases "jprop v field"; simp add: map_array_eq)+

lemma map_array_id:
  assumes "list_all (\<lambda>x. fst (c x) = x) (elements (jprop v field))"
  shows "fst (mapProtocolArray field c v) = v"
proof (cases "jprop v field")
  case (JArr xs)
  with assms have "map (fst \<circ> c) xs = xs" by (simp add: list_all_iff map_idI)
  with JArr show ?thesis by (cases v) (simp_all add: map_array_eq oset_oget)
qed (simp_all add: map_array_eq)

lemma no_nulls_other: "field \<notin> set names \<Longrightarrow> no_nulls names (fst (mapProtocolArray field c v)) \<longleftrightarrow> no_nulls names v"
proof -
  assume "field \<notin> set names"
  then show ?thesis
    by (cases v; cases "jprop v field") (auto simp: map_array_eq no_nulls_def null_fields_def filter_empty_conv)
qed

text \<open>Parts and messages.\<close>

definition media_ok :: "js \<Rightarrow> bool" where
  "media_ok part \<longleftrightarrow> (jprop part ''type'' \<in> JStr ` set MEDIA_TYPES \<longrightarrow> no_nulls [''metadata''] part)"

lemma jprop_omitted: "k \<notin> set names \<Longrightarrow> jprop (fst (omitNulls names label v)) k = jprop v k"
  by (cases v) (simp_all add: oget_omitted)

lemma normalize_part_laws:
  "media_ok (fst (normalize_part part))"
  "media_ok part \<Longrightarrow> fst (normalize_part part) = part"
proof -
  show "media_ok (fst (normalize_part part))"
    by (cases "jprop part ''type''") (auto simp: normalize_part_def media_ok_def jprop_omitted)
  show "media_ok part \<Longrightarrow> fst (normalize_part part) = part"
    by (cases "jprop part ''type''") (auto simp: normalize_part_def media_ok_def)
qed

lemma normalize_message_laws:
  "list_all media_ok (elements (jprop (fst (normalizeLegacyMessageNulls m)) ''content''))"
  "list_all media_ok (elements (jprop m ''content'')) \<Longrightarrow> fst (normalizeLegacyMessageNulls m) = m"
  "nullish (fst (normalizeLegacyMessageNulls m)) \<longleftrightarrow> nullish m"
proof -
  show "list_all media_ok (elements (jprop (fst (normalizeLegacyMessageNulls m)) ''content''))"
    unfolding normalizeLegacyMessageNulls_def map_array_laws(1) by (simp add: list_all_iff normalize_part_laws(1))
  show "nullish (fst (normalizeLegacyMessageNulls m)) \<longleftrightarrow> nullish m"
    unfolding normalizeLegacyMessageNulls_def by (rule map_array_laws(3))
  assume "list_all media_ok (elements (jprop m ''content''))"
  then show "fst (normalizeLegacyMessageNulls m) = m"
    unfolding normalizeLegacyMessageNulls_def by (intro map_array_id) (auto simp: list_all_iff normalize_part_laws(2))
qed

lemma converted_media_ok: "convertBinaryToNewFormat part = Some converted \<Longrightarrow> media_ok converted"
  by (auto simp: convertBinaryToNewFormat_def media_part_def media_ok_def no_nulls_def null_fields_def split: if_splits)

lemma upgrade_part_media_ok: "media_ok part \<Longrightarrow> list_all media_ok (upgrade_part raw part)"
  by (auto simp: upgrade_part_def converted_media_ok split: option.split)

lemma current_part_alt: "current_part part \<longleftrightarrow> \<not> convertible part \<and> media_ok part"
  by (simp add: current_part_def media_ok_def)

lemma current_parts: "list_all current_part parts \<longleftrightarrow> filter convertible parts = [] \<and> list_all media_ok parts"
  by (auto simp: list_all_iff current_part_alt filter_empty_conv)

lemma inbound_laws:
  assumes "upgradeInboundMessage st m = Inr (m', st')"
  shows "current_message m'" "current_message m \<Longrightarrow> m' = m"
proof -
  obtain m1 labels where n: "normalizeLegacyMessageNulls m = (m1, labels)" by (cases "normalizeLegacyMessageNulls m")
  have live: "\<not> nullish m1" using assms n by (auto simp: upgradeInboundMessage_def split: if_splits)
  have ok: "list_all media_ok (elements (jprop m1 ''content''))" using normalize_message_laws(1) [of m] n by simp
  have m': "m' = m1 \<and> (\<forall>parts. jprop m1 ''content'' = JArr parts \<longrightarrow> \<not> (\<exists>p \<in> set parts. is_legacy_binary p)) \<or>
      upgradeMessageContent m1 = Inr m' \<and> (\<exists>parts. jprop m1 ''content'' = JArr parts)"
  proof (cases "jprop m1 ''content''")
    case (JArr parts)
    with assms n live show ?thesis
      by (cases "upgradeMessageContent m1") (simp_all add: upgradeInboundMessage_def Let_def split: if_splits)
  qed (use assms n live in \<open>simp_all add: upgradeInboundMessage_def Let_def\<close>)
  have not_legacy: "\<not> is_legacy_binary p \<Longrightarrow> \<not> convertible p" for p
    by (auto simp: is_legacy_binary_def convertible_def isLegacyBinaryContent_def)
  show "current_message m'"
    using m'
  proof
    assume h: "m' = m1 \<and> (\<forall>parts. jprop m1 ''content'' = JArr parts \<longrightarrow> \<not> (\<exists>p \<in> set parts. is_legacy_binary p))"
    then have "filter convertible (elements (jprop m1 ''content'')) = []"
      using not_legacy by (cases "jprop m1 ''content''") (auto simp: filter_empty_conv)
    with h live ok show ?thesis by (simp add: current_message_def current_parts)
  next
    assume h: "upgradeMessageContent m1 = Inr m' \<and> (\<exists>parts. jprop m1 ''content'' = JArr parts)"
    then obtain parts where parts: "jprop m1 ''content'' = JArr parts" by blast
    with h live have "jprop m' ''content'' = JArr (concat (map (upgrade_part parts) parts))" "\<not> nullish m'"
      by (auto simp: upgradeMessageContent_def)
    moreover have "list_all media_ok (concat (map (upgrade_part parts) parts))"
      using ok parts upgrade_part_media_ok by (auto simp: list_all_iff)
    ultimately show ?thesis by (simp add: current_message_def current_parts upgrade_parts_modern)
  qed
  assume cur: "current_message m"
  then have same: "fst (normalizeLegacyMessageNulls m) = m" by (intro normalize_message_laws(2)) (simp add: current_message_def current_parts)
  with n have same: "m1 = m" by simp
  from m' show "m' = m"
  proof
    assume h: "upgradeMessageContent m1 = Inr m' \<and> (\<exists>parts. jprop m1 ''content'' = JArr parts)"
    then obtain parts where "jprop m ''content'' = JArr parts" "upgradeMessageContent m = Inr m'" using same by auto
    with cur show "m' = m"
      by (cases m) (auto simp: upgradeMessageContent_def current_message_def current_parts upgrade_parts_id oset_oget)
  qed (use same in simp)
qed

lemma inbound_current: "current_message m \<Longrightarrow> \<exists>st'. upgradeInboundMessage st m = Inr (m, st')"
proof -
  assume cur: "current_message m"
  then have same: "fst (normalizeLegacyMessageNulls m) = m"
    by (intro normalize_message_laws(2)) (simp add: current_message_def current_parts)
  then obtain labels where "normalizeLegacyMessageNulls m = (m, labels)" by (metis prod.collapse)
  then have "\<exists>m' st'. upgradeInboundMessage st m = Inr (m', st')"
    using cur by (cases "jprop m ''content''")
      (simp_all add: upgradeInboundMessage_def upgradeMessageContent_def current_message_def Let_def)
  with inbound_laws(2) cur show ?thesis by blast
qed

lemma upgrade_messages_laws:
  "upgrade_messages st ms = Inr (ms', st') \<Longrightarrow> list_all current_message ms' \<and> (list_all current_message ms \<longrightarrow> ms' = ms)"
proof (induction ms arbitrary: st ms' st')
  case (Cons m ms)
  then obtain m1 st1 ms1 st2 where "upgradeInboundMessage st m = Inr (m1, st1)"
    and "upgrade_messages st1 ms = Inr (ms1, st2)" and "ms' = m1 # ms1"
    by (auto split: sum.splits)
  with Cons.IH [of st1 ms1 st2] inbound_laws [of st m m1 st1] show ?case by auto
qed simp

lemma upgrade_messages_current: "list_all current_message ms \<Longrightarrow> \<exists>st'. upgrade_messages st ms = Inr (ms, st')"
proof (induction ms arbitrary: st)
  case (Cons m ms)
  then obtain st1 where "upgradeInboundMessage st m = Inr (m, st1)" using inbound_current by fastforce
  with Cons show ?case by (auto dest: Cons.IH [of st1])
qed simp

text \<open>The run input.\<close>

definition current_settings :: "js \<Rightarrow> bool" where
  "current_settings v \<longleftrightarrow> no_nulls [''forwardedProps''] v \<and>
     list_all (no_nulls [''parameters'']) (elements (jprop v ''tools'')) \<and>
     list_all (no_nulls [''payload'']) (elements (jprop v ''resume''))"

lemma fst_then_labels [simp]: "fst (then_labels f r) = fst (f (fst r))"
  by (simp add: then_labels_def)

lemma omitted_all [simp]: "list_all (no_nulls names \<circ> fst \<circ> omitNulls names label) vs"
  by (simp add: list_all_iff)

lemma input_laws:
  "current_settings (fst (normalizeLegacyRunAgentInput v))"
  "fst (normalizeLegacyRunAgentInput v) = JNull \<longleftrightarrow> v = JNull"
  "current_input v \<Longrightarrow> fst (normalizeLegacyRunAgentInput v) = v"
proof -
  show "current_settings (fst (normalizeLegacyRunAgentInput v))"
    by (simp add: current_settings_def normalizeLegacyRunAgentInput_def no_nulls_other map_array_laws(1,2))
  show "fst (normalizeLegacyRunAgentInput v) = JNull \<longleftrightarrow> v = JNull"
    by (simp add: normalizeLegacyRunAgentInput_def map_array_laws(4))
  assume cur: "current_input v"
  have "list_all (\<lambda>m. fst (normalizeLegacyMessageNulls m) = m) (elements (jprop v ''messages''))"
    using cur normalize_message_laws(2) by (auto simp: current_input_def list_all_iff current_message_def current_part_alt)
  moreover have "list_all (\<lambda>x. fst (omitNulls names label x) = x) (elements (jprop v k))"
    if "list_all (no_nulls names) (elements (jprop v k))" for names label k
    using that by (auto simp: list_all_iff)
  ultimately show "fst (normalizeLegacyRunAgentInput v) = v"
    using cur by (simp add: normalizeLegacyRunAgentInput_def current_input_def map_array_id)
qed

lemma current_input_alt: "current_input v \<longleftrightarrow> current_settings v \<and> list_all current_message (elements (jprop v ''messages''))"
  by (auto simp: current_input_def current_settings_def)

lemma settings_oset:
  "current_settings (JObj (oset ''messages'' w obj)) \<longleftrightarrow> current_settings (JObj obj)"
  by (simp add: current_settings_def no_nulls_def null_fields_def)

text \<open>The event's own nulls.\<close>

lemma boundary_nulls_eq:
  "etype (fst (boundary_nulls e)) = etype e"
  "null_fields (EVENT_OPTIONAL_NULLS @ typed_nulls (etype e)) (props (fst (boundary_nulls e))) = []"
  "null_fields (EVENT_OPTIONAL_NULLS @ typed_nulls (etype e)) (props e) = [] \<Longrightarrow> fst (boundary_nulls e) = e"
proof -
  have eq: "fst (boundary_nulls e) =
      Event (etype e) (omit_null_fields (typed_nulls (etype e)) (omit_null_fields EVENT_OPTIONAL_NULLS (props e)))"
    by (cases "EVENT_TYPE_OPTIONAL_NULLS (etype e)")
      (auto simp: boundary_nulls_def typed_nulls_def omit_null_fields_def null_fields_def)
  show "etype (fst (boundary_nulls e)) = etype e" by (simp add: eq)
  show "null_fields (EVENT_OPTIONAL_NULLS @ typed_nulls (etype e)) (props (fst (boundary_nulls e))) = []"
    by (simp add: eq null_fields_append omitted_none null_fields_omitted)
  assume "null_fields (EVENT_OPTIONAL_NULLS @ typed_nulls (etype e)) (props e) = []"
  then show "fst (boundary_nulls e) = e" by (simp add: eq null_fields_append omit_none)
qed

definition free_of_nulls :: "event \<Rightarrow> bool" where
  "free_of_nulls e \<longleftrightarrow> null_fields (EVENT_OPTIONAL_NULLS @ typed_nulls (etype e)) (props e) = []"

lemma free_of_nulls_iff: "free_of_nulls e \<longleftrightarrow> (\<forall>k \<in> set (EVENT_OPTIONAL_NULLS @ typed_nulls (etype e)). attr e k \<noteq> JNull)"
  by (auto simp: free_of_nulls_def null_fields_def filter_empty_conv attr_def)

lemma typed_nulls_simps [simp]:
  "typed_nulls RUN_STARTED = [''parentRunId'', ''input'']" "typed_nulls RUN_FINISHED = [''result'', ''outcome'']"
  "typed_nulls MESSAGES_SNAPSHOT = []" "typed_nulls REASONING_START = []" "typed_nulls REASONING_MESSAGE_START = []"
  "typed_nulls REASONING_MESSAGE_CONTENT = []" "typed_nulls REASONING_MESSAGE_END = []" "typed_nulls REASONING_END = []"
  "typed_nulls (OTHER_TYPE t) = []"
  by (simp_all add: typed_nulls_def)

lemma thinking_shapes:
  "\<exists>i. fst (thinking_start uuid e st) = retyped REASONING_START i (odel ''title'' (props e))"
  "\<exists>i. fst (thinking_text_message_start uuid e st) =
     with_prop ''role'' (JStr ''reasoning'') (retyped REASONING_MESSAGE_START i (props e))"
  "\<exists>i. fst (thinking_text_message_content uuid e st) =
     with_prop ''delta'' (attr e ''delta'') (retyped REASONING_MESSAGE_CONTENT i (odel ''delta'' (props e)))"
  "\<exists>i. fst (thinking_text_message_end uuid e st) = retyped REASONING_MESSAGE_END i (props e)"
  "\<exists>i. fst (thinking_end uuid e st) = retyped REASONING_END i (props e)"
  by (auto simp: thinking_start_def thinking_text_message_start_def thinking_text_message_content_def
      thinking_text_message_end_def thinking_end_def fresh_id_def Let_def split: prod.splits)

lemma current_reasoning:
  assumes "etype e \<in> {REASONING_START, REASONING_MESSAGE_START, REASONING_MESSAGE_CONTENT, REASONING_MESSAGE_END, REASONING_END}"
    and "attr e ''rawEvent'' \<noteq> JNull" and "attr e ''subagentRunId'' \<noteq> JNull"
  shows "current e"
  using assms by (auto simp: current_def null_fields_def EVENT_OPTIONAL_NULLS_def attr_def)

lemma thinking_arms:
  assumes "free_of_nulls e" and "etype e = OTHER_TYPE t"
  shows "current (fst (thinking_start uuid e st))" "current (fst (thinking_text_message_start uuid e st))"
    "current (fst (thinking_text_message_content uuid e st))" "current (fst (thinking_text_message_end uuid e st))"
    "current (fst (thinking_end uuid e st))"
proof -
  have n: "oget (props e) ''rawEvent'' \<noteq> JNull" "oget (props e) ''subagentRunId'' \<noteq> JNull"
    using assms by (auto simp: free_of_nulls_iff EVENT_OPTIONAL_NULLS_def attr_def)
  note s = thinking_shapes [of uuid e st]
  from s(1) n show "current (fst (thinking_start uuid e st))" by (auto simp: retyped_def intro: current_reasoning)
  from s(2) n show "current (fst (thinking_text_message_start uuid e st))"
    by (auto simp: retyped_def intro: current_reasoning)
  from s(3) n show "current (fst (thinking_text_message_content uuid e st))"
    by (auto simp: retyped_def intro: current_reasoning)
  from s(4) n show "current (fst (thinking_text_message_end uuid e st))" by (auto simp: retyped_def intro: current_reasoning)
  from s(5) n show "current (fst (thinking_end uuid e st))" by (auto simp: retyped_def intro: current_reasoning)
qed

lemma run_finished_arm:
  assumes "free_of_nulls e" and "etype e = RUN_FINISHED"
  shows "current (fst (boundary_run_finished e st))" "current e \<Longrightarrow> fst (boundary_run_finished e st) = e"
proof -
  let ?o = "fst (omitNulls OUTCOME_OPTIONAL_NULLS ''RUN_FINISHED.outcome.'' (attr e ''outcome''))"
  let ?v = "JObj (replaced ''outcome'' ?o (props e))"
  let ?w = "fst (mapProtocolArray ''usage'' (omitNulls USAGE_OPTIONAL_NULLS ''RUN_FINISHED.usage[].'') ?v)"
  have eq: "fst (boundary_run_finished e st) = Event RUN_FINISHED (fields_of ?w)"
    using assms(2) by (simp add: boundary_run_finished_def split: prod.split)
  obtain obj where w: "?w = JObj obj" by (cases "jprop ?v ''usage''") (simp_all add: map_array_eq)
  with eq have eq: "fst (boundary_run_finished e st) = Event RUN_FINISHED obj" by simp
  have other: "oget obj k = oget (props e) k" if "k \<noteq> ''usage''" "k \<noteq> ''outcome''" for k
    using map_array_laws(2) [OF that(1), of "omitNulls USAGE_OPTIONAL_NULLS ''RUN_FINISHED.usage[].''" ?v] w that
    by (simp add: replaced_def split: if_splits)
  have outcome: "oget obj ''outcome'' = ?o"
    using map_array_laws(2) [of "''outcome''" "''usage''" "omitNulls USAGE_OPTIONAL_NULLS ''RUN_FINISHED.usage[].''" ?v] w
    by (simp add: replaced_def attr_def split: if_splits)
  have usage: "list_all (no_nulls USAGE_OPTIONAL_NULLS) (elements (oget obj ''usage''))"
    using map_array_laws(1) [of "no_nulls USAGE_OPTIONAL_NULLS" "''usage''" "omitNulls USAGE_OPTIONAL_NULLS ''RUN_FINISHED.usage[].''" ?v] w
    by simp
  have "\<forall>k \<in> set (EVENT_OPTIONAL_NULLS @ typed_nulls RUN_FINISHED). oget obj k \<noteq> JNull"
    using assms other outcome by (auto simp: free_of_nulls_iff EVENT_OPTIONAL_NULLS_def attr_def)
  with outcome usage show "current (fst (boundary_run_finished e st))"
    unfolding eq by (auto simp: current_def null_fields_def filter_empty_conv)
  assume cur: "current e"
  then have o: "?o = attr e ''outcome''" using assms(2) by (simp add: current_def)
  have "?w = ?v"
    using cur assms(2) by (intro map_array_id) (auto simp: current_def o replaced_def attr_def list_all_iff)
  with w have "obj = props e" using o by (simp add: replaced_def attr_def)
  with assms(2) show "fst (boundary_run_finished e st) = e" using eq by (cases e) simp_all
qed

lemma snapshot_arm:
  assumes "free_of_nulls e" and "etype e = MESSAGES_SNAPSHOT" and "boundary_messages_snapshot e st = Inr (e', st')"
  shows "current e'" "current e \<Longrightarrow> e' = e"
proof -
  have "current e' \<and> (current e \<longrightarrow> e' = e)"
  proof (cases "attr e ''messages''")
    case (JArr ms)
    with assms(3) obtain ms' where u: "upgrade_messages st ms = Inr (ms', st')" and e': "e' = with_prop ''messages'' (JArr ms') e"
      by (auto simp: boundary_messages_snapshot_def map_sum_Inr)
    from upgrade_messages_laws [OF u] have ms': "list_all current_message ms'" "list_all current_message ms \<longrightarrow> ms' = ms" by auto
    have "current e'"
      using assms(1,2) ms'(1) by (auto simp: e' current_def free_of_nulls_iff EVENT_OPTIONAL_NULLS_def null_fields_def with_prop_def attr_def)
    moreover have "e' = e" if "current e"
      using that assms(2) ms'(2) JArr by (cases e) (auto simp: e' current_def with_prop_def oset_oget)
    ultimately show ?thesis by blast
  qed (use assms in \<open>auto simp: boundary_messages_snapshot_def current_def free_of_nulls_def\<close>)
  then show "current e'" "current e \<Longrightarrow> e' = e" by auto
qed

lemma run_started_arm:
  assumes "free_of_nulls e" and "etype e = RUN_STARTED" and "boundary_run_started e st = Inr (e', st')"
  shows "current e'" "current e \<Longrightarrow> e' = e"
proof -
  obtain i labels where n: "normalizeLegacyRunAgentInput (attr e ''input'') = (i, labels)" by (cases "normalizeLegacyRunAgentInput (attr e ''input'')")
  have laws: "current_settings i" "i = JNull \<longleftrightarrow> attr e ''input'' = JNull" "current_input (attr e ''input'') \<Longrightarrow> i = attr e ''input''"
    using input_laws [of "attr e ''input''"] n by simp_all
  let ?n = "Event RUN_STARTED (replaced ''input'' i (props e))"
  have input: "attr ?n ''input'' = i" by (simp add: replaced_def attr_def)
  have other: "k \<noteq> ''input'' \<Longrightarrow> attr ?n k = attr e k" for k by (simp add: replaced_def attr_def)
  have same: "current e \<Longrightarrow> ?n = e"
    using laws(3) assms(2) by (cases e) (simp add: current_def replaced_def)
  have free: "\<forall>k \<in> {''rawEvent'', ''subagentRunId'', ''parentRunId''}. attr e k \<noteq> JNull" "i \<noteq> JNull"
    using assms(1,2) by (auto simp: free_of_nulls_iff EVENT_OPTIONAL_NULLS_def laws(2))
  have "current e' \<and> (current e \<longrightarrow> e' = e)"
  proof (cases "is_array (jprop i ''messages'')")
    case True
    then obtain ms where JArr: "jprop i ''messages'' = JArr ms" by (cases "jprop i ''messages''") simp_all
    then obtain obj where i: "i = JObj obj" by (cases i) simp_all
    let ?st = "fold noticeNullOncePerRun labels st"
    have "map_sum id (\<lambda>(ms', st''). (with_prop ''input'' (JObj (oset ''messages'' (JArr ms') (fields_of (attr ?n ''input'')))) ?n, st''))
        (upgrade_messages ?st ms) = Inr (e', st')"
      using assms(2,3) JArr unfolding boundary_run_started_def n prod.case Let_def assms(2) input by simp
    then obtain ms' where u: "upgrade_messages ?st ms = Inr (ms', st')"
      and e': "e' = with_prop ''input'' (JObj (oset ''messages'' (JArr ms') obj)) ?n"
      unfolding i by (auto simp: map_sum_Inr input [unfolded i] simp del: attr_Event)
    from upgrade_messages_laws [OF u] have ms': "list_all current_message ms'" "list_all current_message ms \<longrightarrow> ms' = ms" by auto
    have "current_input (JObj (oset ''messages'' (JArr ms') obj))"
      using laws(1) ms'(1) by (simp add: current_input_alt settings_oset i)
    then have "current e'"
      using free other by (auto simp: e' current_def null_fields_def EVENT_OPTIONAL_NULLS_def with_prop_def attr_def)
    moreover have "e' = e" if "current e"
    proof -
      have "attr e ''input'' = JObj obj" using same [OF that] input i by simp
      moreover from this that assms(2) have "list_all current_message ms" using JArr i by (simp add: current_def current_input_def)
      with ms'(2) JArr i have "oset ''messages'' (JArr ms') obj = obj" by (simp add: oset_oget)
      ultimately show ?thesis unfolding e' same [OF that] by (cases e) (simp add: with_prop_def oset_oget)
    qed
    ultimately show ?thesis by blast
  next
    case False
    then have "e' = ?n" using assms(2,3) unfolding boundary_run_started_def n prod.case Let_def assms(2) input
      by (cases "jprop i ''messages''") simp_all
    moreover have "list_all P (elements (jprop i ''messages''))" for P
      using False by (cases "jprop i ''messages''") simp_all
    then have "current ?n"
      using free other input laws(1)
      by (auto simp: current_def current_input_alt null_fields_def EVENT_OPTIONAL_NULLS_def attr_def)
    ultimately show ?thesis using same by simp
  qed
  then show "current e'" "current e \<Longrightarrow> e' = e" by auto
qed

lemma free_after_nulls: "free_of_nulls (fst (boundary_nulls e))"
  using boundary_nulls_eq(1,2) [of e] by (simp add: free_of_nulls_def)

lemma nulls_of_current: "current e \<Longrightarrow> fst (boundary_nulls e) = e"
  by (simp add: current_def boundary_nulls_eq(3))

lemma current_plain:
  assumes "free_of_nulls e" and "etype e \<notin> OTHER_TYPE ` set retired_types \<union> {RUN_FINISHED, MESSAGES_SNAPSHOT, RUN_STARTED}"
  shows "current e"
  using assms by (auto simp: current_def free_of_nulls_def)

lemma switch_retired:
  assumes "free_of_nulls e" and "etype e \<in> OTHER_TYPE ` set retired_types" and "boundary_switch uuid e st = Inr r"
  shows "current (fst r)"
proof -
  from assms(2) obtain t where t: "etype e = OTHER_TYPE t" "t \<in> set retired_types" by blast
  note arms = thinking_arms [OF assms(1) t(1), of uuid st]
  from t assms(3) consider "r = thinking_start uuid e st" | "r = thinking_end uuid e st"
    | "r = thinking_text_message_start uuid e st" | "r = thinking_text_message_content uuid e st"
    | "r = thinking_text_message_end uuid e st"
    by (auto simp: boundary_switch_def retired_types_def)
  then show ?thesis by cases (simp_all add: arms)
qed

lemma switch_other:
  assumes "etype e \<notin> OTHER_TYPE ` set retired_types \<union> {RUN_FINISHED, MESSAGES_SNAPSHOT, RUN_STARTED}"
  shows "boundary_switch uuid e st = Inr (e, st)"
  using assms by (cases "etype e") (auto simp: boundary_switch_def retired_types_def)

lemma switch_laws:
  assumes "free_of_nulls e" and "boundary_switch uuid e st = Inr (e', st')"
  shows "current e'" "current e \<Longrightarrow> e' = e"
proof -
  consider "etype e \<in> OTHER_TYPE ` set retired_types" | "etype e = RUN_FINISHED" | "etype e = MESSAGES_SNAPSHOT"
    | "etype e = RUN_STARTED" | "etype e \<notin> OTHER_TYPE ` set retired_types \<union> {RUN_FINISHED, MESSAGES_SNAPSHOT, RUN_STARTED}"
    by blast
  then have "current e' \<and> (current e \<longrightarrow> e' = e)"
  proof cases
    case 1
    with switch_retired [OF assms(1) 1 assms(2)] show ?thesis by (simp add: current_def)
  next
    case 2
    then have "boundary_run_finished e st = (e', st')" using assms(2) by (simp add: boundary_switch_def)
    with run_finished_arm [OF assms(1) 2, of st] show ?thesis by simp
  next
    case 3
    then have "boundary_messages_snapshot e st = Inr (e', st')" using assms(2) by (simp add: boundary_switch_def)
    with snapshot_arm [OF assms(1) 3] show ?thesis by blast
  next
    case 4
    then have "boundary_run_started e st = Inr (e', st')" using assms(2) by (simp add: boundary_switch_def)
    with run_started_arm [OF assms(1) 4] show ?thesis by blast
  next
    case 5
    with assms current_plain switch_other [OF 5] show ?thesis by simp
  qed
  then show "current e'" "current e \<Longrightarrow> e' = e" by auto
qed

lemma switch_current: "current e \<Longrightarrow> \<exists>st'. boundary_switch uuid e st = Inr (e, st')"
proof -
  assume cur: "current e"
  then have free: "free_of_nulls e" by (simp add: current_def free_of_nulls_def)
  have "\<exists>r. boundary_switch uuid e st = Inr r"
  proof (cases "etype e = MESSAGES_SNAPSHOT \<or> etype e = RUN_STARTED")
    case False
    then show ?thesis by (cases "etype e") (auto simp: boundary_switch_def)
  next
    case True
    then show ?thesis
    proof
      assume t: "etype e = MESSAGES_SNAPSHOT"
      with cur have ms: "list_all current_message (elements (attr e ''messages''))" by (simp add: current_def)
      show ?thesis
      proof (cases "attr e ''messages''")
        case (JArr xs)
        with upgrade_messages_current [of xs st] ms obtain st' where "upgrade_messages st xs = Inr (xs, st')" by auto
        with JArr t show ?thesis by (simp add: boundary_switch_def boundary_messages_snapshot_def)
      qed (simp_all add: boundary_switch_def boundary_messages_snapshot_def t)
    next
      assume t: "etype e = RUN_STARTED"
      obtain labels where n: "normalizeLegacyRunAgentInput (attr e ''input'') = (attr e ''input'', labels)"
        using input_laws(3) [of "attr e ''input''"] cur t
        by (cases "normalizeLegacyRunAgentInput (attr e ''input'')") (simp add: current_def)
      have same: "Event RUN_STARTED (replaced ''input'' (attr e ''input'') (props e)) = e"
        using t by (cases e) (simp add: replaced_def)
      from cur t have "list_all current_message (elements (jprop (attr e ''input'') ''messages''))"
        by (simp add: current_def current_input_def)
      note ms = this
      have run: "boundary_switch uuid e st = (case jprop (attr e ''input'') ''messages'' of
          JArr ms \<Rightarrow> map_sum id (\<lambda>(ms', st''). (with_prop ''input''
            (JObj (oset ''messages'' (JArr ms') (fields_of (attr e ''input'')))) e, st''))
            (upgrade_messages (fold noticeNullOncePerRun labels st) ms)
        | _ \<Rightarrow> Inr (e, fold noticeNullOncePerRun labels st))"
        unfolding boundary_switch_def t event_type.case boundary_run_started_def n prod.case Let_def same ..
      show ?thesis
      proof (cases "is_array (jprop (attr e ''input'') ''messages'')")
        case True
        then obtain ms where JArr: "jprop (attr e ''input'') ''messages'' = JArr ms"
          by (cases "jprop (attr e ''input'') ''messages''") simp_all
        with upgrade_messages_current [of ms "fold noticeNullOncePerRun labels st"] ms obtain st' where
          "upgrade_messages (fold noticeNullOncePerRun labels st) ms = Inr (ms, st')" by auto
        then show ?thesis unfolding run JArr by simp
      next
        case False
        then show ?thesis unfolding run by (cases "jprop (attr e ''input'') ''messages''") simp_all
      qed
    qed
  qed
  then obtain e' st' where "boundary_switch uuid e st = Inr (e', st')" by fastforce
  with switch_laws(2) [OF free this cur] show ?thesis by blast
qed

lemma boundary_step:
  "boundary_event uuid st e = Inr (es, st') \<Longrightarrow> \<exists>e'. es = [e'] \<and> current e'"
  "current e \<Longrightarrow> \<exists>st'. boundary_event uuid st e = Inr ([e], st')"
proof -
  obtain e1 labels where n: "boundary_nulls e = (e1, labels)" by (cases "boundary_nulls e")
  with free_after_nulls [of e] have free: "free_of_nulls e1" by simp
  show "\<exists>e'. es = [e'] \<and> current e'" if "boundary_event uuid st e = Inr (es, st')"
    using that switch_laws(1) [OF free] by (fastforce simp: boundary_event_def n Let_def map_sum_Inr)
  assume cur: "current e"
  with nulls_of_current [OF cur] n have "e1 = e" by simp
  with switch_current [OF cur] show "\<exists>st'. boundary_event uuid st e = Inr ([e], st')"
    by (fastforce simp: boundary_event_def n Let_def map_sum_Inr)
qed

lemma current_stream:
  assumes "filter (\<lambda>e. \<not> current e) es = []"
  shows "emitted (boundary_event uuid) st es = es \<and> accepts (boundary_event uuid) st es"
  using assms
proof (induction es arbitrary: st)
  case (Cons e es)
  then obtain st' where "boundary_event uuid st e = Inr ([e], st')"
    using boundary_step(2) by (fastforce split: if_splits)
  with Cons show ?case by (auto split: if_splits)
qed simp

text \<open>
  C19. Behind the compatibility boundary every event has a current shape - no retired type, no
  optional null, no convertible legacy attachment - and events that had one already pass untouched;
  passing the boundary twice is passing it once.
\<close>

theorem boundary_output_is_current:
  "filter (\<lambda>e. \<not> current e) (emitted (boundary_event uuid) st es) = [] \<and>
   emitted (boundary_event uuid) st (filter current es) = filter current es \<and>
   emitted (boundary_event uuid') st' (emitted (boundary_event uuid) st es) = emitted (boundary_event uuid) st es"
proof -
  have "\<forall>e \<in> set (emitted (boundary_event uuid) st es). current e"
    by (rule emitted_only) (use boundary_step(1) in fastforce)
  then have out: "filter (\<lambda>e. \<not> current e) (emitted (boundary_event uuid) st es) = []" by (simp add: filter_empty_conv)
  with current_stream show ?thesis by simp
qed

subsection \<open>Thinking spans\<close>

text \<open>A span as an old producer sends it, and the reasoning it stands for.\<close>

definition thinking_span :: "string list \<Rightarrow> event list" where
  "thinking_span deltas =
     [ev (OTHER_TYPE ''THINKING_START'') [], ev (OTHER_TYPE ''THINKING_TEXT_MESSAGE_START'') []] @
     map (\<lambda>d. ev (OTHER_TYPE ''THINKING_TEXT_MESSAGE_CONTENT'') [(''delta'', d)]) deltas @
     [ev (OTHER_TYPE ''THINKING_TEXT_MESSAGE_END'') [], ev (OTHER_TYPE ''THINKING_END'') []]"

definition reasoning_span :: "string \<Rightarrow> string \<Rightarrow> string list \<Rightarrow> event list" where
  "reasoning_span span message deltas =
     [ev REASONING_START [(''messageId'', span)],
      ev REASONING_MESSAGE_START [(''messageId'', message), (''role'', ''reasoning'')]] @
     map (\<lambda>d. ev REASONING_MESSAGE_CONTENT [(''messageId'', message), (''delta'', d)]) deltas @
     [ev REASONING_MESSAGE_END [(''messageId'', message)], ev REASONING_END [(''messageId'', span)]]"

lemma oset_Nil [simp]: "oset k v [] = [(k, v)]" by (simp add: oset_def)

lemma oset_Cons: "oset k v ((k', w) # obj) = (if k' = k then (k, v) # obj else (k', w) # oset k v obj)"
  by (simp add: oset_def)

lemma odel_simps: "odel k [] = []" "odel k ((k', w) # obj) = (if k' = k then odel k obj else (k', w) # odel k obj)"
  by (simp_all add: odel_def)

lemma boundary_nulls_thinking:
  "null_fields EVENT_OPTIONAL_NULLS obj = [] \<Longrightarrow> boundary_nulls (Event (OTHER_TYPE t) obj) = (Event (OTHER_TYPE t) obj, [])"
  by (simp add: boundary_nulls_def omit_none)

lemma boundary_contents:
  "currentMessageId st = Some m \<Longrightarrow>
   \<exists>st'. run_stage (boundary_event uuid) st
       (map (\<lambda>d. ev (OTHER_TYPE ''THINKING_TEXT_MESSAGE_CONTENT'') [(''delta'', d)]) deltas) =
     (map (\<lambda>d. ev REASONING_MESSAGE_CONTENT [(''messageId'', m), (''delta'', d)]) deltas, None, st') \<and>
   currentMessageId st' = Some m \<and> currentReasoningId st' = currentReasoningId st"
proof (induction deltas arbitrary: st)
  case (Cons d deltas)
  let ?st = "warn (Converted ''THINKING_TEXT_MESSAGE_CONTENT'') st"
  have "boundary_event uuid st (ev (OTHER_TYPE ''THINKING_TEXT_MESSAGE_CONTENT'') [(''delta'', d)]) =
      Inr ([ev REASONING_MESSAGE_CONTENT [(''messageId'', m), (''delta'', d)]], ?st)"
    using Cons.prems
    by (simp add: boundary_event_def ev_def boundary_nulls_thinking null_fields_def EVENT_OPTIONAL_NULLS_def
        boundary_switch_def thinking_text_message_content_def mintedContinuationId_def warn_def retyped_def
        with_prop_def odel_simps oset_Cons Let_def)
  moreover from Cons.prems have "currentMessageId ?st = Some m" "currentReasoningId ?st = currentReasoningId st"
    by (simp_all add: warn_def)
  ultimately show ?case using Cons.IH [of ?st] by auto
qed simp

lemma run_stage_append:
  "run_stage f s xs = (ys, None, t) \<Longrightarrow> run_stage f s (xs @ xs') = (let (zs, r, u) = run_stage f t xs' in (ys @ zs, r, u))"
proof (induction xs arbitrary: s ys)
  case (Cons x xs)
  then show ?case by (cases "f s x") (auto simp: Let_def split: prod.splits)
qed simp

lemma emitted_eq: "run_stage f s xs = (ys, r, t) \<Longrightarrow> emitted f s xs = ys \<and> failure f s xs = r"
  by (simp add: emitted_def failure_def)

lemma boundary_span:
  "emitted (boundary_event uuid) st (thinking_span deltas) =
     reasoning_span (uuid (minted st)) (uuid (Suc (minted st))) deltas \<and>
   failure (boundary_event uuid) st (thinking_span deltas) = None"
proof -
  let ?r = "uuid (minted st)" and ?m = "uuid (Suc (minted st))"
  obtain st1 where opened: "run_stage (boundary_event uuid) st
      [ev (OTHER_TYPE ''THINKING_START'') [], ev (OTHER_TYPE ''THINKING_TEXT_MESSAGE_START'') []] =
      ([ev REASONING_START [(''messageId'', ?r)],
        ev REASONING_MESSAGE_START [(''messageId'', ?m), (''role'', ''reasoning'')]], None, st1)"
    and st1: "currentMessageId st1 = Some ?m" "currentReasoningId st1 = Some ?r"
    by (simp add: boundary_event_def ev_def boundary_nulls_thinking null_fields_def EVENT_OPTIONAL_NULLS_def
        boundary_switch_def thinking_start_def thinking_text_message_start_def fresh_id_def warn_def retyped_def
        with_prop_def odel_simps oset_Cons Let_def)
  from boundary_contents [OF st1(1), of uuid deltas] obtain st2 where
    contents: "run_stage (boundary_event uuid) st1
        (map (\<lambda>d. ev (OTHER_TYPE ''THINKING_TEXT_MESSAGE_CONTENT'') [(''delta'', d)]) deltas) =
      (map (\<lambda>d. ev REASONING_MESSAGE_CONTENT [(''messageId'', ?m), (''delta'', d)]) deltas, None, st2)"
    and st2: "currentMessageId st2 = Some ?m" "currentReasoningId st2 = Some ?r"
    using st1(2) by auto
  obtain st3 where "run_stage (boundary_event uuid) st2
      [ev (OTHER_TYPE ''THINKING_TEXT_MESSAGE_END'') [], ev (OTHER_TYPE ''THINKING_END'') []] =
      ([ev REASONING_MESSAGE_END [(''messageId'', ?m)], ev REASONING_END [(''messageId'', ?r)]], None, st3)"
    using st2
    by (simp add: boundary_event_def ev_def boundary_nulls_thinking null_fields_def EVENT_OPTIONAL_NULLS_def
        boundary_switch_def thinking_text_message_end_def thinking_end_def mintedContinuationId_def warn_def retyped_def
        Let_def)
  then have "run_stage (boundary_event uuid) st (thinking_span deltas) = (reasoning_span ?r ?m deltas, None, st3)"
    unfolding thinking_span_def reasoning_span_def
    by (simp only: run_stage_append [OF opened] run_stage_append [OF contents] Let_def prod.case append_assoc)
  from emitted_eq [OF this] show ?thesis .
qed

lemma shim_contents:
  "message_id st = Some m \<Longrightarrow>
   run_stage (pre_reasoning_event uuid) st
       (map (\<lambda>d. ev (OTHER_TYPE ''THINKING_TEXT_MESSAGE_CONTENT'') [(''delta'', d)]) deltas) =
     (map (\<lambda>d. ev REASONING_MESSAGE_CONTENT [(''messageId'', m), (''delta'', d)]) deltas, None, st)"
  by (induction deltas)
    (simp_all add: pre_reasoning_event_def ev_def id_or_fresh_def retyped_def with_prop_def odel_simps oset_Cons)

lemma shim_span:
  "emitted (pre_reasoning_event uuid) st (thinking_span deltas) =
     reasoning_span (uuid (uuids_used st)) (uuid (Suc (uuids_used st))) deltas \<and>
   failure (pre_reasoning_event uuid) st (thinking_span deltas) = None"
proof -
  let ?r = "uuid (uuids_used st)" and ?m = "uuid (Suc (uuids_used st))"
  let ?st = "st\<lparr>reasoning_id := Some ?r, message_id := Some ?m, uuids_used := Suc (Suc (uuids_used st))\<rparr>"
  have opened: "run_stage (pre_reasoning_event uuid) st
      [ev (OTHER_TYPE ''THINKING_START'') [], ev (OTHER_TYPE ''THINKING_TEXT_MESSAGE_START'') []] =
      ([ev REASONING_START [(''messageId'', ?r)],
        ev REASONING_MESSAGE_START [(''messageId'', ?m), (''role'', ''reasoning'')]], None, ?st)"
    by (simp add: pre_reasoning_event_def ev_def id_or_fresh_def retyped_def with_prop_def odel_simps oset_Cons)
  have "run_stage (pre_reasoning_event uuid) ?st
      [ev (OTHER_TYPE ''THINKING_TEXT_MESSAGE_END'') [], ev (OTHER_TYPE ''THINKING_END'') []] =
      ([ev REASONING_MESSAGE_END [(''messageId'', ?m)], ev REASONING_END [(''messageId'', ?r)]], None, ?st)"
    by (simp add: pre_reasoning_event_def ev_def id_or_fresh_def retyped_def)
  note ended = this
  have contents: "run_stage (pre_reasoning_event uuid) ?st
      (map (\<lambda>d. ev (OTHER_TYPE ''THINKING_TEXT_MESSAGE_CONTENT'') [(''delta'', d)]) deltas) =
      (map (\<lambda>d. ev REASONING_MESSAGE_CONTENT [(''messageId'', ?m), (''delta'', d)]) deltas, None, ?st)"
    by (rule shim_contents) simp
  from ended have "run_stage (pre_reasoning_event uuid) st (thinking_span deltas) = (reasoning_span ?r ?m deltas, None, ?st)"
    unfolding thinking_span_def reasoning_span_def
    by (simp only: run_stage_append [OF opened] run_stage_append [OF contents] Let_def prod.case append_assoc)
  from emitted_eq [OF this] show ?thesis .
qed

text \<open>
  C23. A retired thinking span arrives as one reasoning span: the opener's identifier is the one of
  every continuation, nothing is lost or reordered, and the always-on boundary and the shim for
  peers up to 0.0.45 agree on it.
\<close>

theorem thinking_spans_become_reasoning:
  "compatibilityBoundaryOperator uuid (thinking_span deltas, err) = (reasoning_span (uuid 0) (uuid 1) deltas, err) \<and>
   piped (pre_reasoning_event uuid) initial_thinking (thinking_span deltas, err) =
     compatibilityBoundaryOperator uuid (thinking_span deltas, err)"
  using boundary_span [of uuid initial_boundary deltas] shim_span [of uuid initial_thinking deltas]
  by (simp add: compatibilityBoundaryOperator_def piped_def initial_boundary_def initial_thinking_def)

text \<open>
  They part ways on a continuation after its end: the boundary forgets the identifier and invents a
  new one, the shim still uses the identifier of the message that has ended.
\<close>

lemma late_continuation_differs:
  "pre_reasoning_event uuid (initial_thinking\<lparr>message_id := Some ''m''\<rparr>) (ev (OTHER_TYPE ''THINKING_TEXT_MESSAGE_END'') []) =
     Inr ([ev REASONING_MESSAGE_END [(''messageId'', ''m'')]], initial_thinking\<lparr>message_id := Some ''m''\<rparr>)"
  "\<exists>st'. boundary_event uuid (initial_boundary\<lparr>currentMessageId := Some ''m''\<rparr>) (ev (OTHER_TYPE ''THINKING_TEXT_MESSAGE_END'') []) =
     Inr ([ev REASONING_MESSAGE_END [(''messageId'', ''m'')]], st') \<and> currentMessageId st' = None"
  by (simp_all add: pre_reasoning_event_def ev_def id_or_fresh_def retyped_def initial_thinking_def initial_boundary_def
      boundary_event_def boundary_nulls_thinking boundary_switch_def thinking_text_message_end_def
      mintedContinuationId_def warn_def null_fields_def EVENT_OPTIONAL_NULLS_def)

end
