(* ===== verification/AGUI_Pipeline.thy ===== *)
theory AGUI_Pipeline
  imports AGUI_Middleware AGUI_Verify AGUI_Enforce AGUI_Conversation
begin

section \<open>The client pipeline\<close>

text \<open>
  The stages \<open>enforceEvents\<close>, \<open>transformChunks\<close> and \<open>verifyEvents\<close> that
  \<open>runAgent\<close> and \<open>connectAgent\<close> of \<^verbatim>\<open>client/src/agent/agent.ts\<close> put, in this
  order, between the middleware chain and the reducer, and what they promise the reducer together.

  Before enforcement an event is a raw object, after it an \<open>event\<close>; \<open>event_of\<close> and
  \<open>js_of\<close> convert.
\<close>

subsection \<open>Events as objects\<close>

definition EVENT_TYPES :: "(string \<times> event_type) list" where
  "EVENT_TYPES =
     [(''TEXT_MESSAGE_START'', TEXT_MESSAGE_START), (''TEXT_MESSAGE_CONTENT'', TEXT_MESSAGE_CONTENT),
      (''TEXT_MESSAGE_END'', TEXT_MESSAGE_END), (''TEXT_MESSAGE_CHUNK'', TEXT_MESSAGE_CHUNK),
      (''TOOL_CALL_START'', TOOL_CALL_START), (''TOOL_CALL_ARGS'', TOOL_CALL_ARGS),
      (''TOOL_CALL_END'', TOOL_CALL_END), (''TOOL_CALL_CHUNK'', TOOL_CALL_CHUNK),
      (''TOOL_CALL_RESULT'', TOOL_CALL_RESULT), (''STATE_SNAPSHOT'', STATE_SNAPSHOT),
      (''STATE_DELTA'', STATE_DELTA), (''MESSAGES_SNAPSHOT'', MESSAGES_SNAPSHOT),
      (''ACTIVITY_SNAPSHOT'', ACTIVITY_SNAPSHOT), (''ACTIVITY_DELTA'', ACTIVITY_DELTA),
      (''RAW'', RAW), (''CUSTOM'', CUSTOM), (''RUN_STARTED'', RUN_STARTED), (''RUN_FINISHED'', RUN_FINISHED),
      (''RUN_ERROR'', RUN_ERROR), (''STEP_STARTED'', STEP_STARTED), (''STEP_FINISHED'', STEP_FINISHED),
      (''REASONING_START'', REASONING_START), (''REASONING_MESSAGE_START'', REASONING_MESSAGE_START),
      (''REASONING_MESSAGE_CONTENT'', REASONING_MESSAGE_CONTENT), (''REASONING_MESSAGE_END'', REASONING_MESSAGE_END),
      (''REASONING_MESSAGE_CHUNK'', REASONING_MESSAGE_CHUNK), (''REASONING_END'', REASONING_END),
      (''REASONING_ENCRYPTED_VALUE'', REASONING_ENCRYPTED_VALUE), (''SUBAGENT_STARTED'', SUBAGENT_STARTED),
      (''SUBAGENT_FINISHED'', SUBAGENT_FINISHED), (''SUBAGENT_ERROR'', SUBAGENT_ERROR)]"

definition type_of_name :: "string \<Rightarrow> event_type" where
  "type_of_name n = (case map_of EVENT_TYPES n of Some t \<Rightarrow> t | None \<Rightarrow> OTHER_TYPE n)"

definition type_name :: "event_type \<Rightarrow> string" where
  "type_name t =
     (case t of OTHER_TYPE n \<Rightarrow> n
      | _ \<Rightarrow> (case find (\<lambda>p. snd p = t) EVENT_TYPES of Some p \<Rightarrow> fst p | None \<Rightarrow> []))"

definition event_of :: "js \<Rightarrow> event" where
  "event_of v = Event (type_of_name (text_of_string (jprop v ''type''))) (odel ''type'' (fields_of v))"

definition js_of :: "event \<Rightarrow> js" where
  "js_of e = JObj ((''type'', JStr (type_name (etype e))) # props e)"

subsection \<open>The pipeline\<close>

text \<open>A stage whose errors are tagged with where they arose.\<close>

definition lifted :: "('e \<Rightarrow> 'f) \<Rightarrow> ('s, 'a, 'e, 'b) stage \<Rightarrow> ('s, 'a, 'f, 'b) stage" where
  "lifted tag f st x = map_sum tag id (f st x)"

datatype pipeline_error =
    StreamFailed run_error
  | EnforcementFailed enforce_error
  | ExpansionFailed chunk_error
  | VerificationFailed verify_error

definition enforceEvents ::
    "(zod \<Rightarrow> bool) \<Rightarrow> (zod \<Rightarrow> js \<Rightarrow> js option) \<Rightarrow> event list \<times> pipeline_error option
      \<Rightarrow> event list \<times> pipeline_error option" where
  "enforceEvents optional parse source =
     (let (vs, err) = piped (lifted EnforcementFailed (enforce_event optional parse)) () (map js_of (fst source), snd source)
      in (map event_of vs, err))"

definition client_pipeline ::
    "(zod \<Rightarrow> bool) \<Rightarrow> (zod \<Rightarrow> js \<Rightarrow> js option) \<Rightarrow> event list \<times> pipeline_error option
      \<Rightarrow> event list \<times> pipeline_error option" where
  "client_pipeline optional parse source =
     piped (lifted VerificationFailed verify_event) initial_verify_state
       (piped (lifted ExpansionFailed chunk_event) initial_chunk_state
         (enforceEvents optional parse source))"

text \<open>What comes out of the middleware chain, or of \<open>connect\<close> behind the boundary, enters the pipeline.\<close>

definition from_stream :: "outcome \<Rightarrow> event list \<times> pipeline_error option" where
  "from_stream source = (fst source, map_option StreamFailed (snd source))"

definition run_stream ::
    "(zod \<Rightarrow> bool) \<Rightarrow> (zod \<Rightarrow> js \<Rightarrow> js option) \<Rightarrow> (nat \<Rightarrow> nat \<Rightarrow> string) \<Rightarrow> middleware list \<Rightarrow> agent_run \<Rightarrow> jobj
      \<Rightarrow> event list \<times> pipeline_error option" where
  "run_stream optional parse uuid middlewares agent input =
     client_pipeline optional parse (from_stream (chainedAgent uuid middlewares agent input))"

definition connect_stream ::
    "(zod \<Rightarrow> bool) \<Rightarrow> (zod \<Rightarrow> js \<Rightarrow> js option) \<Rightarrow> (nat \<Rightarrow> string) \<Rightarrow> agent_run \<Rightarrow> jobj
      \<Rightarrow> event list \<times> pipeline_error option" where
  "connect_stream optional parse uuid connection input =
     client_pipeline optional parse (from_stream (compatibilityBoundaryOperator uuid (connection input)))"

subsection \<open>Laws of tagged stages\<close>

lemma run_lifted: "run_stage (lifted tag f) st xs = (let (ys, err, t) = run_stage f st xs in (ys, map_option tag err, t))"
proof (induction xs arbitrary: st)
  case (Cons x xs)
  then show ?case by (cases "f st x") (auto simp: lifted_def split: prod.splits)
qed simp

lemma lifted_laws [simp]:
  "emitted (lifted tag f) st xs = emitted f st xs"
  "failure (lifted tag f) st xs = map_option tag (failure f st xs)"
  "final_state (lifted tag f) st xs = final_state f st xs"
  by (simp_all add: emitted_def failure_def final_state_def run_lifted split: prod.split)

lemma fst_piped [simp]: "fst (piped f st source) = emitted f st (fst source)"
  by (simp add: piped_def)

text \<open>The inputs a stage consumed before it failed, if it did.\<close>

lemma accepted_prefix:
  "\<exists>pre post. xs = pre @ post \<and> accepts f st pre \<and> emitted f st pre = emitted f st xs"
proof (induction xs arbitrary: st)
  case (Cons x xs)
  show ?case
  proof (cases "f st x")
    case (Inl err)
    then show ?thesis by (intro exI [of _ "[]"] exI [of _ "x # xs"]) simp
  next
    case (Inr r)
    obtain ys st' where r: "f st x = Inr (ys, st')" using Inr by (cases r) auto
    from Cons.IH [of st'] obtain pre post where "xs = pre @ post" "accepts f st' pre" "emitted f st' pre = emitted f st' xs"
      by blast
    with r show ?thesis by (intro exI [of _ "x # pre"] exI [of _ post]) simp
  qed
qed simp

subsection \<open>What a validator accepts\<close>

text \<open>
  The values a zod schema lets through, as far as the schema type says: the hypotheses below assume
  of \<open>parse\<close> only that what it returns for a schema has the schema's structure. A \<open>refine\<close> or
  a \<open>regex\<close> can only reject more.
\<close>

function validated :: "js \<Rightarrow> zod \<Rightarrow> bool" where
  "validated v (ZString pattern) = is_string v"
| "validated v ZBoolean = (case v of JBool b \<Rightarrow> True | _ \<Rightarrow> False)"
| "validated v (ZInt low high) = (case v of JNum n \<Rightarrow> low \<le> n \<and> n \<le> high | _ \<Rightarrow> False)"
| "validated v (ZAny check) = (case check of AnyValue \<Rightarrow> True | NotNull \<Rightarrow> v \<noteq> JNull | NotUndefined \<Rightarrow> v \<noteq> JUndef)"
| "validated v ZCustomObject = is_object v"
| "validated v (ZLiteral t) = (v = JStr t)"
| "validated v (ZEnum ts) = (v \<in> JStr ` set ts)"
| "validated v (ZObject shape specOpen) = (is_object v \<and> list_all (\<lambda>(k, s). validated (jprop v k) s) shape)"
| "validated v (ZArray n s) = (is_array v \<and> n \<le> length (elements v) \<and> list_all (\<lambda>x. validated x s) (elements v))"
| "validated v (ZRecord s) = (is_object v \<and> list_all (\<lambda>(k, x). validated x s) (fields_of v))"
| "validated v (ZUnion d options) = list_ex (validated v) options"
| "validated v (ZOptional s) = (v = JUndef \<or> validated v s)"
| "validated v (ZNullable s) = (v = JNull \<or> validated v s)"
| "validated v (ZDefault s) = validated v s"
| "validated v (ZReadonly s) = validated v s"
| "validated v (ZCatch s) = validated v s"
| "validated v (ZPipe i out) = validated v out"
| "validated v (ZLazy s) = validated v s"
| "validated v ZTransform = True"
  by pat_completeness auto
termination
  by (relation "measure (\<lambda>(v, s). size s)") (auto dest: size_field size_member)

definition sound_parser :: "(zod \<Rightarrow> js \<Rightarrow> js option) \<Rightarrow> bool" where
  "sound_parser parse \<longleftrightarrow> (\<forall>s v r. parse s v = Some r \<longrightarrow> validated r s)"

lemma validated_field: "validated v (ZObject shape specOpen) \<Longrightarrow> map_of shape k = Some s \<Longrightarrow> validated (jprop v k) s"
  by (auto dest!: map_of_SomeD simp: list_all_iff)

lemma event_schema_fields:
  "map_of EVENT_SCHEMA_BY_TYPE (JStr ''MESSAGES_SNAPSHOT'') = Some MessagesSnapshotEventSchema"
  "map_of EVENT_SCHEMA_BY_TYPE (JStr ''RUN_STARTED'') = Some RunStartedEventSchema"
  "map_of EVENT_SCHEMA_BY_TYPE (JStr ''RUN_FINISHED'') = Some RunFinishedEventSchema"
  by code_simp+

lemma event_types_literal:
  "list_all (\<lambda>s. case map_of (object_shape s) ''type'' of Some f \<Rightarrow> is_literal f | None \<Rightarrow> False) (union_options EventSchema)"
  by code_simp

lemma parsed_type:
  assumes "map_of EVENT_SCHEMA_BY_TYPE t = Some s" and "validated y s"
  shows "jprop y ''type'' = t"
proof -
  from map_of_SomeD [OF assms(1)] have s: "s \<in> set (union_options EventSchema)"
    and t: "t = literalValueOf (map_of (object_shape s) ''type'')" by (auto simp: EVENT_SCHEMA_BY_TYPE_def)
  from s event_types_literal obtain n where n: "map_of (object_shape s) ''type'' = Some (ZLiteral n)"
    by (auto simp: list_all_iff is_literal_iff split: option.splits)
  then obtain shape specOpen where "s = ZObject shape specOpen" by (cases s) simp_all
  with validated_field [of y shape specOpen] assms(2) n t show ?thesis by fastforce
qed

lemma enforced_event:
  assumes "sound_parser parse" and "y \<in> set (emitted (enforce_event optional parse) st vs)"
  shows "\<exists>s. map_of EVENT_SCHEMA_BY_TYPE (jprop y ''type'') = Some s \<and> validated y s"
proof -
  have "\<forall>y \<in> set (emitted (enforce_event optional parse) st vs). \<exists>s v t. map_of EVENT_SCHEMA_BY_TYPE t = Some s \<and> parse s v = Some y"
    by (rule emitted_only) (auto simp: enforce_event_def split: if_splits option.splits sum.splits prod.splits, blast)
  with assms parsed_type show ?thesis unfolding sound_parser_def by metis
qed

lemma attr_event_of [simp]: "k \<noteq> ''type'' \<Longrightarrow> attr (event_of v) k = jprop v k"
  by (cases v) (simp_all add: event_of_def)

lemma type_names:
  "type_of_name n = MESSAGES_SNAPSHOT \<Longrightarrow> n = ''MESSAGES_SNAPSHOT''"
  "type_of_name n = RUN_STARTED \<Longrightarrow> n = ''RUN_STARTED''"
  "type_of_name n = RUN_FINISHED \<Longrightarrow> n = ''RUN_FINISHED''"
  by (auto simp: type_of_name_def EVENT_TYPES_def split: if_splits)

lemma arrays_validated:
  "validated v MessagesSnapshotEventSchema \<Longrightarrow> is_array (jprop v ''messages'')"
  "validated v RunStartedEventSchema \<Longrightarrow>
     jprop v ''input'' = JUndef \<or> is_array (jprop (jprop v ''input'') ''messages'')"
  "validated v RunFinishedEventSchema \<Longrightarrow> jprop (jprop v ''outcome'') ''type'' = JStr ''interrupt'' \<Longrightarrow>
     is_array (jprop (jprop v ''outcome'') ''interrupts'')"
proof -
  show "validated v MessagesSnapshotEventSchema \<Longrightarrow> is_array (jprop v ''messages'')"
    unfolding MessagesSnapshotEventSchema_def by (drule validated_field [where k = "''messages''"], simp, simp only: validated.simps)
  have input: "validated w RunAgentInputSchema \<Longrightarrow> is_array (jprop w ''messages'')" for w
    unfolding RunAgentInputSchema_def by (drule validated_field [where k = "''messages''"], simp, simp only: validated.simps)
  have outcome: "validated w RunFinishedOutcomeSchema \<Longrightarrow> jprop w ''type'' = JStr ''interrupt'' \<Longrightarrow>
      is_array (jprop w ''interrupts'')" for w
    unfolding RunFinishedOutcomeSchema_def RunFinishedSuccessOutcomeSchema_def RunFinishedInterruptOutcomeSchema_def
      RunFinishedCancelledOutcomeSchema_def by auto
  show "validated v RunStartedEventSchema \<Longrightarrow> jprop v ''input'' = JUndef \<or> is_array (jprop (jprop v ''input'') ''messages'')"
    unfolding RunStartedEventSchema_def by (drule validated_field [where k = "''input''"]) (auto simp: input)
  show "validated v RunFinishedEventSchema \<Longrightarrow> jprop (jprop v ''outcome'') ''type'' = JStr ''interrupt'' \<Longrightarrow>
      is_array (jprop (jprop v ''outcome'') ''interrupts'')"
    unfolding RunFinishedEventSchema_def by (drule validated_field [where k = "''outcome''"]) (auto simp: outcome)
qed

lemma enforced_no_fault:
  assumes "map_of EVENT_SCHEMA_BY_TYPE (jprop y ''type'') = Some s" and "validated y s" and "\<not> is_chunk (event_of y)"
  shows "apply_fault (event_of y) = None"
proof -
  have "jprop y ''type'' \<in> fst ` set EVENT_SCHEMA_BY_TYPE" 
    using map_of_SomeD [OF assms(1)] by (rule image_eqI [rotated]) simp
  then have "jprop y ''type'' \<in> JStr ` set KNOWN_EVENT_TYPES"
    unfolding set_map [symmetric] event_schema_keys .
  then obtain n where n: "jprop y ''type'' = JStr n" by auto
  then have e: "etype (event_of y) = type_of_name n" by (simp add: event_of_def)
  have m: "is_array (jprop y ''messages'')" if t: "etype (event_of y) = MESSAGES_SNAPSHOT"
  proof -
    have "n = ''MESSAGES_SNAPSHOT''" by (rule type_names(1)) (use e t in simp)
    then have "s = MessagesSnapshotEventSchema" using assms(1) n event_schema_fields(1) by (metis option.inject)
    then show ?thesis using arrays_validated(1) assms(2) by metis
  qed
  have r: "jprop y ''input'' = JUndef \<or> is_array (jprop (jprop y ''input'') ''messages'')"
    if t: "etype (event_of y) = RUN_STARTED"
  proof -
    have "n = ''RUN_STARTED''" by (rule type_names(2)) (use e t in simp)
    then have "s = RunStartedEventSchema" using assms(1) n event_schema_fields(2) by (metis option.inject)
    then show ?thesis using arrays_validated(2) assms(2) by metis
  qed
  have f: "is_array (jprop (jprop y ''outcome'') ''interrupts'')"
    if t: "etype (event_of y) = RUN_FINISHED" and o: "jprop (jprop y ''outcome'') ''type'' = JStr ''interrupt''"
  proof -
    have "n = ''RUN_FINISHED''" by (rule type_names(3)) (use e t in simp)
    then have "s = RunFinishedEventSchema" using assms(1) n event_schema_fields(3) by (metis option.inject)
    then show ?thesis using arrays_validated(3) assms(2) o by metis
  qed
  have c: "etype (event_of y) \<notin> {TEXT_MESSAGE_CHUNK, TOOL_CALL_CHUNK, REASONING_MESSAGE_CHUNK}"
    using assms(3) by (simp add: is_chunk_iff)
  have a: "attr (event_of y) ''input'' = jprop y ''input''" "attr (event_of y) ''outcome'' = jprop y ''outcome''"
    "attr (event_of y) ''messages'' = jprop y ''messages''" by simp_all
  show ?thesis
    unfolding apply_fault_def Let_def a if_not_P [OF c]
  proof (rule if_not_P, safe)
    assume "etype (event_of y) = RUN_STARTED" "truthy (jprop (jprop y ''input'') ''messages'')"
      "\<not> is_array (jprop (jprop y ''input'') ''messages'')"
    with r show False by auto
  qed (use m f in blast)+
qed

text \<open>Expansion and verification keep events harmless.\<close>

lemma synthesized_no_fault:
  "etype x \<in> range content_type \<union> range start_type \<union> range end_type \<Longrightarrow> apply_fault x = None"
proof -
  assume "etype x \<in> range content_type \<union> range start_type \<union> range end_type"
  then obtain kind where "etype x = content_type kind \<or> etype x = start_type kind \<or> etype x = end_type kind" by blast
  then show ?thesis by (cases kind) (auto simp: apply_fault_def Let_def)
qed

lemma expansion_no_fault:
  assumes "lane_inv st" and "chunk_event st e = Inr (out, st')" and "is_chunk e \<or> apply_fault e = None"
  shows "\<forall>x \<in> set out. apply_fault x = None"
proof (cases "is_chunk e")
  case True
  then obtain kind where "etype e = chunk_type kind" by (auto simp: is_chunk_def)
  from chunk_event_expands [OF assms(2) this] have "etype ` set out \<subseteq> {content_type kind, start_type kind} \<union> range end_type"
    by (rule expands_types)
  then have "etype x \<in> range content_type \<union> range start_type \<union> range end_type" if "x \<in> set out" for x
    using that by auto
  then show ?thesis using synthesized_no_fault by blast
next
  case False
  with explicit_event_step [OF assms(1) False] assms(2,3) show ?thesis
    by (auto intro: synthesized_no_fault)
qed

lemma expanded_no_fault:
  assumes "lane_inv st" and "\<forall>e \<in> set es. is_chunk e \<or> apply_fault e = None"
  shows "\<forall>x \<in> set (emitted chunk_event st es). apply_fault x = None"
  using assms
proof (induction es arbitrary: st)
  case (Cons e es)
  show ?case
  proof (cases "chunk_event st e")
    case (Inr r)
    obtain out st' where r: "chunk_event st e = Inr (out, st')" using Inr by (cases r) auto
    then have "lane_inv st'" using Cons.prems(1) by (rule expander.step_inv [rotated])
    with Cons expansion_no_fault [OF Cons.prems(1) r] r show ?thesis by auto
  qed simp
qed simp

lemma clean_no_fault: "apply_fault (clean e) = apply_fault e"
proof -
  have "attr (clean e) ''input'' = attr e ''input''" "attr (clean e) ''outcome'' = attr e ''outcome''"
    "attr (clean e) ''messages'' = attr e ''messages''" by (simp_all add: attr_clean)
  then show ?thesis unfolding apply_fault_def by (simp only: etype_clean)
qed

lemma verified_again: "accepts verify_event initial_verify_state (emitted verify_event initial_verify_state es)"
proof -
  obtain pre post where pre: "accepts verify_event initial_verify_state pre"
    and same: "emitted verify_event initial_verify_state pre = emitted verify_event initial_verify_state es"
    using accepted_prefix [of es verify_event initial_verify_state] by blast
  obtain n where "emitted verify_event initial_verify_state pre = map clean (take n pre)" "n = length pre"
    using emitted_clean [of initial_verify_state pre] pre by blast
  then have "emitted verify_event initial_verify_state pre = map clean pre" by simp
  with run_same [of initial_verify_state initial_verify_state pre] pre same show ?thesis
    by (simp add: accepts_def same_but_notice_def)
qed

lemma initially_closed: "\<not> is_open initial_verify_state k"
  by (cases k) (simp_all add: initial_verify_state_def is_open.simps(6))

lemma accepts_all:
  assumes "\<And>st e. e \<in> set es \<Longrightarrow> \<exists>r. f st e = Inr r"
  shows "accepts f st es"
  using assms
proof (induction es arbitrary: st)
  case (Cons e es)
  from Cons.prems [of e st] obtain ys st' where "f st e = Inr (ys, st')" by (auto simp: split_paired_Ex)
  with Cons show ?case by simp
qed simp

lemma chunk_fault: "is_chunk e \<Longrightarrow> apply_fault e \<noteq> None"
  unfolding is_chunk_iff apply_fault_def Let_def by (simp only: if_True option.distinct not_False_eq_True)

lemma pipeline_stages:
  "fst (client_pipeline optional parse source) =
     emitted verify_event initial_verify_state (emitted chunk_event initial_chunk_state
       (map event_of (emitted (enforce_event optional parse) () (map js_of (fst source)))))"
  by (simp add: client_pipeline_def enforceEvents_def split: prod.split) (simp add: piped_def)

lemma checked_stream_harmless:
  assumes "sound_parser parse" and "e \<in> set (fst (client_pipeline optional parse source))"
  shows "apply_fault e = None"
proof -
  let ?vs = "emitted (enforce_event optional parse) () (map js_of (fst source))"
  let ?xs = "emitted chunk_event initial_chunk_state (map event_of ?vs)"
  have "\<forall>e \<in> set (map event_of ?vs). is_chunk e \<or> apply_fault e = None"
    using enforced_event [OF assms(1)] enforced_no_fault by fastforce
  then have x: "\<forall>e \<in> set ?xs. apply_fault e = None" by (rule expanded_no_fault [OF lane_inv_initial])
  have "e \<in> clean ` set ?xs"
    using assms(2) emitted_clean [of initial_verify_state ?xs] set_take_subset unfolding pipeline_stages by fastforce
  with x show ?thesis by (auto simp: clean_no_fault)
qed

lemma checked_stream_accepted:
  assumes "sound_parser parse" and "observing env"
  shows "accepts (apply_event env) st (fst (client_pipeline optional parse source))"
proof (rule accepts_all)
  fix st :: "'a apply_state" and e assume "e \<in> set (fst (client_pipeline optional parse source))"
  with checked_stream_harmless [OF assms(1)] switch_verdict [OF assms(2), of e "observed env (OnEvent e) st"]
  show "\<exists>r. apply_event env st e = Inr r"
    by (fastforce simp: apply_event_def observing_run_hook [OF assms(2)])
qed

text \<open>
  C2. Whatever an agent, a middleware or a server sends, the reducer only ever sees checked events:
  those that leave the pipeline are well bracketed for every message, call, step, span and subagent,
  none is a chunk, and the reducer accepts them all - given a validator whose results have the
  structure of their schema and subscribers that observe.
\<close>

theorem reducer_fed_by_checked_events:
  assumes "sound_parser parse" and "observing env"
    and "es = fst (client_pipeline optional parse source)"
  shows "accepts (apply_event env) st es \<and> filter is_chunk es = [] \<and>
    token_run False (map (lifecycle_token k) es) \<noteq> None"
proof (intro conjI)
  show "accepts (apply_event env) st es" unfolding assms(3) by (rule checked_stream_accepted [OF assms(1,2)])
  show "filter is_chunk es = []"
    using checked_stream_harmless [OF assms(1)] chunk_fault unfolding assms(3) filter_empty_conv by metis
  show "token_run False (map (lifecycle_token k) es) \<noteq> None"
    unfolding assms(3) pipeline_stages
    using verifier.accepted_token_run [OF verify_inv_initial verified_again, of k] initially_closed [of k] by simp
qed

text \<open>A validator that only checks, and a raw stream with a chunk and an unknown property.\<close>

definition checking_parse :: "zod \<Rightarrow> js \<Rightarrow> js option" where
  "checking_parse s v = (if validated v s then Some v else None)"

definition raw_run :: "event list" where
  "raw_run =
     [ev RUN_STARTED [(''threadId'', ''t''), (''runId'', ''r'')],
      ev TEXT_MESSAGE_CHUNK [(''messageId'', ''m''), (''delta'', ''Hi''), (''bogus'', ''x'')],
      ev (OTHER_TYPE ''FUTURE_EVENT'') [],
      ev RUN_FINISHED [(''threadId'', ''t''), (''runId'', ''r'')]]"

lemma raw_run_checked:
  "fst (client_pipeline is_optional checking_parse (raw_run, None)) =
     [ev RUN_STARTED [(''threadId'', ''t''), (''runId'', ''r'')],
      ev TEXT_MESSAGE_START [(''messageId'', ''m''), (''role'', ''assistant'')],
      ev TEXT_MESSAGE_CONTENT [(''messageId'', ''m''), (''delta'', ''Hi'')],
      ev TEXT_MESSAGE_END [(''messageId'', ''m'')],
      ev RUN_FINISHED [(''threadId'', ''t''), (''runId'', ''r'')]]"
  by code_simp

lemma checking_sound: "sound_parser checking_parse"
  by (simp add: sound_parser_def checking_parse_def)

theorem reducer_fed_by_checked_events_witness:
  "length (fst (client_pipeline is_optional checking_parse (raw_run, None))) = 5 \<and>
   accepts (apply_event demo_env) demo_start (fst (client_pipeline is_optional checking_parse (raw_run, None))) \<and>
   filter is_chunk (fst (client_pipeline is_optional checking_parse (raw_run, None))) = [] \<and>
   token_run False (map (lifecycle_token (MessageKey (JStr ''m'')))
     (fst (client_pipeline is_optional checking_parse (raw_run, None)))) \<noteq> None"
proof (rule conjI)
  show "length (fst (client_pipeline is_optional checking_parse (raw_run, None))) = 5" by (simp add: raw_run_checked)
qed (rule reducer_fed_by_checked_events [OF checking_sound observing_demo refl])

end
