(* ===== verification/AGUI_Agent.thy ===== *)
theory AGUI_Agent
  imports AGUI_Pipeline
begin

section \<open>The agent\<close>

text \<open>
  The agent of \<^verbatim>\<open>client/src/agent/agent.ts\<close> around the pipeline: the shims its peer
  asks for, the input it sends, the interrupt rules of \<open>onInitialize\<close> with the helpers of
  \<^verbatim>\<open>client/src/interrupts\<close>, and the run itself.

  \<^item> \<open>structuredClone\<close> is the identity on values. Debug logging and detaching a run are left
    out: a run is the sequence of its events.
  \<^item> A subscriber is told of every replacement of the messages or the state right after it, before
    the next event is applied; a callback that throws there ends the run, one whose promise is
    rejected does not. What a throwing callback did to its own state is not kept.
\<close>

subsection \<open>The producer's declaration\<close>

datatype declared_protocol = Newer | NotNewer | Uninterpretable

definition digit :: "char \<Rightarrow> bool" where
  "digit c \<longleftrightarrow> 48 \<le> (of_char c :: nat) \<and> of_char c \<le> (57 :: nat)"

text \<open>The expression \<open>^\d+\.\d+$\<close>.\<close>

definition two_components :: "string \<Rightarrow> bool" where
  "two_components v =
     (let minor = dropWhile digit v in
      takeWhile digit v \<noteq> [] \<and> take 1 minor = ''.'' \<and> tl minor \<noteq> [] \<and> list_all digit (tl minor))"

definition compareDeclaredProtocol :: "(string \<Rightarrow> string \<Rightarrow> int) \<Rightarrow> string \<Rightarrow> string \<Rightarrow> declared_protocol" where
  "compareDeclaredProtocol compareVersions declared spoken =
     (if \<not> two_components declared then Uninterpretable
      else if 0 < compareVersions declared spoken then Newer else NotNewer)"

text \<open>The declaration the client warns about, and how it judges it.\<close>

definition warnOnProducerDeclaration ::
    "(string \<Rightarrow> string \<Rightarrow> int) \<Rightarrow> string \<Rightarrow> event \<Rightarrow> declared_protocol option" where
  "warnOnProducerDeclaration compareVersions PROTOCOL_VERSION e =
     (let declared = attr e ''protocolVersion'' in
      if declared = JUndef \<or> declared = JStr PROTOCOL_VERSION then None
      else case compareDeclaredProtocol compareVersions (text_of declared) PROTOCOL_VERSION of
          NotNewer \<Rightarrow> None
        | verdict \<Rightarrow> Some verdict)"

subsection \<open>Interrupts\<close>

definition getRunOutcome :: "event \<Rightarrow> js" where
  "getRunOutcome e = attr e ''outcome''"

text \<open>\<open>new Date(v)\<close>, in milliseconds, is a parameter; an invalid date compares with nothing.\<close>

definition isInterruptExpired :: "(js \<Rightarrow> int option) \<Rightarrow> int \<Rightarrow> js \<Rightarrow> bool" where
  "isInterruptExpired date now interrupt =
     (let expiresAt = jprop interrupt ''expiresAt'' in
      expiresAt \<noteq> JUndef \<and> (case date expiresAt of Some t \<Rightarrow> t \<le> now | None \<Rightarrow> False))"

datatype resume_error = MissingResponses "js list" | UnknownInterrupts "string list"

text \<open>The responses are an object, its keys interrupt identifiers.\<close>

fun response_of :: "jobj \<Rightarrow> js \<Rightarrow> js" where
  "response_of responses (JStr i) = oget responses i"
| "response_of responses _ = JUndef"

definition resume_entry :: "jobj \<Rightarrow> js \<Rightarrow> js" where
  "resume_entry responses interrupt =
     (let r = response_of responses (jprop interrupt ''id'') in
      JObj ([(''interruptId'', jprop interrupt ''id''), (''status'', jprop r ''status'')] @
        (if jprop r ''status'' = JStr ''resolved'' then opt_field ''payload'' (jprop r ''payload'') else []) @
        opt_field ''metadata'' (jprop r ''metadata'')))"

definition buildResumeArray :: "js list \<Rightarrow> jobj \<Rightarrow> resume_error + js list" where
  "buildResumeArray interrupts responses =
     (let openIds = map (\<lambda>i. jprop i ''id'') interrupts;
          responseIds = map fst responses;
          missing = filter (\<lambda>i. i \<notin> JStr ` set responseIds) (fold sadd openIds []);
          unknown = filter (\<lambda>i. JStr i \<notin> set openIds) responseIds in
      if missing \<noteq> [] then Inl (MissingResponses missing)
      else if unknown \<noteq> [] then Inl (UnknownInterrupts unknown)
      else Inr (map (resume_entry responses) interrupts))"

subsection \<open>The agent's state\<close>

record agent_state =
  threadId :: string
  ag_messages :: "jobj list"
  ag_state :: js
  isRunning :: bool
  ag_interrupts :: "js list"
  middlewares :: "middleware list"
  maxProtocolVersion :: string

record run_parameters =
  runId_parameter :: js
  tools_parameter :: js
  context_parameter :: js
  forwarded_parameter :: js
  resume_parameter :: js

definition no_parameters :: run_parameters where
  "no_parameters = \<lparr>runId_parameter = JUndef, tools_parameter = JUndef, context_parameter = JUndef,
     forwarded_parameter = JUndef, resume_parameter = JUndef\<rparr>"

definition or_else :: "js \<Rightarrow> js \<Rightarrow> js" where
  "or_else v w = (if nullish v then w else v)"

text \<open>The constructor: the shims the peer's ceiling asks for, and the initial conversation.\<close>

definition AbstractAgent ::
    "(string \<Rightarrow> string \<Rightarrow> int) \<Rightarrow> (string \<Rightarrow> bool) \<Rightarrow> string \<Rightarrow> string \<Rightarrow> jobj list \<Rightarrow> js \<Rightarrow> agent_state option" where
  "AbstractAgent compareVersions validateVersion peerCeiling thread initialMessages initialState =
     (if \<not> validateVersion peerCeiling then None
      else Some \<lparr>threadId = thread, ag_messages = initialMessages, ag_state = or_else initialState (JObj []),
        isRunning = False, ag_interrupts = [], middlewares = peer_shims compareVersions peerCeiling,
        maxProtocolVersion = peerCeiling\<rparr>)"

definition use_middlewares :: "middleware list \<Rightarrow> agent_state \<Rightarrow> agent_state" where
  "use_middlewares mws ag = ag\<lparr>middlewares := middlewares ag @ mws\<rparr>"

text \<open>
  \<open>prepareRunAgentInput\<close>: no null attribution and no activity message leaves the client, and the
  protocol version is declared only to a peer that is not pinned below this client.
\<close>

definition is_activity_message :: "jobj \<Rightarrow> bool" where
  "is_activity_message m \<longleftrightarrow> oget m ''role'' = JStr ''activity''"

definition prepareRunAgentInput ::
    "(string \<Rightarrow> string \<Rightarrow> int) \<Rightarrow> string \<Rightarrow> string \<Rightarrow> string \<Rightarrow> run_parameters \<Rightarrow> agent_state \<Rightarrow> jobj" where
  "prepareRunAgentInput compareVersions packageVersion PROTOCOL_VERSION uuid parameters ag =
     (let clonedMessages = map without_null_tag (ag_messages ag);
          messagesWithoutActivity = filter (\<lambda>m. \<not> is_activity_message m) clonedMessages in
      [(''threadId'', JStr (threadId ag)),
       (''runId'', if truthy (runId_parameter parameters) then runId_parameter parameters else JStr uuid)] @
      (if 0 \<le> compareVersions (maxProtocolVersion ag) packageVersion
       then [(''protocolVersion'', JStr PROTOCOL_VERSION)] else []) @
      [(''tools'', or_else (tools_parameter parameters) (JArr [])),
       (''context'', or_else (context_parameter parameters) (JArr [])),
       (''forwardedProps'', or_else (forwarded_parameter parameters) (JObj [])),
       (''state'', ag_state ag),
       (''messages'', JArr (map JObj messagesWithoutActivity))] @
      opt_field ''resume'' (resume_parameter parameters))"

subsection \<open>Starting a run\<close>

datatype init_error =
    UnaddressedInterrupts "js list"
  | InterruptExpired js
  | InitializerFailed apply_error

text \<open>\<open>(input.resume ?? []).find(r => r.interruptId === id)\<close>.\<close>

definition resume_for :: "jobj \<Rightarrow> js \<Rightarrow> js" where
  "resume_for input i =
     (case find (\<lambda>r. jprop r ''interruptId'' = i) (elements (oget input ''resume'')) of Some r \<Rightarrow> r | None \<Rightarrow> JUndef)"

definition check_interrupts :: "(js \<Rightarrow> int option) \<Rightarrow> int \<Rightarrow> jobj \<Rightarrow> js list \<Rightarrow> init_error option" where
  "check_interrupts date now input interrupts =
     (let resumeIds = map (\<lambda>r. jprop r ''interruptId'') (elements (oget input ''resume''));
          uncovered = filter (\<lambda>i. i \<notin> set resumeIds) (map (\<lambda>i. jprop i ''id'') interrupts) in
      if uncovered \<noteq> [] then Some (UnaddressedInterrupts uncovered)
      else map_option (\<lambda>i. InterruptExpired (jprop i ''id''))
        (find (\<lambda>i. isInterruptExpired date now i \<and>
            jprop (resume_for input (jprop i ''id'')) ''status'' \<noteq> JStr ''cancelled'') interrupts))"

subsection \<open>Writing to the agent\<close>

definition notified ::
    "'w apply_env \<Rightarrow> hook_call \<Rightarrow> 'w \<Rightarrow> agent_state \<Rightarrow> apply_error option \<times> 'w" where
  "notified env call w ag =
     (case notify_all False (subscribers env) call w (ag_messages ag) (ag_state ag) False of
        Inl err \<Rightarrow> (Some err, w)
      | Inr w' \<Rightarrow> (None, w'))"

definition replace_messages ::
    "'w apply_env \<Rightarrow> jobj list option \<Rightarrow> 'w \<Rightarrow> agent_state \<Rightarrow> apply_error option \<times> 'w \<times> agent_state" where
  "replace_messages env replacement w ag =
     (case replacement of
        None \<Rightarrow> (None, w, ag)
      | Some ms \<Rightarrow>
          (let ag1 = ag\<lparr>ag_messages := ms\<rparr>; (err, w1) = notified env OnMessagesChanged w ag1 in (err, w1, ag1)))"

definition replace_state ::
    "'w apply_env \<Rightarrow> js \<Rightarrow> 'w \<Rightarrow> agent_state \<Rightarrow> apply_error option \<times> 'w \<times> agent_state" where
  "replace_state env replacement w ag =
     (if replacement = JUndef then (None, w, ag)
      else (let ag1 = ag\<lparr>ag_state := replacement\<rparr>; (err, w1) = notified env OnStateChanged w ag1 in (err, w1, ag1)))"

text \<open>One mutation: the messages first, then, unless a callback threw, the state.\<close>

definition write_mutation ::
    "'w apply_env \<Rightarrow> agent_mutation \<Rightarrow> 'w \<Rightarrow> agent_state \<Rightarrow> apply_error option \<times> 'w \<times> agent_state" where
  "write_mutation env m w ag =
     (case replace_messages env (m_messages m) w ag of
        (Some err, w1, ag1) \<Rightarrow> (Some err, w1, ag1)
      | (None, w1, ag1) \<Rightarrow> replace_state env (m_state m) w1 ag1)"

text \<open>
  A subscriber's \<open>onRunInitialized\<close> may replace the messages and the state, of the agent and of
  the input that goes out. \<open>answering\<close> tells a run started by \<open>runAgent\<close> from \<open>connectAgent\<close>.
\<close>

definition onInitialize ::
    "(js \<Rightarrow> int option) \<Rightarrow> int \<Rightarrow> 'w apply_env \<Rightarrow> bool \<Rightarrow> jobj \<Rightarrow> 'w \<Rightarrow> agent_state
      \<Rightarrow> (init_error + jobj) \<times> 'w \<times> agent_state" where
  "onInitialize date now env answering input w ag =
     (case (if answering then check_interrupts date now input (ag_interrupts ag) else None) of
        Some err \<Rightarrow> (Inl err, w, ag)
      | None \<Rightarrow>
          (case runSubscribersWithMutation env OnRunInitialized w (ag_messages ag) (ag_state ag) of
             Inl err \<Rightarrow> (Inl (InitializerFailed err), w, ag)
           | Inr (w', m) \<Rightarrow>
               (let clean = map_option (map without_null_tag) (m_messages m);
                    input1 = (case clean of None \<Rightarrow> input
                      | Some ms \<Rightarrow> oset ''messages'' (JArr (map JObj (filter (\<lambda>m. \<not> is_activity_message m) ms))) input);
                    input2 = (if m_state m = JUndef then input1 else oset ''state'' (m_state m) input1) in
                case write_mutation env (m\<lparr>m_messages := clean\<rparr>) w' ag of
                  (Some err, w'', ag') \<Rightarrow> (Inl (InitializerFailed err), w'', ag')
                | (None, w'', ag') \<Rightarrow> (Inr input2, w'', ag'))))"

subsection \<open>A run\<close>

text \<open>What \<open>runAgent\<close> takes from its surroundings.\<close>

record 'w surroundings =
  optional_schema :: "zod \<Rightarrow> bool"
  parse_schema :: "zod \<Rightarrow> js \<Rightarrow> js option"
  uuids :: "nat \<Rightarrow> nat \<Rightarrow> string"
  run_uuid :: string
  compare_versions :: "string \<Rightarrow> string \<Rightarrow> int"
  package_version :: string
  protocol_version :: string
  date_of :: "js \<Rightarrow> int option"
  clock :: int
  app_subscribers :: "'w subscriber list"
  test_environment :: bool
  patcher :: "js \<Rightarrow> js \<Rightarrow> js option"
  is_abort :: "pipeline_error + apply_error \<Rightarrow> bool"
  not_implemented :: "pipeline_error + apply_error \<Rightarrow> bool"

text \<open>
  The first subscriber is the run's own: it keeps the result of a successful finish. The
  application's subscribers do not see where it is kept.
\<close>

definition result_subscriber :: "('w \<times> js) subscriber" where
  "result_subscriber wr call ms st =
     ((case call of
         OnTyped e params \<Rightarrow>
           (if etype e = RUN_FINISHED \<and> oget params ''outcome'' = JStr ''success'' then (fst wr, oget params ''result'') else wr)
       | _ \<Rightarrow> wr), NoMutation)"

definition app_subscriber :: "'w subscriber \<Rightarrow> ('w \<times> js) subscriber" where
  "app_subscriber s wr call ms st = (case s (fst wr) call ms st of (w', r) \<Rightarrow> ((w', snd wr), r))"

definition run_env :: "'w surroundings \<Rightarrow> ('w \<times> js) apply_env" where
  "run_env sur =
     \<lparr>subscribers = result_subscriber # map app_subscriber (app_subscribers sur),
      isTestEnvironment = test_environment sur, applyPatch = patcher sur\<rparr>"

text \<open>
  The events of a run, applied one after the other: the reducer's emissions are written to the
  agent (\<open>processApplyEvents\<close>) before the next event is reduced, and the reducer keeps the
  pending interrupts on the agent itself. The empty mutation that an eventless stream ends with
  changes nothing.
\<close>

record 'w running =
  reducing :: "'w apply_state"
  running_agent :: agent_state
  apply_failure :: "apply_error option"

definition processApplyEvents :: "'w apply_env \<Rightarrow> agent_mutation \<Rightarrow> 'w running \<Rightarrow> 'w running" where
  "processApplyEvents env m r =
     (if apply_failure r \<noteq> None then r
      else case write_mutation env m (world (reducing r)) (running_agent r) of
        (err, w, ag) \<Rightarrow> r\<lparr>reducing := (reducing r)\<lparr>world := w\<rparr>, running_agent := ag, apply_failure := err\<rparr>)"

definition apply_to_agent :: "'w apply_env \<Rightarrow> event \<Rightarrow> 'w running \<Rightarrow> 'w running" where
  "apply_to_agent env e r =
     (if apply_failure r \<noteq> None then r
      else case apply_event env (reducing r) e of
        Inl err \<Rightarrow> r\<lparr>apply_failure := Some err\<rparr>
      | Inr (muts, st) \<Rightarrow>
          fold (processApplyEvents env) muts
            (r\<lparr>reducing := st, running_agent := (running_agent r)\<lparr>ag_interrupts := pendingInterrupts st\<rparr>\<rparr>))"

text \<open>
  \<open>applyBeforeSourceError\<close>: everything received is applied first, then the error that ended the
  source is passed on.
\<close>

definition applyBeforeSourceError ::
    "'w apply_env \<Rightarrow> event list \<times> pipeline_error option \<Rightarrow> 'w running
      \<Rightarrow> (pipeline_error + apply_error) option \<times> 'w \<times> agent_state" where
  "applyBeforeSourceError env source r =
     (let r' = fold (apply_to_agent env) (fst source) r in
      (case apply_failure r' of Some err \<Rightarrow> Some (Inr err) | None \<Rightarrow> map_option Inl (snd source),
       world (reducing r'), running_agent r'))"

datatype run_failure =
    NotInitialized init_error
  | RunFailed "pipeline_error + apply_error"
  | FailureHandlerFailed apply_error

text \<open>\<open>onError\<close>: a subscriber may take the error over; an abort is silent.\<close>

definition onError ::
    "'w apply_env \<Rightarrow> (pipeline_error + apply_error \<Rightarrow> bool) \<Rightarrow> pipeline_error + apply_error \<Rightarrow> 'w \<Rightarrow> agent_state
      \<Rightarrow> run_failure option \<times> 'w \<times> agent_state" where
  "onError env isAbort err w ag =
     (case runSubscribersWithMutation env OnRunFailed w (ag_messages ag) (ag_state ag) of
        Inl e \<Rightarrow> (Some (FailureHandlerFailed e), w, ag)
      | Inr (w', m) \<Rightarrow>
          (case write_mutation env m w' ag of
             (Some e, w'', ag') \<Rightarrow> (Some (FailureHandlerFailed e), w'', ag')
           | (None, w'', ag') \<Rightarrow> (if m_stop m \<or> isAbort err then None else Some (RunFailed err), w'', ag')))"

text \<open>\<open>onFinalize\<close> runs on its own once the stream has ended; nobody waits for it.\<close>

definition onFinalize ::
    "'w apply_env \<Rightarrow> 'w \<Rightarrow> agent_state \<Rightarrow> apply_error option \<times> 'w \<times> agent_state" where
  "onFinalize env w ag =
     (case runSubscribersWithMutation env OnRunFinalized w (ag_messages ag) (ag_state ag) of
        Inl e \<Rightarrow> (Some e, w, ag)
      | Inr (w', m) \<Rightarrow> write_mutation env m w' ag)"

definition newMessages :: "jobj list \<Rightarrow> jobj list \<Rightarrow> jobj list" where
  "newMessages before after =
     filter (\<lambda>m. oget m ''id'' \<notin> set (map (\<lambda>m. oget m ''id'') before)) after"

text \<open>
  The part \<open>runAgent\<close> and \<open>connectAgent\<close> share: initialize, stream, apply, settle.
\<close>

definition perform_run ::
    "'w surroundings \<Rightarrow> bool \<Rightarrow> (pipeline_error + apply_error \<Rightarrow> bool) \<Rightarrow> (middleware list \<Rightarrow> jobj \<Rightarrow> event list \<times> pipeline_error option) \<Rightarrow> jobj \<Rightarrow> 'w \<Rightarrow> agent_state
      \<Rightarrow> (run_failure + js \<times> jobj list) \<times> 'w \<times> agent_state" where
  "perform_run sur answering ignored stream input w ag =
     (let env = run_env sur in
      case onInitialize (date_of sur) (clock sur) env answering input (w, JUndef) ag of
        (Inl err, wr, ag1) \<Rightarrow> (Inl (NotInitialized err), fst wr, ag1\<lparr>isRunning := False\<rparr>)
      | (Inr input', wr, ag1) \<Rightarrow>
          (let st = initial_apply_state (ag_messages ag1) (oget input' ''state'') (ag_interrupts ag1) wr;
               (err, wr', ag2) = applyBeforeSourceError env (stream (middlewares ag1) input')
                 \<lparr>reducing = st, running_agent = ag1, apply_failure = None\<rparr>;
               (failed, wr'', ag3) =
                 (case err of
                    None \<Rightarrow> (None, wr', ag2)
                  | Some err \<Rightarrow> if ignored err then (None, wr', ag2) else onError env (is_abort sur) err wr' ag2);
               ag4 = ag3\<lparr>isRunning := False\<rparr> in
           case failed of
             Some f \<Rightarrow> (Inl f, fst wr'', ag4)
           | None \<Rightarrow> (Inr (snd wr'', newMessages (ag_messages ag) (ag_messages ag4)), fst wr'', ag4)))"

definition run_input :: "'w surroundings \<Rightarrow> run_parameters \<Rightarrow> agent_state \<Rightarrow> jobj" where
  "run_input sur parameters ag =
     prepareRunAgentInput (compare_versions sur) (package_version sur) (protocol_version sur) (run_uuid sur) parameters ag"

definition runAgent ::
    "'w surroundings \<Rightarrow> agent_run \<Rightarrow> run_parameters \<Rightarrow> 'w \<Rightarrow> agent_state
      \<Rightarrow> (run_failure + js \<times> jobj list) \<times> 'w \<times> agent_state" where
  "runAgent sur run parameters w ag =
     perform_run sur True (\<lambda>err. False)
       (\<lambda>mws input. run_stream (optional_schema sur) (parse_schema sur) (uuids sur) mws run input)
       (run_input sur parameters ag) w (ag\<lparr>isRunning := True\<rparr>)"

definition connectAgent ::
    "'w surroundings \<Rightarrow> agent_run \<Rightarrow> run_parameters \<Rightarrow> 'w \<Rightarrow> agent_state
      \<Rightarrow> (run_failure + js \<times> jobj list) \<times> 'w \<times> agent_state" where
  "connectAgent sur connect parameters w ag =
     perform_run sur False (not_implemented sur)
       (\<lambda>mws input. connect_stream (optional_schema sur) (parse_schema sur) (uuids sur 0) connect input)
       (run_input sur parameters ag) w (ag\<lparr>isRunning := True\<rparr>)"

subsection \<open>Resuming an interrupted thread\<close>

lemma sadd_all: "set (fold sadd xs ys) = set ys \<union> set xs"
  by (induction xs arbitrary: ys) auto

lemma resume_entry_fields [simp]:
  "jprop (resume_entry responses i) ''interruptId'' = jprop i ''id''"
  "jprop (resume_entry responses i) ''status'' = jprop (response_of responses (jprop i ''id'')) ''status''"
  by (simp_all add: resume_entry_def Let_def)

lemma resume_for_built:
  assumes "i \<in> set interrupts"
  shows "jprop (resume_for (oset ''resume'' (JArr (map (resume_entry responses) interrupts)) input) (jprop i ''id'')) ''status'' =
    jprop (response_of responses (jprop i ''id'')) ''status''"
  using assms by (induction interrupts) (auto simp: resume_for_def)

definition answers_exactly :: "js list \<Rightarrow> jobj \<Rightarrow> bool" where
  "answers_exactly interrupts responses \<longleftrightarrow>
     (\<lambda>i. jprop i ''id'') ` set interrupts = JStr ` fst ` set responses"

text \<open>
  C25. The answers \<open>buildResumeArray\<close> builds for the pending interrupts start the next run: when the
  responses address exactly the pending interrupts it succeeds, and the run is then refused only for
  an expired interrupt that was answered instead of cancelled; otherwise it fails.
\<close>

theorem built_resume_is_accepted:
  "if answers_exactly interrupts responses
   then \<exists>entries. buildResumeArray interrupts responses = Inr entries \<and>
     check_interrupts date now (oset ''resume'' (JArr entries) input) interrupts =
       map_option (\<lambda>i. InterruptExpired (jprop i ''id''))
         (find (\<lambda>i. isInterruptExpired date now i \<and>
            jprop (response_of responses (jprop i ''id'')) ''status'' \<noteq> JStr ''cancelled'') interrupts)
   else \<exists>err. buildResumeArray interrupts responses = Inl err"
proof (cases "answers_exactly interrupts responses")
  case True
  let ?entries = "map (resume_entry responses) interrupts"
  let ?input = "oset ''resume'' (JArr ?entries) input"
  have "buildResumeArray interrupts responses = Inr ?entries"
    using True by (fastforce simp: buildResumeArray_def answers_exactly_def Let_def filter_empty_conv sadd_all)
  moreover have "check_interrupts date now ?input interrupts =
       map_option (\<lambda>i. InterruptExpired (jprop i ''id''))
         (find (\<lambda>i. isInterruptExpired date now i \<and>
            jprop (resume_for ?input (jprop i ''id'')) ''status'' \<noteq> JStr ''cancelled'') interrupts)"
    by (auto simp: check_interrupts_def Let_def filter_empty_conv)
  moreover have "find (\<lambda>i. isInterruptExpired date now i \<and>
            jprop (resume_for ?input (jprop i ''id'')) ''status'' \<noteq> JStr ''cancelled'') interrupts =
      find (\<lambda>i. isInterruptExpired date now i \<and>
            jprop (response_of responses (jprop i ''id'')) ''status'' \<noteq> JStr ''cancelled'') interrupts"
    using resume_for_built by (intro find_cong) auto
  ultimately show ?thesis using True by simp
next
  case False
  then have "(\<exists>i \<in> set interrupts. jprop i ''id'' \<notin> JStr ` fst ` set responses) \<or>
      (\<exists>k \<in> fst ` set responses. JStr k \<notin> (\<lambda>i. jprop i ''id'') ` set interrupts)"
    unfolding answers_exactly_def by blast
  then have "filter (\<lambda>i. i \<notin> JStr ` set (map fst responses)) (fold sadd (map (\<lambda>i. jprop i ''id'') interrupts) []) \<noteq> [] \<or>
      filter (\<lambda>i. JStr i \<notin> set (map (\<lambda>i. jprop i ''id'') interrupts)) (map fst responses) \<noteq> []"
    by (fastforce simp: filter_empty_conv sadd_all)
  with False show ?thesis by (auto simp: buildResumeArray_def Let_def)
qed

subsection \<open>The input that goes out\<close>

definition outgoing_ok :: "js \<Rightarrow> bool" where
  "outgoing_ok m \<longleftrightarrow> jprop m ''subagentRunId'' \<noteq> JNull \<and> jprop m ''role'' \<noteq> JStr ''activity''"

lemma without_null_tag_ok: "oget (without_null_tag m) ''subagentRunId'' \<noteq> JNull"
  "oget (without_null_tag m) ''role'' = oget m ''role''"
  by (auto simp: without_null_tag_def)

text \<open>
  Whatever the conversation holds and whatever a subscriber puts into it when the run starts,
  no message goes out with a null attribution and no activity message goes out at all.
\<close>

theorem outgoing_messages_are_clean:
  "case onInitialize date now env answering (run_input sur parameters ag) w ag of
     (Inl err, w', ag') \<Rightarrow> True
   | (Inr input, w', ag') \<Rightarrow> filter (\<lambda>m. \<not> outgoing_ok m) (elements (oget input ''messages'')) = []"
proof -
  have ok: "filter (\<lambda>m. \<not> outgoing_ok m) (map JObj (filter (\<lambda>m. \<not> is_activity_message m) (map without_null_tag ms))) = []" for ms
    using without_null_tag_ok(1) by (auto simp: filter_empty_conv outgoing_ok_def is_activity_message_def)
  have input: "oget (run_input sur parameters ag) ''messages'' =
      JArr (map JObj (filter (\<lambda>m. \<not> is_activity_message m) (map without_null_tag (ag_messages ag))))"
    by (simp add: run_input_def prepareRunAgentInput_def Let_def oget_append)
  show ?thesis
    using ok by (auto simp: onInitialize_def Let_def input split: option.split sum.split prod.split)
qed

subsection \<open>The agent after a run\<close>

lemma observing_run_env: "observing (run_env sur)"
  if "\<forall>s \<in> set (app_subscribers sur). \<forall>w call ms st. snd (s w call ms st) = NoMutation"
  using that by (auto simp: observing_def run_env_def result_subscriber_def app_subscriber_def split: prod.split)
    (metis snd_conv)

lemma observing_calls:
  assumes "observing env"
  shows "\<exists>w'. runSubscribersWithMutation env call w ms st = Inr (w', no_mutation)"
  using assms unfolding runSubscribersWithMutation_def observing_def by (simp add: observing_run_subscribers)

lemma observing_notified: "observing env \<Longrightarrow> \<exists>w'. notified env call w ag = (None, w')"
  unfolding notified_def observing_def by (simp add: observing_notify_all)

lemma applyPatch_run_env [simp]: "applyPatch (run_env sur) = patcher sur"
  by (simp add: run_env_def)

definition written :: "agent_mutation \<Rightarrow> agent_state \<Rightarrow> agent_state" where
  "written m ag = (let (ms, st) = consume m (ag_messages ag, ag_state ag) in ag\<lparr>ag_messages := ms, ag_state := st\<rparr>)"

lemma observing_write:
  assumes "observing env"
  shows "\<exists>w'. write_mutation env m w ag = (None, w', written m ag)"
proof (cases "m_messages m")
  case None
  then show ?thesis
    using observing_notified [OF assms, of OnStateChanged w "ag\<lparr>ag_state := m_state m\<rparr>"]
    by (auto simp: write_mutation_def replace_messages_def replace_state_def written_def consume_def)
next
  case (Some ms)
  obtain w1 where "notified env OnMessagesChanged w (ag\<lparr>ag_messages := ms\<rparr>) = (None, w1)"
    using observing_notified [OF assms] by blast
  then show ?thesis
    using observing_notified [OF assms, of OnStateChanged w1 "ag\<lparr>ag_messages := ms, ag_state := m_state m\<rparr>"] Some
    by (auto simp: write_mutation_def replace_messages_def replace_state_def written_def consume_def)
qed

lemma written_nothing [simp]: "written no_mutation ag = ag"
  by (simp add: written_def consume_def no_mutation_def)

lemma initialized:
  assumes "observing env" and "check_interrupts date now input (ag_interrupts ag) = None"
  shows "\<exists>w'. onInitialize date now env answering input w ag = (Inr input, w', ag)"
proof -
  obtain w' where run: "runSubscribersWithMutation env OnRunInitialized w (ag_messages ag) (ag_state ag) = Inr (w', no_mutation)"
    using observing_calls [OF assms(1)] by blast
  obtain w'' where "write_mutation env no_mutation w' ag = (None, w'', ag)"
    using observing_write [OF assms(1), of no_mutation w' ag] by auto
  with run assms(2) show ?thesis by (simp add: onInitialize_def no_mutation_def Let_def)
qed

lemma settled_error:
  assumes "observing env"
  shows "\<exists>w'. onError env isAbort err w ag = (if isAbort err then None else Some (RunFailed err), w', ag)"
proof -
  obtain w' where run: "runSubscribersWithMutation env OnRunFailed w (ag_messages ag) (ag_state ag) = Inr (w', no_mutation)"
    using observing_calls [OF assms] by blast
  obtain w'' where "write_mutation env no_mutation w' ag = (None, w'', ag)"
    using observing_write [OF assms, of no_mutation w' ag] by auto
  with run show ?thesis by (simp add: onError_def) (simp add: no_mutation_def)
qed

lemma run_input_state [simp]: "oget (run_input sur parameters ag) ''state'' = ag_state ag"
  by (simp add: run_input_def prepareRunAgentInput_def Let_def oget_append)

subsection \<open>Applying and writing in step\<close>

text \<open>The agent holds what the reducer holds.\<close>

definition in_step :: "'w running \<Rightarrow> bool" where
  "in_step r \<longleftrightarrow> apply_failure r = None \<and> unshared (reducing r) \<and> settled (reducing r) \<and>
     ag_messages (running_agent r) = conversation (reducing r) \<and>
     ag_state (running_agent r) = app_state (reducing r) \<and>
     ag_interrupts (running_agent r) = pendingInterrupts (reducing r)"

lemma world_simps [simp]:
  "conversation (st\<lparr>world := w\<rparr>) = conversation st" "unshared (st\<lparr>world := w\<rparr>) = unshared st"
  "settled (st\<lparr>world := w\<rparr>) = settled st" "chat_of (st\<lparr>world := w\<rparr>) = chat_of st"
  by (simp_all add: conversation_def unshared_def settled_def bounded_def chat_of_def)

lemma written_all:
  assumes "observing env" and "apply_failure r = None"
  shows "\<exists>w. fold (processApplyEvents env) muts r =
    r\<lparr>reducing := (reducing r)\<lparr>world := w\<rparr>, running_agent := fold written muts (running_agent r)\<rparr>"
  using assms(2)
proof (induction muts arbitrary: r)
  case Nil
  show ?case by (rule exI [of _ "world (reducing r)"]) simp
next
  case (Cons m muts)
  obtain w where "write_mutation env m (world (reducing r)) (running_agent r) = (None, w, written m (running_agent r))"
    using observing_write [OF assms(1)] by blast
  with Cons.prems have "processApplyEvents env m r =
      r\<lparr>reducing := (reducing r)\<lparr>world := w\<rparr>, running_agent := written m (running_agent r)\<rparr>"
    by (simp add: processApplyEvents_def)
  with Cons.IH [of "processApplyEvents env m r"] Cons.prems show ?case by simp
qed

lemma fold_written:
  "fold written muts ag = (let (ms, st) = fold consume muts (ag_messages ag, ag_state ag) in ag\<lparr>ag_messages := ms, ag_state := st\<rparr>)"
proof (induction muts arbitrary: ag)
  case (Cons m muts)
  obtain ms st where "consume m (ag_messages ag, ag_state ag) = (ms, st)" by fastforce
  with Cons [of "written m ag"] show ?case by (simp add: written_def)
qed simp

definition holding :: "chat \<Rightarrow> agent_state \<Rightarrow> agent_state" where
  "holding c ag = ag\<lparr>ag_messages := chat_messages c, ag_state := chat_state c, ag_interrupts := chat_interrupts c\<rparr>"

lemma event_in_step:
  assumes "observing env" and "in_step r" and "apply_fault e = None" and "yields_state env e"
    and "merge_guard e (chat_of (reducing r))"
  shows "in_step (apply_to_agent env e r)"
    and "chat_of (reducing (apply_to_agent env e r)) = chat_step (applyPatch env) e (chat_of (reducing r))"
    and "running_agent (apply_to_agent env e r) = holding (chat_of (reducing (apply_to_agent env e r))) (running_agent r)"
proof -
  have r: "apply_failure r = None" "unshared (reducing r)" "settled (reducing r)"
    "ag_messages (running_agent r) = conversation (reducing r)" "ag_state (running_agent r) = app_state (reducing r)"
    using assms(2) by (simp_all add: in_step_def)
  obtain muts st where ok: "apply_event env (reducing r) e = Inr (muts, st)"
    using switch_verdict [OF assms(1), of e "observed env (OnEvent e) (reducing r)"] assms(3)
    by (fastforce simp: apply_event_def observing_run_hook [OF assms(1)] emitUpdates_def)
  let ?ag = "(running_agent r)\<lparr>ag_interrupts := pendingInterrupts st\<rparr>"
  have st: "chat_of st = chat_step (applyPatch env) e (chat_of (reducing r))" "unshared st"
    using event_refines [of env "reducing r" e muts st] assms(1,5) r(2) ok by (simp_all add: mergeable_def merge_guard_def)
  have out: "settled st" "fold consume muts (conversation (reducing r), app_state (reducing r)) = (conversation st, app_state st)"
    using apply_event_mirrored [OF r(3) ok assms(4)] by simp_all
  obtain w where "apply_to_agent env e r =
      r\<lparr>reducing := st\<lparr>world := w\<rparr>, running_agent := ?ag\<lparr>ag_messages := conversation st, ag_state := app_state st\<rparr>\<rparr>"
    using written_all [OF assms(1), of "r\<lparr>reducing := st, running_agent := ?ag\<rparr>" muts] r out(2) ok
    by (auto simp: apply_to_agent_def fold_written)
  note step = this
  show "in_step (apply_to_agent env e r)" using r(1) st(2) out(1) by (simp add: step in_step_def)
  show "chat_of (reducing (apply_to_agent env e r)) = chat_step (applyPatch env) e (chat_of (reducing r))"
    by (simp add: step st(1))
  show "running_agent (apply_to_agent env e r) = holding (chat_of (reducing (apply_to_agent env e r))) (running_agent r)"
    by (simp add: step holding_def)
qed

lemma holding_again [simp]: "holding c (holding d ag) = holding c ag"
  by (simp add: holding_def)

lemma run_in_step:
  assumes "observing env" and "in_step r" and "\<forall>e \<in> set es. apply_fault e = None \<and> yields_state env e"
    and "snapshots_mergeable (applyPatch env) (chat_of (reducing r)) es"
  shows "in_step (fold (apply_to_agent env) es r) \<and>
    chat_of (reducing (fold (apply_to_agent env) es r)) = fold (chat_step (applyPatch env)) es (chat_of (reducing r)) \<and>
    running_agent (fold (apply_to_agent env) es r) =
      holding (fold (chat_step (applyPatch env)) es (chat_of (reducing r))) (running_agent r)"
  using assms(2-4)
proof (induction es arbitrary: r)
  case Nil
  then show ?case by (cases "running_agent r") (simp add: in_step_def holding_def)
next
  case (Cons e es)
  from Cons.prems event_in_step [OF assms(1) Cons.prems(1), of e] Cons.IH [of "apply_to_agent env e r"]
  show ?case by (simp add: snapshots_mergeable_def)
qed

definition agent_chat :: "agent_state \<Rightarrow> chat" where
  "agent_chat ag =
     \<lparr>chat_messages = ag_messages ag, chat_state = ag_state ag, chat_started = [], chat_answered = [],
      chat_interrupts = ag_interrupts ag\<rparr>"

lemma chat_of_initial:
  "chat_of (initial_apply_state (ag_messages ag) (ag_state ag) (ag_interrupts ag) w) = agent_chat ag"
  by (simp add: agent_chat_def chat_of_def) (simp add: initial_apply_state_def Let_def new_objects_eq)


text \<open>A run of an agent at its current version, one recording subscriber, no middleware.\<close>

definition demo_surroundings :: "hook_call list surroundings" where
  "demo_surroundings =
     \<lparr>optional_schema = is_optional, parse_schema = checking_parse, uuids = (\<lambda>n k. ''uuid''), run_uuid = ''run'',
      compare_versions = (\<lambda>a b. 0), package_version = ''1'', protocol_version = ''1'', date_of = (\<lambda>v. None), clock = 0,
      app_subscribers = [recorder], test_environment = False, patcher = demo_patch, is_abort = (\<lambda>err. False),
      not_implemented = (\<lambda>err. False)\<rparr>"

definition demo_agent :: agent_state where
  "demo_agent =
     \<lparr>threadId = ''t'', ag_messages = [[(''id'', JStr ''u1''), (''role'', JStr ''user''), (''content'', JStr ''hi'')]],
      ag_state = JObj [], isRunning = False, ag_interrupts = [], middlewares = [], maxProtocolVersion = ''1''\<rparr>"

definition demo_checked :: "event list" where
  "demo_checked =
     [ev RUN_STARTED [(''threadId'', ''t''), (''runId'', ''r'')],
      ev TEXT_MESSAGE_START [(''messageId'', ''m''), (''role'', ''assistant'')],
      ev TEXT_MESSAGE_CONTENT [(''messageId'', ''m''), (''delta'', ''Hi'')],
      ev TEXT_MESSAGE_END [(''messageId'', ''m'')],
      ev RUN_FINISHED [(''threadId'', ''t''), (''runId'', ''r'')]]"

lemma demo_source:
  "run_stream (optional_schema demo_surroundings) (parse_schema demo_surroundings) (uuids demo_surroundings)
     (middlewares demo_agent) (\<lambda>input. (raw_run, None)) (run_input demo_surroundings no_parameters demo_agent) =
   (demo_checked, None)"
  by code_simp


subsection \<open>Editing the conversation between runs\<close>

text \<open>
  \<open>addMessage\<close>, \<open>addMessages\<close>, \<open>setMessages\<close> and \<open>setState\<close> write to the agent at
  once and then tell the subscribers in turn, each awaited, in the background: the first callback
  that fails ends the telling.
\<close>

fun told :: "'w subscriber list \<Rightarrow> hook_call \<Rightarrow> agent_state \<Rightarrow> bool \<times> 'w \<Rightarrow> bool \<times> 'w" where
  "told [] call ag (ok, w) = (ok, w)"
| "told (s # ss) call ag (ok, w) =
     (if \<not> ok then (ok, w)
      else case s w call (ag_messages ag) (ag_state ag) of
          (w', Threw sync ty) \<Rightarrow> (False, w')
        | (w', _) \<Rightarrow> told ss call ag (True, w'))"

definition message_calls :: "jobj \<Rightarrow> hook_call list" where
  "message_calls m =
     OnNewMessage m #
     (if oget m ''role'' = JStr ''assistant'' \<and> truthy (oget m ''toolCalls'')
      then map OnNewToolCall (elements (oget m ''toolCalls'')) else [])"

definition addMessage :: "'w subscriber list \<Rightarrow> jobj \<Rightarrow> 'w \<Rightarrow> agent_state \<Rightarrow> 'w \<times> agent_state" where
  "addMessage ss m w ag =
     (let ag' = ag\<lparr>ag_messages := ag_messages ag @ [m]\<rparr> in
      (snd (fold (\<lambda>call. told ss call ag') (message_calls m @ [OnMessagesChanged]) (True, w)), ag'))"

definition addMessages :: "'w subscriber list \<Rightarrow> jobj list \<Rightarrow> 'w \<Rightarrow> agent_state \<Rightarrow> 'w \<times> agent_state" where
  "addMessages ss ms w ag =
     (let ag' = ag\<lparr>ag_messages := ag_messages ag @ ms\<rparr> in
      (snd (fold (\<lambda>call. told ss call ag') (concat (map message_calls ms) @ [OnMessagesChanged]) (True, w)), ag'))"

definition setMessages :: "'w subscriber list \<Rightarrow> jobj list \<Rightarrow> 'w \<Rightarrow> agent_state \<Rightarrow> 'w \<times> agent_state" where
  "setMessages ss ms w ag = (let ag' = ag\<lparr>ag_messages := ms\<rparr> in (snd (told ss OnMessagesChanged ag' (True, w)), ag'))"

definition setState :: "'w subscriber list \<Rightarrow> js \<Rightarrow> 'w \<Rightarrow> agent_state \<Rightarrow> 'w \<times> agent_state" where
  "setState ss st w ag = (let ag' = ag\<lparr>ag_state := st\<rparr> in (snd (told ss OnStateChanged ag' (True, w)), ag'))"

lemma addMessages_appends: "ag_messages (snd (addMessages ss ms w ag)) = ag_messages ag @ ms"
  by (simp add: addMessages_def Let_def)

lemma addMessage_single: "addMessage ss m w ag = addMessages ss [m] w ag"
  by (simp add: addMessage_def addMessages_def)

end
