(* ===== verification/AGUI_Http.thy ===== *)
theory AGUI_Http
  imports AGUI_Agent AGUI_Wire
begin

section \<open>The agent behind HTTP\<close>

text \<open>
  \<open>HttpAgent\<close> of \<^verbatim>\<open>client/src/agent/http.ts\<close> and \<open>runHttpRequest\<close> of
  \<^verbatim>\<open>client/src/run/http-request.ts\<close>: the request an agent sends, the events of the
  response, and the stream of events they are turned into by the transport.

  \<^item> \<open>fetch\<close>, \<open>JSON\<close> and the texts of errors are parameters, in \<open>http_environment\<close>.
  \<^item> A body is the list of what the reader's \<open>read\<close> returned, and the error it ended with, if any.
  \<^item> Aborting and cancelling a request are left out: they end a run that nobody listens to.
\<close>

subsection \<open>The request\<close>

record request =
  rq_url :: string
  rq_method :: string
  rq_headers :: jobj
  rq_body :: string

record response =
  r_status :: nat
  r_ok :: bool
  r_headers :: "string \<Rightarrow> string option"
  r_text :: "(string \<times> string) + string"
  r_body :: "(byte list option list \<times> (string \<times> string) option) option"

record http_environment =
  fetch :: "request \<Rightarrow> (string \<times> string) + response"
  json_text :: "js \<Rightarrow> string"
  json_value :: "string \<Rightarrow> js option"
  rejection_text :: "enforce_error \<Rightarrow> string \<times> string"
  wire_error_text :: "wire_error \<Rightarrow> string"
  decode_event :: "byte list \<Rightarrow> js decoding"
  parse_frame :: "text16 \<Rightarrow> js option"

record http_agent =
  agent_url :: string
  agent_headers :: jobj

text \<open>The last point before the bytes leave: no message keeps a null attribution.\<close>

definition sanitizeOutgoingInput :: "js \<Rightarrow> js" where
  "sanitizeOutgoingInput input =
     (case jprop input ''messages'' of
        JArr ms \<Rightarrow>
          if list_ex (\<lambda>m. jprop m ''subagentRunId'' = JNull) ms
          then JObj (oset ''messages'' (JArr (map (\<lambda>m.
            if jprop m ''subagentRunId'' = JNull then JObj (odel ''subagentRunId'' (fields_of m)) else m) ms)) (fields_of input))
          else input
      | _ \<Rightarrow> input)"

definition requestInit :: "http_environment \<Rightarrow> http_agent \<Rightarrow> js \<Rightarrow> request" where
  "requestInit env agent input =
     \<lparr>rq_url = agent_url agent, rq_method = ''POST'',
      rq_headers = oset ''Accept'' (JStr ''text/event-stream'')
        (oset ''Content-Type'' (JStr ''application/json'') (agent_headers agent)),
      rq_body = json_text env (sanitizeOutgoingInput input)\<rparr>"

subsection \<open>The response\<close>

text \<open>\<open>contentType.includes(\<dots>)\<close>.\<close>

fun includes_text :: "string \<Rightarrow> string \<Rightarrow> bool" where
  "includes_text part [] = (part = [])"
| "includes_text part (c # cs) = (take (length part) (c # cs) = part \<or> includes_text part cs)"

definition error_payload :: "http_environment \<Rightarrow> response \<Rightarrow> string \<Rightarrow> js" where
  "error_payload env r text =
     (if includes_text ''application/json'' (case r_headers r ''content-type'' of Some t \<Rightarrow> t | None \<Rightarrow> [])
      then (case json_value env text of Some v \<Rightarrow> v | None \<Rightarrow> JStr text) else JStr text)"

definition http_message :: "http_environment \<Rightarrow> nat \<Rightarrow> js \<Rightarrow> string" where
  "http_message env status payload =
     ''HTTP '' @ digits status @ '': '' @ (case payload of JStr s \<Rightarrow> s | v \<Rightarrow> json_text env v)"

text \<open>The request is made when the stream is subscribed to; an error is a name and a message.\<close>

definition runHttpRequest ::
    "http_environment \<Rightarrow> ((string \<times> string) + response) \<Rightarrow> http_event list \<times> (string \<times> string) option" where
  "runHttpRequest env answer =
     (case answer of
        Inl err \<Rightarrow> ([], Some err)
      | Inr r \<Rightarrow>
          if \<not> r_ok r then
            (case r_text r of
               Inl err \<Rightarrow> ([], Some err)
             | Inr text \<Rightarrow> ([], Some (''Error'', http_message env (r_status r) (error_payload env r text))))
          else
            (case r_body r of
               None \<Rightarrow> ([], Some (''Error'', ''Failed to getReader() from response''))
             | Some (chunks, err) \<Rightarrow> (HEADERS (r_status r) (r_headers r) # map DATA chunks, err)))"

definition transformHttpEventStream ::
    "http_environment \<Rightarrow> http_event list \<times> (string \<times> string) option \<Rightarrow> (js, wire_error) subject" where
  "transformHttpEventStream env source =
     (let st = http_feed (decode_event env) (parse_frame env) (fst source) initial_http in
      h_subject (case snd source of
        None \<Rightarrow> http_complete (decode_event env) (parse_frame env) st
      | Some (name, message) \<Rightarrow> http_error (SourceError name message) st))"

definition HttpAgent_run ::
    "(zod \<Rightarrow> bool) \<Rightarrow> (zod \<Rightarrow> js \<Rightarrow> js option) \<Rightarrow> http_environment \<Rightarrow> http_agent \<Rightarrow> agent_run" where
  "HttpAgent_run optional parse env agent input =
     (let answer = (case enforceOutgoingInput optional parse (JObj input) of
            Inl err \<Rightarrow> Inl (rejection_text env err)
          | Inr checked \<Rightarrow> fetch env (requestInit env agent checked));
          s = transformHttpEventStream env (runHttpRequest env answer) in
      (map event_of (delivered s),
       case ending s of Errored err \<Rightarrow> Some (SourceFailed (wire_error_text env err)) | _ \<Rightarrow> None))"

subsection \<open>Properties\<close>

text \<open>
  C17. A run over HTTP ends: whatever the server answers, and however its body is cut or breaks off,
  the stream of events completes or fails; it never hangs.
\<close>

theorem http_run_settles:
  "ending (transformHttpEventStream env (runHttpRequest env answer)) \<noteq> Live"
proof (cases "\<exists>r chunks err. answer = Inr r \<and> r_ok r \<and> r_body r = Some (chunks, err)")
  case True
  then obtain r chunks err where "answer = Inr r" "r_ok r" "r_body r = Some (chunks, err)" by blast
  then show ?thesis
    using transport_settles [of "decode_event env" "parse_frame env" "r_status r" "r_headers r" "map DATA chunks"]
    by (auto simp: runHttpRequest_def transformHttpEventStream_def Let_def split: option.splits)
next
  case False
  have "ending (h_subject (http_error err initial_http)) \<noteq> Live" for err
    by (simp add: http_error_def fail_stream_def initial_http_def advance_reader_def relay_ending_def new_subject_def)
  moreover have "fst (runHttpRequest env answer) = []" "snd (runHttpRequest env answer) \<noteq> None"
    using False by (auto simp: runHttpRequest_def split: sum.split option.split)
  ultimately show ?thesis by (auto simp: transformHttpEventStream_def split: prod.split)
qed

text \<open>
  C4. What a server streams is what the agent's run emits: when the input passes the outgoing check
  and the server answers it with the encoder's text format, in whatever chunks, the run of the HTTP
  agent is exactly the server's events, in order, and completes.
\<close>

theorem served_events_are_the_run:
  assumes "enforceOutgoingInput optional parse (JObj input) = Inr checked"
    and "fetch env (requestInit env agent checked) = Inr r" and "r_ok r"
    and "r_headers r ''content-type'' = Some (getContentType False)"
    and "r_body r = Some (map Some chunks, None)"
    and "concat chunks = concat (map (encodeBinary False encode stringify) events)"
    and "\<And>e. e \<in> set events \<Longrightarrow> well_formed (stringify (omitOptionalNulls e ''Event''))
      \<and> newline \<notin> set (stringify (omitOptionalNulls e ''Event''))
      \<and> parse_frame env (stringify (omitOptionalNulls e ''Event'')) = Some (omitOptionalNulls e ''Event'')
      \<and> 6 + length (stringify (omitOptionalNulls e ''Event'')) < MAX_BUFFER_SIZE"
    and "\<And>e. e \<in> set events \<Longrightarrow> framed_event (omitOptionalNulls e ''Event'')"
  shows "HttpAgent_run optional parse env agent input = (map (\<lambda>e. event_of (omitOptionalNulls e ''Event'')) events, None)"
proof -
  let ?s = "transformHttpEventStream env (runHttpRequest env (Inr r))"
  have "?s = h_subject (http_complete (decode_event env) (parse_frame env)
      (http_feed (decode_event env) (parse_frame env) (HEADERS (r_status r) (r_headers r) # body chunks) initial_http))"
    using assms(3,5) by (simp add: runHttpRequest_def transformHttpEventStream_def body_def comp_def)
  from text_stream_delivered [of "r_headers r" chunks encode stringify events "parse_frame env", OF assms(4,6,7,8) this]
  have "ending ?s = Completed" "delivered ?s = map (\<lambda>e. omitOptionalNulls e ''Event'') events" by simp_all
  then show ?thesis by (simp add: HttpAgent_run_def assms(1,2) comp_def)
qed

definition untagged_nulls :: "js \<Rightarrow> bool" where
  "untagged_nulls v \<longleftrightarrow> list_all (\<lambda>m. jprop m ''subagentRunId'' \<noteq> JNull) (elements (jprop v ''messages''))"

lemma sanitized: "untagged_nulls (sanitizeOutgoingInput v)"
proof (cases "jprop v ''messages''")
  case (JArr ms)
  have "jprop (if jprop m ''subagentRunId'' = JNull then JObj (odel ''subagentRunId'' (fields_of m)) else m) ''subagentRunId'' \<noteq> JNull" for m
    by simp
  then show ?thesis
    by (auto simp: sanitizeOutgoingInput_def untagged_nulls_def JArr list_all_iff list_ex_iff)
qed (simp_all add: sanitizeOutgoingInput_def untagged_nulls_def)

lemma same_payload:
  "error_payload (env\<lparr>fetch := f\<rparr>) r text = error_payload env r text"
  "http_message (env\<lparr>fetch := f\<rparr>) status payload = http_message env status payload"
  by (simp_all add: error_payload_def http_message_def split: js.split)

lemma same_environment:
  "requestInit (env\<lparr>fetch := f\<rparr>) = requestInit env"
  "runHttpRequest (env\<lparr>fetch := f\<rparr>) = runHttpRequest env"
  "transformHttpEventStream (env\<lparr>fetch := f\<rparr>) = transformHttpEventStream env"
  by (intro ext, simp add: requestInit_def runHttpRequest_def transformHttpEventStream_def same_payload Let_def
      split: sum.split option.split)+


text \<open>A server that answers every request with one event, cut in the middle of a character.\<close>

definition demo_response :: response where
  "demo_response =
     \<lparr>r_status = 200, r_ok = True, r_headers = demo_headers False, r_text = Inr [],
      r_body = Some (map Some [[100, 97, 116, 97, 58, 32, 195], [169, 10], [10]], None)\<rparr>"

definition demo_http :: http_environment where
  "demo_http =
     \<lparr>fetch = (\<lambda>rq. Inr demo_response), json_text = (\<lambda>v. if untagged_nulls v then ''clean'' else ''tagged''), json_value = (\<lambda>t. None),
      rejection_text = (\<lambda>err. (''ZodError'', [])), wire_error_text = (\<lambda>err. []),
      decode_event = demo_decode, parse_frame = demo_json\<rparr>"

definition demo_endpoint :: http_agent where
  "demo_endpoint = \<lparr>agent_url = ''/'', agent_headers = []\<rparr>"

definition demo_input :: jobj where
  "demo_input = run_input demo_surroundings no_parameters demo_agent"

lemma demo_input_accepted: "enforceOutgoingInput is_optional checking_parse (JObj demo_input) = Inr (JObj demo_input)"
  by code_simp

theorem served_events_are_the_run_witness:
  "HttpAgent_run is_optional checking_parse demo_http demo_endpoint demo_input =
     ([Event RUN_ERROR [(''message'', JStr [char_of (233 :: nat)])]], None)"
proof -
  have o: "omitOptionalNulls demo_error ''Event'' = JObj [(''type'', JStr ''RUN_ERROR''), (''message'', JStr [char_of (233 :: nat)])]"
    by code_simp
  have g: "demo_stringify (omitOptionalNulls demo_error ''Event'') = [233]"
    unfolding o by (simp add: demo_stringify_def units_def)
  have c: "concat [[100, 97, 116, 97, 58, 32, 195], [169, 10], [10]] =
      concat (map (encodeBinary False demo_encode demo_stringify) [demo_error])"
    by (simp add: encodeBinary_def encodeSSE_def g encoder_encode_def units_def utf8_bytes_def
        high_surrogate_def low_surrogate_def)
  have "HttpAgent_run is_optional checking_parse demo_http demo_endpoint demo_input =
      (map (\<lambda>e. event_of (omitOptionalNulls e ''Event'')) [demo_error], None)"
  proof (rule served_events_are_the_run [OF demo_input_accepted _ _ _ _ c])
    show "fetch demo_http (requestInit demo_http demo_endpoint (JObj demo_input)) = Inr demo_response"
      by (simp add: demo_http_def)
  next
    fix e assume "e \<in> set [demo_error]"
    then have e: "e = demo_error" by simp
    show "well_formed (demo_stringify (omitOptionalNulls e ''Event'')) \<and>
      newline \<notin> set (demo_stringify (omitOptionalNulls e ''Event'')) \<and>
      parse_frame demo_http (demo_stringify (omitOptionalNulls e ''Event'')) = Some (omitOptionalNulls e ''Event'') \<and>
      6 + length (demo_stringify (omitOptionalNulls e ''Event'')) < MAX_BUFFER_SIZE"
      unfolding e g unfolding o
      by (simp add: high_surrogate_def low_surrogate_def MAX_BUFFER_SIZE_def demo_json_def demo_http_def)
    show "framed_event (omitOptionalNulls e ''Event'')" unfolding e o by (simp add: framed_event_def)
  qed (simp_all add: demo_response_def demo_headers_def)
  moreover have "event_of (omitOptionalNulls demo_error ''Event'') = Event RUN_ERROR [(''message'', JStr [char_of (233 :: nat)])]"
    unfolding o by code_simp
  ultimately show ?thesis by simp
qed


end
