(* ===== verification/AGUI_ProtoConvert.thy ===== *)
theory AGUI_ProtoConvert
  imports AGUI_Enforce AGUI_Wire
begin

section \<open>Converting messages to and from the wire\<close>

text \<open>
  The value level of \<^verbatim>\<open>proto/src/proto.ts\<close>, for sources, content parts and messages: what
  \<open>encode\<close> does to them before the generated encoder writes them, and \<open>decode\<close> after the generated
  decoder has read them. A message with its content in the shape of its role comes back as it was.

  \<^item> A wire message is an object whose absent optional fields may be present with the value
    \<open>undefined\<close>, as ts-proto leaves them. \<open>Inl\<close> is a thrown error.
  \<^item> The generated codec and the validation that only decides which warning is printed are not
    part of it; nor are the warnings.
\<close>

subsection \<open>Values that crossed the wire\<close>

text \<open>Arrays are records too; their own fields are the indices.\<close>

fun asRecord :: "js \<Rightarrow> jobj option" where
  "asRecord (JObj rec) = Some rec"
| "asRecord (JArr xs) = Some (zip (map digits [0..<length xs]) xs)"
| "asRecord _ = None"

definition record_or_empty :: "js \<Rightarrow> jobj" where
  "record_or_empty v = (case asRecord v of None \<Rightarrow> [] | Some rec \<Rightarrow> rec)"

definition asArray :: "js \<Rightarrow> js list" where
  "asArray = elements"

definition normalizeMetadata :: "js \<Rightarrow> js" where
  "normalizeMetadata v = (if is_object v then v else JUndef)"

text \<open>\<open>toCamelCase\<close>: lower case, and an upper-case letter for each underscore and the letter after it.\<close>

definition lower :: "char \<Rightarrow> char" where
  "lower c = (let n = of_char c :: nat in if 65 \<le> n \<and> n \<le> 90 then char_of (n + 32) else c)"

definition upper :: "char \<Rightarrow> char" where
  "upper c = (let n = of_char c :: nat in if 97 \<le> n \<and> n \<le> 122 then char_of (n - 32) else c)"

fun joined_words :: "string \<Rightarrow> string" where
  "joined_words (c # d # cs) =
     (if c = CHR ''_'' \<and> 97 \<le> (of_char d :: nat) \<and> of_char d \<le> (122 :: nat) then upper d # joined_words cs
      else c # joined_words (d # cs))"
| "joined_words cs = cs"

definition toCamelCase :: "string \<Rightarrow> string" where
  "toCamelCase s = joined_words (map lower s)"

subsection \<open>Sources and content parts\<close>

definition toProtoSource :: "js \<Rightarrow> js" where
  "toProtoSource source =
     (case asRecord source of
        None \<Rightarrow> JUndef
      | Some rec \<Rightarrow>
          if oget rec ''type'' = JStr ''data'' then
            JObj [(''data'', JObj [(''value'', oget rec ''value''), (''mimeType'', oget rec ''mimeType'')])]
          else if oget rec ''type'' = JStr ''url'' then
            JObj [(''url'', JObj [(''value'', oget rec ''value''), (''mimeType'', oget rec ''mimeType'')])]
          else if oget rec ''type'' = JStr ''file'' then
            JObj [(''file'', JObj [(''value'', oget rec ''value''), (''provider'', oget rec ''provider''),
              (''mimeType'', oget rec ''mimeType'')])]
          else JUndef)"

text \<open>What decoding may throw; \<open>EventWithBoth\<close> is the two contents of a tool result.\<close>

datatype decode_error =
    SeveralSources
  | SeveralParts
  | SeveralContents
  | UnexpectedParts
  | UnexpectedActivity
  | ActivityWithContent
  | StringWithParts
  | EventWithBoth
  | InvalidEvent
  | TypeMismatch string js

definition fromProtoSource :: "js \<Rightarrow> decode_error + js" where
  "fromProtoSource source =
     (case asRecord source of
        None \<Rightarrow> Inr JUndef
      | Some rec \<Rightarrow>
          (let data = oget rec ''data''; url = oget rec ''url''; file = oget rec ''file'' in
           if 1 < length (filter truthy [data, url, file]) then Inl SeveralSources
           else Inr (
             if truthy data then
               JObj [(''type'', JStr ''data''), (''value'', jprop data ''value''), (''mimeType'', jprop data ''mimeType'')]
             else if truthy url then
               JObj [(''type'', JStr ''url''), (''value'', jprop url ''value''), (''mimeType'', jprop url ''mimeType'')]
             else if truthy file then
               JObj [(''type'', JStr ''file''), (''value'', jprop file ''value''), (''provider'', jprop file ''provider''),
                 (''mimeType'', jprop file ''mimeType'')]
             else JUndef)))"

text \<open>The four media parts differ only in their name.\<close>

definition MEDIA_PARTS :: "string list" where
  "MEDIA_PARTS = [''image'', ''audio'', ''video'', ''document'']"

definition legacy_binary_source :: "jobj \<Rightarrow> js" where
  "legacy_binary_source rec =
     (if truthy (oget rec ''data'') then
        JObj [(''data'', JObj [(''value'', oget rec ''data''), (''mimeType'', oget rec ''mimeType'')])]
      else if truthy (oget rec ''url'') then
        JObj [(''url'', JObj [(''value'', oget rec ''url''), (''mimeType'', oget rec ''mimeType'')])]
      else if truthy (oget rec ''id'') then
        JObj [(''url'', JObj [(''value'', oget rec ''id''), (''mimeType'', oget rec ''mimeType'')])]
      else JUndef)"

definition toProtoContentPart :: "js \<Rightarrow> js" where
  "toProtoContentPart part =
     (case asRecord part of
        None \<Rightarrow> JUndef
      | Some rec \<Rightarrow>
          (case oget rec ''type'' of
             JStr kind \<Rightarrow>
               if kind = ''text'' then
                 JObj [(''text'', JObj [(''id'', oget rec ''id''), (''text'', oget rec ''text''), (''metadata'', oget rec ''metadata'')])]
               else if kind \<in> set MEDIA_PARTS then
                 JObj [(kind, JObj [(''id'', oget rec ''id''), (''source'', toProtoSource (oget rec ''source'')),
                   (''metadata'', oget rec ''metadata'')])]
               else if kind = ''binary'' then
                 (let source = legacy_binary_source rec in
                  if source = JUndef then JUndef
                  else JObj [(''document'', JObj [(''source'', source),
                    (''metadata'', JObj [(''legacyBinary'', JBool True), (''filename'', oget rec ''filename''), (''id'', oget rec ''id'')])])])
               else JUndef
           | _ \<Rightarrow> JUndef))"

definition from_media_part :: "string \<Rightarrow> js \<Rightarrow> decode_error + js" where
  "from_media_part kind part =
     (case fromProtoSource (jprop part ''source'') of
        Inl err \<Rightarrow> Inl err
      | Inr source \<Rightarrow>
          Inr (if jprop part ''source'' \<noteq> JUndef \<and> source = JUndef then JUndef
            else JObj [(''type'', JStr kind), (''id'', jprop part ''id''), (''source'', source), (''metadata'', jprop part ''metadata'')]))"

definition fromProtoContentPart :: "js \<Rightarrow> decode_error + js" where
  "fromProtoContentPart part =
     (case asRecord part of
        None \<Rightarrow> Inr JUndef
      | Some rec \<Rightarrow>
          if 1 < length (filter truthy (map (oget rec) (''text'' # MEDIA_PARTS))) then Inl SeveralParts
          else if truthy (oget rec ''text'') then
            (let text = oget rec ''text'' in
             Inr (JObj [(''type'', JStr ''text''), (''id'', jprop text ''id''), (''text'', jprop text ''text''),
               (''metadata'', jprop text ''metadata'')]))
          else (case find (\<lambda>kind. truthy (oget rec kind)) MEDIA_PARTS of
              Some kind \<Rightarrow> from_media_part kind (oget rec kind)
            | None \<Rightarrow> Inr JUndef))"

text \<open>An array of parts: those without a wire form, or of an unknown arm, are dropped.\<close>

definition to_parts :: "js list \<Rightarrow> js list" where
  "to_parts parts = filter (\<lambda>p. p \<noteq> JUndef) (map toProtoContentPart parts)"

fun from_parts :: "js list \<Rightarrow> decode_error + js list" where
  "from_parts [] = Inr []"
| "from_parts (p # ps) =
     (case fromProtoContentPart p of
        Inl err \<Rightarrow> Inl err
      | Inr v \<Rightarrow> map_sum id (\<lambda>vs. if v = JUndef then vs else v # vs) (from_parts ps))"

subsection \<open>Messages\<close>

definition KNOWN_ROLES :: "string list" where
  "KNOWN_ROLES = [''developer'', ''system'', ''assistant'', ''user'', ''tool'', ''activity'', ''reasoning'']"

definition MAP_CONTENT_ROLES :: "string list" where
  "MAP_CONTENT_ROLES = [''activity'']"

definition PARTS_CONTENT_ROLES :: "string list" where
  "PARTS_CONTENT_ROLES = [''user'', ''tool'']"

text \<open>\<open>{ ...v }\<close>: an array and a string contribute their indices, other values nothing.\<close>

fun spread_fields :: "js \<Rightarrow> jobj" where
  "spread_fields (JStr s) = zip (map digits [0..<length s]) (map (\<lambda>c. JStr [c]) s)"
| "spread_fields v = record_or_empty v"

definition wire_tool_call :: "js \<Rightarrow> js" where
  "wire_tool_call toolCall =
     JObj (oset ''metadata'' (normalizeMetadata (oget (record_or_empty toolCall) ''metadata'')) (spread_fields toolCall))"

definition toWireMessage :: "js \<Rightarrow> jobj" where
  "toWireMessage value =
     (let message = record_or_empty value;
          wire = oset ''contentParts'' (JArr []) message;
          wire = oset ''metadata'' (normalizeMetadata (oget message ''metadata'')) wire;
          wire = oset ''toolCalls'' (JArr (map wire_tool_call (asArray (oget message ''toolCalls'')))) wire;
          content = oget message ''content'' in
      if is_array content then
        oset ''content'' JUndef (oset ''contentParts'' (JArr (to_parts (elements content))) wire)
      else if list_ex (\<lambda>r. oget message ''role'' = JStr r) MAP_CONTENT_ROLES then
        oset ''content'' JUndef (oset ''activityContent'' (if is_object content then content else JObj []) wire)
      else wire)"

definition defined_fields :: "jobj \<Rightarrow> jobj" where
  "defined_fields obj = filter (\<lambda>(k, v). v \<noteq> JUndef) obj"

text \<open>The conditions under which a message is refused, in the order they are tested.\<close>

definition carrier_conflict :: "jobj \<Rightarrow> bool \<Rightarrow> bool \<Rightarrow> bool \<Rightarrow> decode_error option" where
  "carrier_conflict wire known usesParts usesMap =
     (let has_content = oget wire ''content'' \<noteq> JUndef;
          has_parts = asArray (oget wire ''contentParts'') \<noteq> [];
          has_map = oget wire ''activityContent'' \<noteq> JUndef in
      if \<not> known then
        (if 1 < of_bool has_content + of_bool has_parts + (of_bool has_map :: nat) then Some SeveralContents else None)
      else if \<not> usesParts \<and> has_parts then Some UnexpectedParts
      else if has_map \<and> \<not> usesMap then Some UnexpectedActivity
      else if usesMap \<and> has_content then Some ActivityWithContent
      else if usesParts \<and> has_content \<and> has_parts then Some StringWithParts
      else None)"

text \<open>The carriers, an empty list of tool calls and the undefined fields go.\<close>

definition finish_message :: "jobj \<Rightarrow> jobj \<Rightarrow> jobj" where
  "finish_message wire message =
     (let message = odel ''contentParts'' (odel ''activityContent'' message) in
      defined_fields (if asArray (oget wire ''toolCalls'') = [] then odel ''toolCalls'' message else message))"

definition fromWireMessage :: "js \<Rightarrow> decode_error + jobj" where
  "fromWireMessage value =
     (let wire = record_or_empty value;
          role = (case oget wire ''role'' of JStr r \<Rightarrow> r | _ \<Rightarrow> []);
          known = (role \<in> set KNOWN_ROLES);
          parts = asArray (oget wire ''contentParts'');
          usesParts = (if known then role \<in> set PARTS_CONTENT_ROLES else parts \<noteq> []);
          usesMap = (if known then role \<in> set MAP_CONTENT_ROLES
            else \<not> usesParts \<and> oget wire ''activityContent'' \<noteq> JUndef) in
      case carrier_conflict wire known usesParts usesMap of
        Some err \<Rightarrow> Inl err
      | None \<Rightarrow>
          (case (if usesParts \<and> oget wire ''content'' = JUndef
                 then map_sum id (\<lambda>vs. oset ''content'' (JArr vs) wire) (from_parts parts) else Inr wire) of
             Inl err \<Rightarrow> Inl err
           | Inr message \<Rightarrow>
               Inr (finish_message wire
                 (if usesMap \<and> oget wire ''activityContent'' \<noteq> JUndef
                  then oset ''content'' (oget wire ''activityContent'') message else message))))"

fun from_messages :: "js list \<Rightarrow> decode_error + js list" where
  "from_messages [] = Inr []"
| "from_messages (m # ms) =
     (case fromWireMessage m of
        Inl err \<Rightarrow> Inl err
      | Inr v \<Rightarrow> map_sum id ((#) (JObj v)) (from_messages ms))"

text \<open>Keys with the value \<open>undefined\<close> go, at every depth; the elements of an array stay.\<close>

function dropUndefinedDeep :: "js \<Rightarrow> js" where
  "dropUndefinedDeep v =
     (case v of
        JArr xs \<Rightarrow> JArr (map dropUndefinedDeep xs)
      | JObj obj \<Rightarrow> JObj (map (\<lambda>(k, x). (k, dropUndefinedDeep x)) (filter (\<lambda>(k, x). x \<noteq> JUndef) obj))
      | _ \<Rightarrow> v)"
  by auto
termination
proof (relation "measure size", goal_cases)
  case (2 v xs x)
  then show ?case using size_member [of x xs] by simp
next
  case (3 v obj p k x)
  then show ?case using size_entry [of k x obj] by auto
qed simp

declare dropUndefinedDeep.simps [simp del]

lemma dropUndefinedDeep_simps [simp]:
  "dropUndefinedDeep JUndef = JUndef"
  "dropUndefinedDeep JNull = JNull"
  "dropUndefinedDeep (JBool b) = JBool b"
  "dropUndefinedDeep (JNum n) = JNum n"
  "dropUndefinedDeep (JStr s) = JStr s"
  "dropUndefinedDeep (JArr xs) = JArr (map dropUndefinedDeep xs)"
  "dropUndefinedDeep (JObj obj) = JObj (map (\<lambda>(k, x). (k, dropUndefinedDeep x)) (filter (\<lambda>(k, x). x \<noteq> JUndef) obj))"
  by (simp_all add: dropUndefinedDeep.simps [of JUndef] dropUndefinedDeep.simps [of JNull] dropUndefinedDeep.simps [of "JBool b"]
      dropUndefinedDeep.simps [of "JNum n"] dropUndefinedDeep.simps [of "JStr s"] dropUndefinedDeep.simps [of "JArr xs"]
      dropUndefinedDeep.simps [of "JObj obj"])

subsection \<open>Content parts come back\<close>

text \<open>
  The fields of a source and of a part in the order decoding writes them. A part is sendable when
  it is one of the schema's parts, with its fields in that order and no undefined value.
\<close>

definition SOURCE_KINDS :: "string list" where
  "SOURCE_KINDS = [''data'', ''url'', ''file'']"

definition canonical_source :: "jobj \<Rightarrow> js" where
  "canonical_source rec =
     JObj ([(''type'', oget rec ''type''), (''value'', oget rec ''value'')] @
       (if oget rec ''type'' = JStr ''file'' then [(''provider'', oget rec ''provider'')] else []) @
       [(''mimeType'', oget rec ''mimeType'')])"

definition canonical_part :: "jobj \<Rightarrow> js" where
  "canonical_part rec =
     JObj ([(''type'', oget rec ''type''), (''id'', oget rec ''id''),
       (if oget rec ''type'' = JStr ''text'' then (''text'', oget rec ''text'')
        else (''source'', canonical_source (fields_of (oget rec ''source'')))),
       (''metadata'', oget rec ''metadata'')])"

definition sendable_source :: "js \<Rightarrow> bool" where
  "sendable_source source \<longleftrightarrow> is_object source \<and> list_ex (\<lambda>k. jprop source ''type'' = JStr k) SOURCE_KINDS"

definition sendable_part :: "js \<Rightarrow> bool" where
  "sendable_part part \<longleftrightarrow> is_object part \<and>
     (jprop part ''type'' = JStr ''text'' \<or>
      list_ex (\<lambda>k. jprop part ''type'' = JStr k) MEDIA_PARTS \<and> sendable_source (jprop part ''source'')) \<and>
     dropUndefinedDeep (canonical_part (fields_of part)) = part"

lemma source_round_trip:
  assumes "sendable_source source"
  shows "toProtoSource source \<noteq> JUndef \<and> fromProtoSource (toProtoSource source) = Inr (canonical_source (fields_of source))"
proof -
  from assms obtain rec where s: "source = JObj rec"
    and "oget rec ''type'' = JStr ''data'' \<or> oget rec ''type'' = JStr ''url'' \<or> oget rec ''type'' = JStr ''file''"
    by (cases source) (auto simp: sendable_source_def SOURCE_KINDS_def)
  then show ?thesis
    by (auto simp: toProtoSource_def fromProtoSource_def canonical_source_def Let_def)
qed

lemma from_media_arm:
  assumes "kind \<in> set MEDIA_PARTS"
  shows "fromProtoContentPart (JObj [(kind, JObj part)]) = from_media_part kind (JObj part)"
  using assms by (auto simp: fromProtoContentPart_def MEDIA_PARTS_def)

lemma to_media_arm:
  assumes "kind \<in> set MEDIA_PARTS" and "oget rec ''type'' = JStr kind"
  shows "toProtoContentPart (JObj rec) = JObj [(kind, JObj [(''id'', oget rec ''id''),
    (''source'', toProtoSource (oget rec ''source'')), (''metadata'', oget rec ''metadata'')])]"
  using assms by (auto simp: toProtoContentPart_def MEDIA_PARTS_def)

lemma part_round_trip:
  assumes "sendable_part part"
  shows "toProtoContentPart part \<noteq> JUndef \<and>
    fromProtoContentPart (toProtoContentPart part) = Inr (canonical_part (fields_of part))"
proof -
  from assms obtain rec where p: "part = JObj rec" by (cases part) (auto simp: sendable_part_def)
  show ?thesis
  proof (cases "oget rec ''type'' = JStr ''text''")
    case True
    with p show ?thesis
      by (simp add: toProtoContentPart_def fromProtoContentPart_def canonical_part_def MEDIA_PARTS_def)
  next
    case False
    with assms p have src: "sendable_source (oget rec ''source'')"
      and "list_ex (\<lambda>k. oget rec ''type'' = JStr k) MEDIA_PARTS"
      by (auto simp: sendable_part_def)
    then obtain kind where k: "kind \<in> set MEDIA_PARTS" "oget rec ''type'' = JStr kind"
      by (auto simp: list_ex_iff)
    have s: "canonical_source x \<noteq> JUndef" for x by (simp add: canonical_source_def)
    from p False k(2) source_round_trip [OF src] s show ?thesis
      by (simp add: to_media_arm [OF k] from_media_arm [OF k(1)] from_media_part_def canonical_part_def)
  qed
qed

lemma canonical_part_defined [simp]: "canonical_part rec \<noteq> JUndef"
  by (simp add: canonical_part_def)

lemma parts_round_trip:
  assumes "list_all sendable_part parts"
  shows "from_parts (to_parts parts) = Inr (map (canonical_part \<circ> fields_of) parts)"
  using assms by (induction parts) (simp_all add: to_parts_def part_round_trip)

lemma parts_cleaned:
  assumes "list_all sendable_part parts"
  shows "map (dropUndefinedDeep \<circ> (canonical_part \<circ> fields_of)) parts = parts"
  using assms by (induction parts) (simp_all add: sendable_part_def)

lemma to_parts_Nil_iff: "list_all sendable_part parts \<Longrightarrow> to_parts parts = [] \<longleftrightarrow> parts = []"
  by (induction parts) (simp_all add: to_parts_def part_round_trip)

subsection \<open>Messages come back\<close>

definition optional_object :: "js \<Rightarrow> bool" where
  "optional_object v \<longleftrightarrow> v = JUndef \<or> is_object v"

definition sendable_tool_call :: "js \<Rightarrow> bool" where
  "sendable_tool_call toolCall \<longleftrightarrow> is_object toolCall \<and> distinct (map fst (fields_of toolCall)) \<and>
     optional_object (jprop toolCall ''metadata'')"

definition sendable_content :: "string \<Rightarrow> js \<Rightarrow> bool" where
  "sendable_content role content \<longleftrightarrow>
     (if role \<in> set MAP_CONTENT_ROLES then is_object content
      else if role \<in> set PARTS_CONTENT_ROLES then content \<noteq> JUndef \<and> list_all sendable_part (elements content)
      else \<not> is_array content)"

definition sendable_message :: "js \<Rightarrow> bool" where
  "sendable_message message \<longleftrightarrow> is_object message \<and> distinct (map fst (fields_of message)) \<and>
     dropUndefinedDeep message = message \<and>
     \<not> has_own (fields_of message) ''contentParts'' \<and> \<not> has_own (fields_of message) ''activityContent'' \<and>
     optional_object (jprop message ''metadata'') \<and>
     (jprop message ''toolCalls'' = JUndef \<or>
      is_array (jprop message ''toolCalls'') \<and> elements (jprop message ''toolCalls'') \<noteq> [] \<and>
      list_all sendable_tool_call (elements (jprop message ''toolCalls''))) \<and>
     list_ex (\<lambda>r. jprop message ''role'' = JStr r \<and> sendable_content r (jprop message ''content'')) KNOWN_ROLES"

lemma normalizeMetadata_optional [simp]: "optional_object v \<Longrightarrow> normalizeMetadata v = v"
  by (auto simp: normalizeMetadata_def optional_object_def)

text \<open>
  An object keeps another when it has the keys of the other in the same order, whatever else it
  has. Writes keep it, and so does removing what the other does not have.
\<close>

definition keeps :: "jobj \<Rightarrow> jobj \<Rightarrow> bool" where
  "keeps obj wire \<longleftrightarrow> distinct (map fst wire) \<and> filter (has_own obj) (map fst wire) = map fst obj"

lemma keys_oset: "map fst (oset k v obj) = map fst obj @ (if has_own obj k then [] else [k])"
  by (induction obj) (auto simp: oset_def)

lemma keys_odel: "map fst (odel k obj) = filter (\<lambda>x. x \<noteq> k) (map fst obj)"
  by (induction obj) (auto simp: odel_def)

lemma keeps_has_own: "keeps obj wire \<Longrightarrow> has_own obj k \<Longrightarrow> has_own wire k"
  unfolding keeps_def has_own_iff by (metis filter_is_subset image_set subsetD)

lemma keeps_self: "distinct (map fst obj) \<Longrightarrow> keeps obj obj"
  by (auto simp: keeps_def has_own_iff intro: filter_True)

lemma keeps_oset [intro]:
  assumes "keeps obj wire"
  shows "keeps obj (oset k v wire)"
  using assms keeps_has_own [OF assms, of k] distinct_oset [of wire k v] unfolding keeps_def keys_oset by auto

lemma keeps_odel [intro]:
  assumes "keeps obj wire" and "\<not> has_own obj k"
  shows "keeps obj (odel k wire)"
proof -
  have "(\<lambda>x. x \<noteq> k \<and> has_own obj x) = has_own obj" using assms(2) by auto
  with assms(1) show ?thesis by (simp add: keeps_def keys_odel)
qed

lemma clean_entries:
  "dropUndefinedDeep (JObj obj) = JObj obj \<longleftrightarrow> (\<forall>(k, v)\<in>set obj. v \<noteq> JUndef \<and> dropUndefinedDeep v = v)"
proof
  assume "\<forall>(k, v)\<in>set obj. v \<noteq> JUndef \<and> dropUndefinedDeep v = v"
  then show "dropUndefinedDeep (JObj obj) = JObj obj" by (induction obj) auto
next
  assume c: "dropUndefinedDeep (JObj obj) = JObj obj"
  then have "length (filter (\<lambda>(k, x). x \<noteq> JUndef) obj) = length obj" by (metis dropUndefinedDeep_simps(7) js.inject(5) length_map)
  then have "filter (\<lambda>(k, x). x \<noteq> JUndef) obj = obj" 
    using length_filter_less [of _ obj "\<lambda>(k, x). x \<noteq> JUndef"] by (force intro!: filter_True)
  with c have "map (\<lambda>(k, x). (k, dropUndefinedDeep x)) obj = map id obj" and "\<forall>(k, v)\<in>set obj. v \<noteq> JUndef"
    by (simp_all add: filter_id_conv)
  then show "\<forall>(k, v)\<in>set obj. v \<noteq> JUndef \<and> dropUndefinedDeep v = v" unfolding map_eq_conv by fastforce
qed

lemma clean_fields:
  assumes "dropUndefinedDeep (JObj obj) = JObj obj"
  shows "has_own obj k \<longleftrightarrow> oget obj k \<noteq> JUndef" and "dropUndefinedDeep (oget obj k) = oget obj k"
  using assms unfolding clean_entries
  by (auto simp: oget_def has_own_def split: option.splits dest!: map_of_SomeD)

lemma clean_undefined: "dropUndefinedDeep v = JUndef \<longleftrightarrow> v = JUndef"
  by (cases v) simp_all

lemma oget_defined_fields:
  assumes "distinct (map fst obj)"
  shows "oget (defined_fields obj) k = oget obj k"
  using assms by (induction obj) (auto simp: defined_fields_def has_own_iff [symmetric] split: if_splits)

lemma listed:
  assumes "\<forall>(k, v)\<in>set obj. g k = v"
  shows "map (\<lambda>(k, x). (k, dropUndefinedDeep x)) (filter (\<lambda>(k, x). x \<noteq> JUndef) obj) =
    map (\<lambda>k. (k, dropUndefinedDeep (g k))) (filter (\<lambda>k. g k \<noteq> JUndef) (map fst obj))"
  using assms by (induction obj) auto

lemma clean_listed:
  assumes "distinct (map fst obj)"
  shows "dropUndefinedDeep (JObj obj) =
    JObj (map (\<lambda>k. (k, dropUndefinedDeep (oget obj k))) (filter (\<lambda>k. oget obj k \<noteq> JUndef) (map fst obj)))"
  using assms by (auto simp: oget_def intro!: listed)

lemma restored:
  assumes "keeps obj wire" and "dropUndefinedDeep (JObj obj) = JObj obj"
    and "\<And>k. dropUndefinedDeep (oget wire k) = oget obj k"
  shows "dropUndefinedDeep (JObj wire) = JObj obj"
proof -
  note c = clean_fields [OF assms(2)]
  have w: "oget wire k \<noteq> JUndef \<longleftrightarrow> has_own obj k" for k
    using assms(3) [of k] clean_undefined c(1) by metis
  have k: "distinct (map fst wire)" "filter (has_own obj) (map fst wire) = map fst obj"
    using assms(1) by (simp_all add: keeps_def)
  then have d: "distinct (map fst obj)" by (metis distinct_filter)
  then have "filter (\<lambda>k. oget obj k \<noteq> JUndef) (map fst obj) = map fst obj"
    unfolding c(1) [symmetric] using keeps_self by (simp add: keeps_def)
  then have "JObj obj = JObj (map (\<lambda>k. (k, oget obj k)) (map fst obj))"
    using clean_listed [OF d] assms(2) c(2) by simp
  with clean_listed [OF k(1)] show ?thesis by (simp add: w k(2) assms(3) del: dropUndefinedDeep_simps(7))
qed

lemma keeps_defined [intro]:
  assumes "keeps obj wire" and "\<And>k. has_own obj k \<Longrightarrow> oget wire k \<noteq> JUndef"
  shows "keeps obj (defined_fields wire)"
proof -
  from assms(1) have d: "distinct (map fst wire)" by (simp add: keeps_def)
  have "filter (has_own obj) (map fst (filter (\<lambda>(k, v). v \<noteq> JUndef) wire)) = filter (has_own obj) (map fst wire)"
    if "\<forall>(k, v)\<in>set wire. has_own obj k \<longrightarrow> v \<noteq> JUndef"
    using that by (induction wire) auto
  moreover have "\<forall>(k, v)\<in>set wire. has_own obj k \<longrightarrow> v \<noteq> JUndef"
  proof (clarify)
    fix k
    assume "(k, JUndef) \<in> set wire" "has_own obj k"
    with d assms(2) [of k] show False by (simp add: oget_def)
  qed
  ultimately show ?thesis
    using assms(1) by (simp add: keeps_def defined_fields_def distinct_map_filter)
qed

text \<open>The object a message keeps through both conversions, written out by its fields.\<close>

lemma clean_defined_fields: "dropUndefinedDeep (JObj (defined_fields obj)) = dropUndefinedDeep (JObj obj)"
  by (simp add: defined_fields_def)

lemma tool_call_round_trip:
  assumes "sendable_tool_call t" and "dropUndefinedDeep t = t"
  shows "dropUndefinedDeep (wire_tool_call t) = t"
proof -
  from assms(1) obtain obj where t: "t = JObj obj" and d: "distinct (map fst obj)"
    and m: "optional_object (oget obj ''metadata'')"
    by (cases t) (auto simp: sendable_tool_call_def)
  have f: "dropUndefinedDeep (oget obj k) = oget obj k" for k using clean_fields(2) assms(2) t by simp
  have "dropUndefinedDeep (JObj (oset ''metadata'' (oget obj ''metadata'') obj)) = JObj obj"
    using keeps_oset [OF keeps_self [OF d]] assms(2) unfolding t by (rule restored) (simp add: f)
  then show ?thesis unfolding t wire_tool_call_def by (simp add: m record_or_empty_def del: dropUndefinedDeep_simps(7))
qed

lemma finish_restores:
  assumes "dropUndefinedDeep (JObj obj) = JObj obj"
    and absent: "\<not> has_own obj ''contentParts''" "\<not> has_own obj ''activityContent''"
    and calls: "oget obj ''toolCalls'' = JUndef \<or> is_array (oget obj ''toolCalls'') \<and>
      elements (oget obj ''toolCalls'') \<noteq> [] \<and> list_all sendable_tool_call (elements (oget obj ''toolCalls''))"
    and k: "keeps obj message"
    and tc: "oget wire ''toolCalls'' = JArr (map wire_tool_call (asArray (oget obj ''toolCalls'')))"
      "oget message ''toolCalls'' = oget wire ''toolCalls''"
    and same: "\<And>k. k \<notin> {''toolCalls'', ''contentParts'', ''activityContent''} \<Longrightarrow>
      dropUndefinedDeep (oget message k) = oget obj k"
  shows "dropUndefinedDeep (JObj (finish_message wire message)) = JObj obj"
proof -
  note f = clean_fields [OF assms(1)]
  let ?m = "odel ''contentParts'' (odel ''activityContent'' message)"
  have "keeps obj ?m" using k absent by blast
  show ?thesis
  proof (cases "oget obj ''toolCalls'' = JUndef")
    case True
    have "keeps obj (odel ''toolCalls'' ?m)" using \<open>keeps obj ?m\<close> True f(1) by blast
    have "dropUndefinedDeep (oget (odel ''toolCalls'' ?m) k) = oget obj k" for k
      using same [of k] True oget_absent [OF absent(1)] oget_absent [OF absent(2)]
      by (cases "k = ''toolCalls''"; cases "k = ''contentParts''"; cases "k = ''activityContent''") simp_all
    with \<open>keeps obj (odel ''toolCalls'' ?m)\<close> assms(1)
    have "dropUndefinedDeep (JObj (odel ''toolCalls'' ?m)) = JObj obj" by (rule restored)
    with True tc show ?thesis
      by (simp add: finish_message_def asArray_def clean_defined_fields del: dropUndefinedDeep_simps(7))
  next
    case False
    with calls obtain ts where ts: "oget obj ''toolCalls'' = JArr ts" "ts \<noteq> []" "list_all sendable_tool_call ts"
      by (cases "oget obj ''toolCalls''") auto
    have "map dropUndefinedDeep ts = map id ts" using f(2) [of "''toolCalls''"] ts(1) by simp
    then have "map (dropUndefinedDeep \<circ> wire_tool_call) ts = ts"
      using ts(3) unfolding map_eq_conv by (intro map_idI) (simp add: list_all_iff tool_call_round_trip)
    with tc ts have calls: "dropUndefinedDeep (oget message ''toolCalls'') = oget obj ''toolCalls''"
      by (simp add: asArray_def)
    have "dropUndefinedDeep (oget ?m k) = oget obj k" for k
      using same [of k] calls oget_absent [OF absent(1)] oget_absent [OF absent(2)]
      by (cases "k = ''toolCalls''"; cases "k = ''contentParts''"; cases "k = ''activityContent''") simp_all
    with \<open>keeps obj ?m\<close> assms(1) have "dropUndefinedDeep (JObj ?m) = JObj obj" by (rule restored)
    with ts tc show ?thesis
      by (simp add: finish_message_def asArray_def clean_defined_fields del: dropUndefinedDeep_simps(7))
  qed
qed

lemma message_round_trip:
  assumes "sendable_message message"
  shows "map_sum id (\<lambda>m. dropUndefinedDeep (JObj m)) (fromWireMessage (JObj (toWireMessage message))) = Inr message"
proof -
  from assms obtain obj where m: "message = JObj obj" and d: "distinct (map fst obj)"
    and c: "dropUndefinedDeep (JObj obj) = JObj obj"
    and n: "\<not> has_own obj ''contentParts''" "\<not> has_own obj ''activityContent''"
    and md: "optional_object (oget obj ''metadata'')"
    by (cases message) (auto simp: sendable_message_def)
  have c2: "oget obj ''contentParts'' = JUndef" "oget obj ''activityContent'' = JUndef" using n by simp_all
  note f = clean_fields(2) [OF c]
  have calls: "oget obj ''toolCalls'' = JUndef \<or> is_array (oget obj ''toolCalls'') \<and>
      elements (oget obj ''toolCalls'') \<noteq> [] \<and> list_all sendable_tool_call (elements (oget obj ''toolCalls''))"
    using assms m by (simp add: sendable_message_def)
  obtain r where r: "r \<in> set KNOWN_ROLES" "oget obj ''role'' = JStr r" "sendable_content r (oget obj ''content'')"
    using assms m by (auto simp: sendable_message_def list_ex_iff)
  let ?base = "oset ''toolCalls'' (JArr (map wire_tool_call (asArray (oget obj ''toolCalls''))))
    (oset ''metadata'' (oget obj ''metadata'') (oset ''contentParts'' (JArr []) obj))"
  let ?w = "toWireMessage message"
  have kb: "keeps obj ?base" using keeps_self [OF d] by (intro keeps_oset)
  have to: "?w = (let content = oget obj ''content'' in
      if is_array content then oset ''content'' JUndef (oset ''contentParts'' (JArr (to_parts (elements content))) ?base)
      else if r = ''activity'' then oset ''content'' JUndef (oset ''activityContent'' (if is_object content then content else JObj []) ?base)
      else ?base)"
    using m md r(2) by (simp add: toWireMessage_def record_or_empty_def MAP_CONTENT_ROLES_def Let_def)
  consider (parts) ps where "r \<in> set PARTS_CONTENT_ROLES" "oget obj ''content'' = JArr ps" "list_all sendable_part ps"
    | (activity) "r = ''activity''" "is_object (oget obj ''content'')"
    | (other) "r \<noteq> ''activity''" "\<not> is_array (oget obj ''content'')"
      "r \<in> set PARTS_CONTENT_ROLES \<longrightarrow> oget obj ''content'' \<noteq> JUndef"
    using r(3) unfolding sendable_content_def MAP_CONTENT_ROLES_def
    by (cases "oget obj ''content''") (auto split: if_splits)
  then show ?thesis
  proof cases
    case parts
    then have w: "?w = oset ''content'' JUndef (oset ''contentParts'' (JArr (to_parts ps)) ?base)" by (simp add: to)
    have ra: "r \<noteq> ''activity''" using parts(1) by (auto simp: PARTS_CONTENT_ROLES_def)
    let ?M = "oset ''content'' (JArr (map (canonical_part \<circ> fields_of) ps)) ?w"
    have "fromWireMessage (JObj ?w) = Inr (finish_message ?w ?M)"
      using r parts ra c2 parts_round_trip [OF parts(3)]
      by (simp add: fromWireMessage_def carrier_conflict_def record_or_empty_def asArray_def w MAP_CONTENT_ROLES_def Let_def)
    moreover have "dropUndefinedDeep (JObj (finish_message ?w ?M)) = JObj obj"
      using c n calls
    proof (rule finish_restores)
      show "keeps obj ?M" unfolding w by (rule keeps_oset [OF keeps_oset [OF keeps_oset [OF kb]]])
      show "dropUndefinedDeep (oget ?M k) = oget obj k" if "k \<notin> {''toolCalls'', ''contentParts'', ''activityContent''}" for k
        using that parts parts_cleaned [OF parts(3)] f [of k] by (auto simp: w)
    qed (simp_all add: w)
    ultimately show ?thesis by (simp add: m)
  next
    case activity
    then have w: "?w = oset ''content'' JUndef (oset ''activityContent'' (oget obj ''content'') ?base)"
      by (cases "oget obj ''content''") (simp_all add: to)
    let ?M = "oset ''content'' (oget obj ''content'') ?w"
    have "oget obj ''content'' \<noteq> JUndef" using activity by auto
    then have "fromWireMessage (JObj ?w) = Inr (finish_message ?w ?M)"
      using r activity c2
      by (simp add: fromWireMessage_def carrier_conflict_def record_or_empty_def asArray_def w MAP_CONTENT_ROLES_def
          PARTS_CONTENT_ROLES_def Let_def)
    moreover have "dropUndefinedDeep (JObj (finish_message ?w ?M)) = JObj obj"
      using c n calls
    proof (rule finish_restores)
      show "keeps obj ?M" unfolding w by (rule keeps_oset [OF keeps_oset [OF keeps_oset [OF kb]]])
      show "dropUndefinedDeep (oget ?M k) = oget obj k" if "k \<notin> {''toolCalls'', ''contentParts'', ''activityContent''}" for k
        using that f [of k] by (auto simp: w)
    qed (simp_all add: w)
    ultimately show ?thesis by (simp add: m)
  next
    case other
    then have w: "?w = ?base" by (simp add: to Let_def)
    have "fromWireMessage (JObj ?w) = Inr (finish_message ?w ?w)"
      using r other c2
      by (cases "r \<in> set PARTS_CONTENT_ROLES")
        (simp_all add: fromWireMessage_def carrier_conflict_def record_or_empty_def asArray_def w MAP_CONTENT_ROLES_def Let_def)
    moreover have "dropUndefinedDeep (JObj (finish_message ?w ?w)) = JObj obj"
      using c n calls
    proof (rule finish_restores)
      show "keeps obj ?w" unfolding w by (rule kb)
      show "dropUndefinedDeep (oget ?w k) = oget obj k" if "k \<notin> {''toolCalls'', ''contentParts'', ''activityContent''}" for k
        using that f [of k] by (auto simp: w)
    qed (simp_all add: w)
    ultimately show ?thesis by (simp add: m)
  qed
qed

text \<open>
  C9. Decoding a message never loses content in silence: when it succeeds, at most one of the three
  carriers of the wire form was populated, whatever the role, and the content of the message is
  that carrier's, the parts of a known kind decoded in order.
\<close>

theorem no_content_is_lost:
  assumes "fromWireMessage (JObj wire) = Inr message" and "distinct (map fst wire)"
  shows "of_bool (oget wire ''content'' \<noteq> JUndef) + of_bool (asArray (oget wire ''contentParts'') \<noteq> []) +
      of_bool (oget wire ''activityContent'' \<noteq> JUndef) \<le> (1 :: nat) \<and>
    (oget wire ''content'' \<noteq> JUndef \<longrightarrow> oget message ''content'' = oget wire ''content'') \<and>
    (oget wire ''activityContent'' \<noteq> JUndef \<longrightarrow> oget message ''content'' = oget wire ''activityContent'') \<and>
    (asArray (oget wire ''contentParts'') \<noteq> [] \<longrightarrow>
      (\<exists>parts. from_parts (asArray (oget wire ''contentParts'')) = Inr parts \<and> oget message ''content'' = JArr parts))"
proof -
  have fin: "oget (finish_message w m) ''content'' = oget m ''content''" if "distinct (map fst m)" for w m
    using that by (simp add: finish_message_def Let_def oget_defined_fields)
  show ?thesis
    using assms(1) assms(2) fin [OF assms(2)] fin [OF distinct_oset [OF assms(2)]] fin [OF distinct_oset [OF distinct_oset [OF assms(2)]]]
    by (auto simp: fromWireMessage_def carrier_conflict_def record_or_empty_def Let_def map_sum_Inr KNOWN_ROLES_def
        PARTS_CONTENT_ROLES_def MAP_CONTENT_ROLES_def split: if_splits sum.splits option.splits)
qed

text \<open>A user message with two parts on the wire.\<close>

definition demo_parts :: jobj where
  "demo_parts = [(''role'', JStr ''user''), (''content'', JUndef),
     (''contentParts'', JArr [JObj [(''text'', JObj [(''text'', JStr ''look'')])],
        JObj [(''image'', JObj [(''source'', JObj [(''url'', JObj [(''value'', JStr ''u'')])])])]])]"

theorem no_content_is_lost_witness:
  "\<exists>m parts. fromWireMessage (JObj demo_parts) = Inr m \<and> oget m ''content'' = JArr parts \<and> length parts = 2"
proof -
  have d: "distinct (map fst demo_parts)" by (simp add: demo_parts_def)
  have "map_sum (\<lambda>err. ()) (\<lambda>m. ()) (fromWireMessage (JObj demo_parts)) = Inr ()" by code_simp
  then obtain m where m: "fromWireMessage (JObj demo_parts) = Inr m" by (cases "fromWireMessage (JObj demo_parts)") simp_all
  have p: "asArray (oget demo_parts ''contentParts'') \<noteq> []" "map_sum id length (from_parts (asArray (oget demo_parts ''contentParts''))) = Inr 2"
    by code_simp+
  from no_content_is_lost [OF m d] p m show ?thesis by (auto simp: map_sum_Inr)
qed

end
