(* ===== verification/AGUI_ProtoEvents.thy ===== *)
theory AGUI_ProtoEvents
  imports AGUI_ProtoConvert
begin

section \<open>Converting whole events\<close>

text \<open>
  Run inputs and events at the value level of \<^verbatim>\<open>proto/src/proto.ts\<close>: \<open>event_to_wire\<close> is
  \<open>encode\<close> before the generated encoder, \<open>event_from_wire\<close> is \<open>decode\<close> after the
  generated decoder. An event whose fields have the shape of its kind comes back with the fields it had.
\<close>

subsection \<open>Run inputs\<close>

definition normalizeItemMetadata :: "js \<Rightarrow> js" where
  "normalizeItemMetadata v =
     JObj (oset ''metadata'' (normalizeMetadata (oget (record_or_empty v) ''metadata'')) (record_or_empty v))"

definition toWireRunAgentInput :: "js \<Rightarrow> js" where
  "toWireRunAgentInput v =
     (case asRecord v of
        None \<Rightarrow> JUndef
      | Some input \<Rightarrow>
          JObj [(''threadId'', oget input ''threadId''), (''runId'', oget input ''runId''),
            (''protocolVersion'', oget input ''protocolVersion''), (''parentRunId'', oget input ''parentRunId''),
            (''state'', oget input ''state''),
            (''messages'', JArr (map (JObj \<circ> toWireMessage) (asArray (oget input ''messages'')))),
            (''tools'', JArr (map normalizeItemMetadata (asArray (oget input ''tools'')))),
            (''context'', JArr (asArray (oget input ''context''))),
            (''forwardedProps'', oget input ''forwardedProps''),
            (''resume'', JArr (map normalizeItemMetadata (asArray (oget input ''resume''))))])"

definition fromWireRunAgentInput :: "js \<Rightarrow> decode_error + js" where
  "fromWireRunAgentInput v =
     (case asRecord v of
        None \<Rightarrow> Inr JUndef
      | Some rec \<Rightarrow>
          map_sum id (\<lambda>messages. JObj (
            opt_field ''threadId'' (oget rec ''threadId'') @ opt_field ''runId'' (oget rec ''runId'') @
            opt_field ''protocolVersion'' (oget rec ''protocolVersion'') @
            opt_field ''parentRunId'' (oget rec ''parentRunId'') @ opt_field ''state'' (oget rec ''state'') @
            [(''messages'', JArr messages), (''tools'', JArr (asArray (oget rec ''tools''))),
             (''context'', JArr (asArray (oget rec ''context'')))] @
            opt_field ''forwardedProps'' (oget rec ''forwardedProps'') @
            [(''resume'', JArr (asArray (oget rec ''resume'')))]))
            (from_messages (asArray (oget rec ''messages''))))"

subsection \<open>Enumerations of the generated code\<close>

text \<open>
  A numeric enumeration compiles to an object with an entry in each direction. \<open>js_key\<close> is the
  property key of a value (the generated decoder only yields numbers here).
\<close>

fun js_key :: "js \<Rightarrow> string" where
  "js_key JUndef = ''undefined''"
| "js_key JNull = ''null''"
| "js_key (JBool b) = (if b then ''true'' else ''false'')"
| "js_key (JNum n) = (if n < 0 then CHR ''-'' # digits (nat (- n)) else digits (nat n))"
| "js_key (JStr s) = s"
| "js_key _ = ''[object Object]''"

definition enum_object :: "string list \<Rightarrow> jobj" where
  "enum_object names =
     zip names (map (JNum \<circ> int) [0..<length names]) @ [(''UNRECOGNIZED'', JNum (- 1))] @
     zip (map digits [0..<length names]) (map JStr names) @ [(''-1'', JStr ''UNRECOGNIZED'')]"

definition PATCH_OPERATIONS :: "string list" where
  "PATCH_OPERATIONS = [''ADD'', ''REMOVE'', ''REPLACE'', ''MOVE'', ''COPY'', ''TEST'']"

definition JsonPatchOperationType :: jobj where
  "JsonPatchOperationType = enum_object PATCH_OPERATIONS"

definition EVENT_NAMES :: "string list" where
  "EVENT_NAMES =
     [''TEXT_MESSAGE_START'', ''TEXT_MESSAGE_CONTENT'', ''TEXT_MESSAGE_END'', ''TOOL_CALL_START'', ''TOOL_CALL_ARGS'',
      ''TOOL_CALL_END'', ''STATE_SNAPSHOT'', ''STATE_DELTA'', ''MESSAGES_SNAPSHOT'', ''RAW'', ''CUSTOM'', ''RUN_STARTED'',
      ''RUN_FINISHED'', ''RUN_ERROR'', ''STEP_STARTED'', ''STEP_FINISHED'', ''SUBAGENT_STARTED'', ''SUBAGENT_FINISHED'',
      ''SUBAGENT_ERROR'', ''TEXT_MESSAGE_CHUNK'', ''TOOL_CALL_CHUNK'', ''TOOL_CALL_RESULT'', ''ACTIVITY_SNAPSHOT'',
      ''ACTIVITY_DELTA'', ''REASONING_START'', ''REASONING_MESSAGE_START'', ''REASONING_MESSAGE_CONTENT'',
      ''REASONING_MESSAGE_END'', ''REASONING_MESSAGE_CHUNK'', ''REASONING_END'', ''REASONING_ENCRYPTED_VALUE'']"

definition EventTypeEnum :: jobj where
  "EventTypeEnum = enum_object EVENT_NAMES"

definition ENVELOPE_TYPE :: "(string \<times> string) list" where
  "ENVELOPE_TYPE =
     [(''textMessageStart'', ''TEXT_MESSAGE_START''), (''textMessageContent'', ''TEXT_MESSAGE_CONTENT''),
      (''textMessageEnd'', ''TEXT_MESSAGE_END''), (''textMessageChunk'', ''TEXT_MESSAGE_CHUNK''),
      (''toolCallStart'', ''TOOL_CALL_START''), (''toolCallArgs'', ''TOOL_CALL_ARGS''),
      (''toolCallEnd'', ''TOOL_CALL_END''), (''toolCallChunk'', ''TOOL_CALL_CHUNK''),
      (''toolCallResult'', ''TOOL_CALL_RESULT''), (''stateSnapshot'', ''STATE_SNAPSHOT''),
      (''stateDelta'', ''STATE_DELTA''), (''messagesSnapshot'', ''MESSAGES_SNAPSHOT''),
      (''activitySnapshot'', ''ACTIVITY_SNAPSHOT''), (''activityDelta'', ''ACTIVITY_DELTA''), (''raw'', ''RAW''),
      (''custom'', ''CUSTOM''), (''runStarted'', ''RUN_STARTED''), (''runFinished'', ''RUN_FINISHED''),
      (''runError'', ''RUN_ERROR''), (''stepStarted'', ''STEP_STARTED''), (''stepFinished'', ''STEP_FINISHED''),
      (''reasoningStart'', ''REASONING_START''), (''reasoningMessageStart'', ''REASONING_MESSAGE_START''),
      (''reasoningMessageContent'', ''REASONING_MESSAGE_CONTENT''), (''reasoningMessageEnd'', ''REASONING_MESSAGE_END''),
      (''reasoningMessageChunk'', ''REASONING_MESSAGE_CHUNK''), (''reasoningEnd'', ''REASONING_END''),
      (''reasoningEncryptedValue'', ''REASONING_ENCRYPTED_VALUE''), (''subagentStarted'', ''SUBAGENT_STARTED''),
      (''subagentFinished'', ''SUBAGENT_FINISHED''), (''subagentError'', ''SUBAGENT_ERROR'')]"

subsection \<open>Encoding an event\<close>

text \<open>The two places where encoding throws a \<open>TypeError\<close>: a type, or the name of an operation, that is no string.\<close>

datatype encode_error = TypeNotString | OperationNotString

definition encode_operation :: "js \<Rightarrow> encode_error + js" where
  "encode_operation operation =
     (case jprop operation ''op'' of
        JStr name \<Rightarrow> Inr (JObj (oset ''op'' (oget JsonPatchOperationType (map upper name)) (fields_of operation)))
      | _ \<Rightarrow> Inl OperationNotString)"

fun encode_operations :: "js list \<Rightarrow> encode_error + js list" where
  "encode_operations [] = Inr []"
| "encode_operations (x # xs) =
     (case encode_operation x of Inl err \<Rightarrow> Inl err | Inr y \<Rightarrow> map_sum id ((#) y) (encode_operations xs))"

definition encode_patch :: "string \<Rightarrow> jobj \<Rightarrow> encode_error + jobj" where
  "encode_patch k rest =
     (case oget rest k of
        JArr operations \<Rightarrow> map_sum id (\<lambda>ops. oset k (JArr ops) rest) (encode_operations operations)
      | _ \<Rightarrow> Inr rest)"

definition outcome_type :: "js \<Rightarrow> js" where
  "outcome_type outcome = oget (record_or_empty outcome) ''type''"

definition outcome_name :: "js \<Rightarrow> js" where
  "outcome_name outcome = (if is_string (outcome_type outcome) then outcome_type outcome else JStr [])"

definition encode_run_outcome :: "jobj \<Rightarrow> jobj" where
  "encode_run_outcome event =
     (let outcome = oget event ''outcome'';
          rest = oset ''interrupts'' (JArr []) (oset ''pendingToolCallIds'' (JArr []) event) in
      if outcome = JUndef then oset ''outcome'' (JStr []) rest
      else if outcome_type outcome = JStr ''success'' then
        oset ''pendingToolCallIds'' (JArr (asArray (oget (record_or_empty outcome) ''pendingToolCallIds'')))
          (oset ''outcome'' (JStr ''success'') rest)
      else if outcome_type outcome = JStr ''interrupt'' then
        oset ''interrupts'' (JArr (asArray (oget (record_or_empty outcome) ''interrupts'')))
          (oset ''outcome'' (JStr ''interrupt'') rest)
      else if outcome_type outcome = JStr ''cancelled'' then oset ''outcome'' (JStr ''cancelled'') rest
      else oset ''outcome'' (outcome_name outcome) rest)"

definition encode_subagent_outcome :: "jobj \<Rightarrow> jobj" where
  "encode_subagent_outcome event =
     (let outcome = oget event ''outcome'';
          rest = oset ''interruptIds'' (JArr []) event in
      if outcome = JUndef then oset ''outcome'' (JStr []) rest
      else if outcome_type outcome = JStr ''success'' then oset ''outcome'' (JStr ''success'') rest
      else if outcome_type outcome = JStr ''suspended'' then
        oset ''interruptIds'' (JArr (asArray (oget (record_or_empty outcome) ''interruptIds'')))
          (oset ''outcome'' (JStr ''suspended'') rest)
      else oset ''outcome'' (outcome_name outcome) rest)"

definition encode_usage :: "jobj \<Rightarrow> jobj" where
  "encode_usage rest = oset ''usage'' (JArr (asArray (oget rest ''usage''))) rest"

definition encode_result_content :: "jobj \<Rightarrow> jobj" where
  "encode_result_content rest =
     (if is_array (oget rest ''content'') then
        oset ''content'' JUndef (oset ''contentParts'' (JArr (to_parts (elements (oget rest ''content'')))) rest)
      else oset ''contentParts'' (JArr []) rest)"

definition encode_rest :: "string \<Rightarrow> jobj \<Rightarrow> encode_error + jobj" where
  "encode_rest t rest =
     (if t = ''MESSAGES_SNAPSHOT'' \<and> is_array (oget rest ''messages'') then
        Inr (oset ''messages'' (JArr (map (JObj \<circ> toWireMessage) (elements (oget rest ''messages'')))) rest)
      else if t = ''RUN_FINISHED'' then Inr (encode_usage (encode_run_outcome rest))
      else if t = ''SUBAGENT_FINISHED'' then Inr (encode_subagent_outcome rest)
      else if t = ''STATE_DELTA'' then encode_patch ''delta'' rest
      else if t = ''ACTIVITY_DELTA'' then encode_patch ''patch'' rest
      else if t = ''RUN_ERROR'' then Inr (encode_usage rest)
      else if t = ''TOOL_CALL_RESULT'' then Inr (encode_result_content rest)
      else if t = ''RUN_STARTED'' \<and> oget rest ''input'' \<noteq> JUndef then
        Inr (oset ''input'' (toWireRunAgentInput (oget rest ''input'')) rest)
      else Inr rest)"

text \<open>
  \<open>encode\<close> up to the generated encoder: the arm of the envelope and its message. The base event
  names the type the given event has, everything else comes from the validated one.
\<close>

definition event_to_wire :: "js \<Rightarrow> jobj \<Rightarrow> encode_error + (string \<times> jobj)" where
  "event_to_wire given validated =
     (case oget validated ''type'' of
        JStr t \<Rightarrow>
          map_sum id
            (\<lambda>rest. (toCamelCase t, spread [(''baseEvent'', JObj
               [(''type'', oget EventTypeEnum (js_key (jprop given ''type''))), (''timestamp'', oget validated ''timestamp''),
                (''rawEvent'', oget validated ''rawEvent''), (''metadata'', normalizeMetadata (oget validated ''metadata''))])] rest))
            (encode_rest t (odel ''metadata'' (odel ''rawEvent'' (odel ''timestamp'' (odel ''type'' validated)))))
      | _ \<Rightarrow> Inl TypeNotString)"

subsection \<open>Decoding an event\<close>

definition operation_name :: "js \<Rightarrow> string" where
  "operation_name op =
     (case oget JsonPatchOperationType (js_key op) of
        JStr name \<Rightarrow> if name \<noteq> ''UNRECOGNIZED'' then map lower name else js_key op
      | _ \<Rightarrow> js_key op)"

definition decode_operation :: "js \<Rightarrow> js" where
  "decode_operation operation =
     JObj (defined_fields (oset ''op'' (JStr (operation_name (jprop operation ''op''))) (record_or_empty operation)))"

definition decode_patch :: "string \<Rightarrow> jobj \<Rightarrow> jobj" where
  "decode_patch k decoded =
     (case oget decoded k of
        JArr operations \<Rightarrow> oset k (JArr (map decode_operation operations)) decoded
      | _ \<Rightarrow> decoded)"

definition list_field :: "string \<Rightarrow> js \<Rightarrow> jobj" where
  "list_field k v = (if asArray v = [] then [] else [(k, v)])"

definition wire_outcome :: "jobj \<Rightarrow> string" where
  "wire_outcome decoded = (case oget decoded ''outcome'' of JStr s \<Rightarrow> s | _ \<Rightarrow> [])"

definition decode_run_outcome :: "jobj \<Rightarrow> jobj" where
  "decode_run_outcome decoded =
     (let outcome = wire_outcome decoded;
          pending = oget decoded ''pendingToolCallIds'';
          interrupts = oget decoded ''interrupts'';
          rest = odel ''outcome'' (odel ''interrupts'' (odel ''pendingToolCallIds'' decoded)) in
      if outcome = [] then
        spread rest (list_field ''pendingToolCallIds'' pending @ list_field ''interrupts'' interrupts)
      else if outcome = ''interrupt'' then
        oset ''outcome'' (JObj ([(''type'', JStr outcome), (''interrupts'', JArr (asArray interrupts))] @
          list_field ''pendingToolCallIds'' pending)) rest
      else oset ''outcome'' (JObj ((''type'', JStr outcome) # list_field ''pendingToolCallIds'' pending @
          list_field ''interrupts'' interrupts)) rest)"

definition decode_subagent_outcome :: "jobj \<Rightarrow> jobj" where
  "decode_subagent_outcome decoded =
     (let outcome = wire_outcome decoded;
          ids = oget decoded ''interruptIds'';
          rest = odel ''outcome'' (odel ''interruptIds'' decoded) in
      if outcome = [] then spread rest (list_field ''interruptIds'' ids)
      else oset ''outcome'' (JObj ((''type'', JStr outcome) # list_field ''interruptIds'' ids)) rest)"

definition decode_usage :: "jobj \<Rightarrow> jobj" where
  "decode_usage decoded = (if oget decoded ''usage'' = JArr [] then odel ''usage'' decoded else decoded)"

definition decode_result_content :: "jobj \<Rightarrow> decode_error + jobj" where
  "decode_result_content decoded =
     (let content = oget decoded ''content''; parts = asArray (oget decoded ''contentParts'') in
      if content \<noteq> JUndef \<and> parts \<noteq> [] then Inl EventWithBoth
      else map_sum id (odel ''contentParts'')
        (if content = JUndef then map_sum id (\<lambda>vs. oset ''content'' (JArr vs) decoded) (from_parts parts) else Inr decoded))"

definition decode_rest :: "string \<Rightarrow> jobj \<Rightarrow> decode_error + jobj" where
  "decode_rest t decoded =
     (if t = ''MESSAGES_SNAPSHOT'' \<and> is_array (oget decoded ''messages'') then
        map_sum id (\<lambda>ms. oset ''messages'' (JArr ms) decoded) (from_messages (elements (oget decoded ''messages'')))
      else if t = ''RUN_FINISHED'' then Inr (decode_usage (decode_run_outcome decoded))
      else if t = ''SUBAGENT_FINISHED'' then Inr (decode_subagent_outcome decoded)
      else if t = ''STATE_DELTA'' then Inr (decode_patch ''delta'' decoded)
      else if t = ''ACTIVITY_DELTA'' then Inr (decode_patch ''patch'' decoded)
      else if t = ''RUN_ERROR'' then Inr (decode_usage decoded)
      else if t = ''TOOL_CALL_RESULT'' then decode_result_content decoded
      else if t = ''RUN_STARTED'' \<and> oget decoded ''input'' \<noteq> JUndef then
        map_sum id (\<lambda>v. oset ''input'' v decoded) (fromWireRunAgentInput (oget decoded ''input''))
      else Inr decoded)"

text \<open>\<open>decode\<close> after the generated decoder, for an envelope with one populated arm.\<close>

definition decode_base :: "string \<Rightarrow> jobj \<Rightarrow> jobj \<Rightarrow> jobj" where
  "decode_base t base message =
     (let decoded = oset ''rawEvent'' (oget base ''rawEvent'')
            (oset ''timestamp'' (oget base ''timestamp'') (oset ''type'' (JStr t) message)) in
      odel ''baseEvent''
        (if oget base ''metadata'' = JUndef then decoded else oset ''metadata'' (oget base ''metadata'') decoded))"

definition event_from_wire :: "string \<Rightarrow> jobj \<Rightarrow> decode_error + js" where
  "event_from_wire arm message =
     (case map_of ENVELOPE_TYPE arm of
        None \<Rightarrow> Inl InvalidEvent
      | Some t \<Rightarrow>
          (case asRecord (oget message ''baseEvent'') of
             None \<Rightarrow> Inl InvalidEvent
           | Some base \<Rightarrow>
               (let declared = oget EventTypeEnum (js_key (oget base ''type'')) in
                if declared \<noteq> JStr t then Inl (TypeMismatch t declared)
                else map_sum id (\<lambda>decoded. dropUndefinedDeep (JObj decoded)) (decode_rest t (decode_base t base message)))))"

subsection \<open>Events come back\<close>

lemma is_array_iff: "is_array v \<longleftrightarrow> (\<exists>xs. v = JArr xs)"
  by (cases v) simp_all

lemma messages_round_trip:
  assumes "list_all sendable_message ms"
  shows "\<exists>vs. from_messages (map (JObj \<circ> toWireMessage) ms) = Inr vs \<and> map dropUndefinedDeep vs = ms"
  using assms
proof (induction ms)
  case (Cons message ms)
  from Cons.prems have "list_all sendable_message ms" by simp
  from Cons.IH [OF this] obtain vs
    where vs: "from_messages (map (JObj \<circ> toWireMessage) ms) = Inr vs" "map dropUndefinedDeep vs = ms"
    by blast
  from Cons.prems message_round_trip [of message]
  obtain m where "fromWireMessage (JObj (toWireMessage message)) = Inr m" "dropUndefinedDeep (JObj m) = message"
    by (auto simp: map_sum_Inr simp del: dropUndefinedDeep_simps dest!: sym [of _ "Inr message"])
  with vs show ?case by (auto simp: comp_def simp del: dropUndefinedDeep_simps)
qed simp

definition sendable_item :: "js \<Rightarrow> bool" where
  "sendable_item v \<longleftrightarrow> is_object v \<and> distinct (map fst (fields_of v)) \<and> optional_object (jprop v ''metadata'')"

lemma item_round_trip:
  assumes "sendable_item v" and "dropUndefinedDeep v = v"
  shows "dropUndefinedDeep (normalizeItemMetadata v) = v"
proof -
  have "sendable_tool_call v" "normalizeItemMetadata v = wire_tool_call v"
    using assms(1) by (cases v; simp add: sendable_item_def sendable_tool_call_def normalizeItemMetadata_def wire_tool_call_def)+
  with tool_call_round_trip assms(2) show ?thesis by simp
qed

lemma items_round_trip:
  assumes "list_all sendable_item xs" and "map dropUndefinedDeep xs = xs"
  shows "map (dropUndefinedDeep \<circ> normalizeItemMetadata) xs = xs"
proof -
  have "map dropUndefinedDeep xs = map id xs" using assms(2) by simp
  with assms(1) show ?thesis unfolding map_eq_conv by (intro map_idI) (simp add: list_all_iff item_round_trip)
qed

definition sendable_input :: "js \<Rightarrow> bool" where
  "sendable_input v \<longleftrightarrow> is_object v \<and> dropUndefinedDeep v = v \<and>
     list_all (\<lambda>k. is_array (jprop v k)) [''messages'', ''tools'', ''context'', ''resume''] \<and>
     list_all sendable_message (elements (jprop v ''messages'')) \<and>
     list_all sendable_item (elements (jprop v ''tools'')) \<and> list_all sendable_item (elements (jprop v ''resume'')) \<and>
     v = JObj (opt_field ''threadId'' (jprop v ''threadId'') @ opt_field ''runId'' (jprop v ''runId'') @
       opt_field ''protocolVersion'' (jprop v ''protocolVersion'') @ opt_field ''parentRunId'' (jprop v ''parentRunId'') @
       opt_field ''state'' (jprop v ''state'') @
       [(''messages'', jprop v ''messages''), (''tools'', jprop v ''tools''), (''context'', jprop v ''context'')] @
       opt_field ''forwardedProps'' (jprop v ''forwardedProps'') @ [(''resume'', jprop v ''resume'')])"

lemma clean_opt_field [simp]:
  "map (\<lambda>(k, x). (k, dropUndefinedDeep x)) (filter (\<lambda>(k, x). x \<noteq> JUndef) (opt_field k v)) = opt_field k (dropUndefinedDeep v)"
  by (simp add: opt_field_def clean_undefined)

lemma input_round_trip:
  assumes "sendable_input v"
  shows "\<exists>w. fromWireRunAgentInput (toWireRunAgentInput v) = Inr w \<and> dropUndefinedDeep w = v"
proof -
  from assms obtain obj where v: "v = JObj obj" and c: "dropUndefinedDeep (JObj obj) = JObj obj"
    by (cases v) (auto simp: sendable_input_def)
  note f = clean_fields(2) [OF c]
  obtain ms ts cs rs where a: "oget obj ''messages'' = JArr ms" "oget obj ''tools'' = JArr ts"
    "oget obj ''context'' = JArr cs" "oget obj ''resume'' = JArr rs"
    using assms v by (auto simp: sendable_input_def is_array_iff)
  have l: "list_all sendable_message ms" "list_all sendable_item ts" "list_all sendable_item rs"
    using assms v a by (simp_all add: sendable_input_def)
  obtain vs where vs: "from_messages (map (JObj \<circ> toWireMessage) ms) = Inr vs" "map dropUndefinedDeep vs = ms"
    using messages_round_trip [OF l(1)] by auto
  have cl: "map dropUndefinedDeep ts = ts" "map dropUndefinedDeep cs = cs" "map dropUndefinedDeep rs = rs"
    using f [of "''tools''"] f [of "''context''"] f [of "''resume''"] by (simp_all add: a)
  have o: "JObj obj = JObj (opt_field ''threadId'' (oget obj ''threadId'') @ opt_field ''runId'' (oget obj ''runId'') @
       opt_field ''protocolVersion'' (oget obj ''protocolVersion'') @ opt_field ''parentRunId'' (oget obj ''parentRunId'') @
       opt_field ''state'' (oget obj ''state'') @
       [(''messages'', JArr ms), (''tools'', JArr ts), (''context'', JArr cs)] @
       opt_field ''forwardedProps'' (oget obj ''forwardedProps'') @ [(''resume'', JArr rs)])"
    using assms unfolding sendable_input_def v jprop.simps a by blast
  have "\<exists>w. fromWireRunAgentInput (toWireRunAgentInput (JObj obj)) = Inr w \<and> dropUndefinedDeep w =
    JObj (opt_field ''threadId'' (oget obj ''threadId'') @ opt_field ''runId'' (oget obj ''runId'') @
       opt_field ''protocolVersion'' (oget obj ''protocolVersion'') @ opt_field ''parentRunId'' (oget obj ''parentRunId'') @
       opt_field ''state'' (oget obj ''state'') @
       [(''messages'', JArr ms), (''tools'', JArr ts), (''context'', JArr cs)] @
       opt_field ''forwardedProps'' (oget obj ''forwardedProps'') @ [(''resume'', JArr rs)])"
    using vs items_round_trip [OF l(2) cl(1)] items_round_trip [OF l(3) cl(3)]
    by (simp add: fromWireRunAgentInput_def toWireRunAgentInput_def asArray_def a f cl comp_def)
  then show ?thesis unfolding v o [symmetric] .
qed

definition operation_names :: "string list" where
  "operation_names = [''add'', ''remove'', ''replace'', ''move'', ''copy'', ''test'']"

definition sendable_operation :: "js \<Rightarrow> bool" where
  "sendable_operation v \<longleftrightarrow> is_object v \<and> distinct (map fst (fields_of v)) \<and>
     list_ex (\<lambda>name. jprop v ''op'' = JStr name) operation_names"

lemma operation_names_back:
  "list_all (\<lambda>name. operation_name (oget JsonPatchOperationType (map upper name)) = name) operation_names"
  by code_simp

lemma operation_round_trip:
  assumes "sendable_operation v" and "dropUndefinedDeep v = v"
  shows "\<exists>w. encode_operation v = Inr w \<and> dropUndefinedDeep (decode_operation w) = v"
proof -
  from assms(1) obtain obj name where v: "v = JObj obj" and d: "distinct (map fst obj)"
    and n: "oget obj ''op'' = JStr name" "name \<in> set operation_names"
    by (cases v) (auto simp: sendable_operation_def list_ex_iff)
  have name: "operation_name (oget JsonPatchOperationType (map upper name)) = name"
    using operation_names_back n(2) by (simp add: list_all_iff)
  have "oset ''op'' (JStr name) obj = obj" using n(1) by (intro oset_oget) simp_all
  with v n assms(2) show ?thesis
    by (simp add: encode_operation_def decode_operation_def record_or_empty_def name oset_oset clean_defined_fields
        del: dropUndefinedDeep_simps(7))
qed

lemma operations_round_trip:
  assumes "list_all sendable_operation xs" and "map dropUndefinedDeep xs = xs"
  shows "\<exists>ys. encode_operations xs = Inr ys \<and> map (dropUndefinedDeep \<circ> decode_operation) ys = xs"
  using assms
proof (induction xs)
  case (Cons x xs)
  then obtain ys where "encode_operations xs = Inr ys" "map (dropUndefinedDeep \<circ> decode_operation) ys = xs" by auto
  moreover obtain w where "encode_operation x = Inr w" "dropUndefinedDeep (decode_operation w) = x"
    using operation_round_trip [of x] Cons.prems by auto
  ultimately show ?case by (auto simp: comp_def)
qed simp

lemma oget_zip:
  assumes "distinct ks" "length vs = length ks" "i < length ks"
  shows "oget (zip ks vs) (ks ! i) = vs ! i"
  using assms by (simp add: oget_def map_of_zip_nth)

lemma has_own_zip: "length vs = length ks \<Longrightarrow> has_own (zip ks vs) k \<longleftrightarrow> k \<in> set ks"
  by (simp add: has_own_iff del: set_zip) (metis map_fst_zip set_map)

lemma enum_back:
  assumes "distinct (names @ ''UNRECOGNIZED'' # map digits [0..<length names])" and "name \<in> set names"
  shows "oget (enum_object names) (js_key (oget (enum_object names) name)) = JStr name"
proof -
  from assms(2) obtain i where i: "i < length names" "names ! i = name" by (auto simp: in_set_conv_nth)
  then have own: "has_own (zip (map digits [0..<length names]) (map JStr names)) (digits i)"
    and "digits i \<in> set (map digits [0..<length names])"
    by (simp_all add: has_own_zip)
  with assms(1) have d: "digits i \<notin> set names" "digits i \<noteq> ''UNRECOGNIZED''" "distinct names" "distinct (map digits [0..<length names])"
    by (auto simp del: set_map set_upt)
  have "oget (enum_object names) name = JNum (int i)"
    using oget_zip [of names "map (JNum \<circ> int) [0..<length names]" i] d i assms(2)
    by (simp add: enum_object_def oget_append has_own_zip)
  moreover have "oget (enum_object names) (digits i) = JStr name"
    using oget_zip [of "map digits [0..<length names]" "map JStr names" i] d i own
      has_own_zip [of "map (JNum \<circ> int) [0..<length names]" names "digits i"]
    by (simp add: enum_object_def oget_append)
  ultimately show ?thesis by simp
qed

lemma event_names_distinct: "distinct (EVENT_NAMES @ ''UNRECOGNIZED'' # map digits [0..<length EVENT_NAMES])"
  by code_simp

lemma event_names_known: "list_all (\<lambda>t. t \<in> set EVENT_NAMES) KNOWN_EVENT_TYPES"
  by code_simp

lemma envelope_arms: "map toCamelCase KNOWN_EVENT_TYPES = map fst ENVELOPE_TYPE" "map snd ENVELOPE_TYPE = KNOWN_EVENT_TYPES"
  "distinct (map fst ENVELOPE_TYPE)"
  by code_simp+

lemma event_type_back:
  assumes "t \<in> set KNOWN_EVENT_TYPES"
  shows "map_of ENVELOPE_TYPE (toCamelCase t) = Some t"
    and "oget EventTypeEnum (js_key (oget EventTypeEnum t)) = JStr t"
proof -
  have "ENVELOPE_TYPE = zip (map fst ENVELOPE_TYPE) (map snd ENVELOPE_TYPE)" by (simp add: zip_map_fst_snd)
  also have "\<dots> = map (\<lambda>t. (toCamelCase t, t)) KNOWN_EVENT_TYPES"
    unfolding envelope_arms(2) envelope_arms(1) [symmetric] by (simp add: zip_map1 zip_same_conv_map)
  finally have "set ENVELOPE_TYPE = (\<lambda>t. (toCamelCase t, t)) ` set KNOWN_EVENT_TYPES" by (metis set_map)
  with assms have "(toCamelCase t, t) \<in> set ENVELOPE_TYPE" by blast
  then show "map_of ENVELOPE_TYPE (toCamelCase t) = Some t" using envelope_arms(3) by simp
  show "oget EventTypeEnum (js_key (oget EventTypeEnum t)) = JStr t"
    unfolding EventTypeEnum_def
    by (rule enum_back [OF event_names_distinct]) (use assms event_names_known in \<open>simp add: list_all_iff\<close>)
qed

text \<open>
  What an event has to look like to come back: a kind the protocol has, no undefined value, nothing
  under a name only the wire uses, and for each kind with a converter the shape the schema gives its
  fields.
\<close>

definition sendable_run_outcome :: "js \<Rightarrow> bool" where
  "sendable_run_outcome v \<longleftrightarrow> v = JUndef \<or> is_object v \<and>
     (let fields = fields_of v; s = oget fields ''type'' in
      is_string s \<and> s \<noteq> JStr [] \<and>
      fields = (''type'', s) #
        (if s = JStr ''success'' then list_field ''pendingToolCallIds'' (oget fields ''pendingToolCallIds'')
         else if s = JStr ''interrupt'' then [(''interrupts'', JArr (asArray (oget fields ''interrupts'')))]
         else []))"

definition sendable_subagent_outcome :: "js \<Rightarrow> bool" where
  "sendable_subagent_outcome v \<longleftrightarrow> v = JUndef \<or> is_object v \<and>
     (let fields = fields_of v; s = oget fields ''type'' in
      is_string s \<and> s \<noteq> JStr [] \<and>
      fields = (''type'', s) #
        (if s = JStr ''suspended'' then list_field ''interruptIds'' (oget fields ''interruptIds'') else []))"

definition sendable_usage :: "js \<Rightarrow> bool" where
  "sendable_usage v \<longleftrightarrow> v = JUndef \<or> is_array v \<and> elements v \<noteq> []"

definition sendable_fields :: "string \<Rightarrow> jobj \<Rightarrow> bool" where
  "sendable_fields t obj \<longleftrightarrow>
     (if t = ''MESSAGES_SNAPSHOT'' then
        is_array (oget obj ''messages'') \<and> list_all sendable_message (elements (oget obj ''messages''))
      else if t = ''RUN_FINISHED'' then
        sendable_usage (oget obj ''usage'') \<and> \<not> has_own obj ''pendingToolCallIds'' \<and> \<not> has_own obj ''interrupts'' \<and>
        sendable_run_outcome (oget obj ''outcome'')
      else if t = ''SUBAGENT_FINISHED'' then
        \<not> has_own obj ''interruptIds'' \<and> sendable_subagent_outcome (oget obj ''outcome'')
      else if t = ''STATE_DELTA'' then
        is_array (oget obj ''delta'') \<and> list_all sendable_operation (elements (oget obj ''delta''))
      else if t = ''ACTIVITY_DELTA'' then
        is_array (oget obj ''patch'') \<and> list_all sendable_operation (elements (oget obj ''patch''))
      else if t = ''RUN_ERROR'' then sendable_usage (oget obj ''usage'')
      else if t = ''TOOL_CALL_RESULT'' then
        \<not> has_own obj ''contentParts'' \<and> sendable_content ''tool'' (oget obj ''content'')
      else if t = ''RUN_STARTED'' then oget obj ''input'' = JUndef \<or> sendable_input (oget obj ''input'')
      else True)"

definition sendable_event :: "js \<Rightarrow> bool" where
  "sendable_event event \<longleftrightarrow> is_object event \<and> distinct (map fst (fields_of event)) \<and> dropUndefinedDeep event = event \<and>
     \<not> has_own (fields_of event) ''baseEvent'' \<and> optional_object (jprop event ''metadata'') \<and>
     list_ex (\<lambda>t. jprop event ''type'' = JStr t \<and> sendable_fields t (fields_of event)) KNOWN_EVENT_TYPES"

text \<open>
  The fields the base event carries, and the contract of the fields beside them: \<open>sent\<close> comes back
  as \<open>obj\<close> from every object that agrees with it beside the base fields.
\<close>

definition BASE_FIELDS :: "string list" where
  "BASE_FIELDS = [''type'', ''timestamp'', ''rawEvent'', ''metadata'', ''baseEvent'']"

definition comes_back :: "string \<Rightarrow> jobj \<Rightarrow> jobj \<Rightarrow> bool" where
  "comes_back t obj sent \<longleftrightarrow>
     (\<forall>decoded. distinct (map fst decoded) \<and> (\<forall>k. k \<notin> set BASE_FIELDS \<longrightarrow> oget decoded k = oget sent k) \<longrightarrow>
        (\<exists>event. decode_rest t decoded = Inr event \<and> distinct (map fst event) \<and>
           (\<forall>k. dropUndefinedDeep (oget event k) =
             (if k \<in> set BASE_FIELDS then dropUndefinedDeep (oget decoded k) else oget obj k))))"

definition field_event :: "string \<Rightarrow> jobj \<Rightarrow> jobj \<Rightarrow> bool" where
  "field_event t obj rest \<longleftrightarrow> dropUndefinedDeep (JObj obj) = JObj obj \<and> sendable_fields t obj \<and>
     distinct (map fst rest) \<and> (\<forall>k\<in>set BASE_FIELDS. \<not> has_own rest k) \<and>
     (\<forall>k. k \<notin> set BASE_FIELDS \<longrightarrow> oget rest k = oget obj k)"

definition sent_back :: "string \<Rightarrow> jobj \<Rightarrow> jobj \<Rightarrow> bool" where
  "sent_back t obj rest \<longleftrightarrow>
     (\<exists>sent. encode_rest t rest = Inr sent \<and> distinct (map fst sent) \<and> (\<forall>k\<in>set BASE_FIELDS. \<not> has_own sent k) \<and>
        comes_back t obj sent)"

lemma base_fields [simp]:
  "k \<in> set BASE_FIELDS \<longleftrightarrow> k = ''type'' \<or> k = ''timestamp'' \<or> k = ''rawEvent'' \<or> k = ''metadata'' \<or> k = ''baseEvent''"
  by (simp add: BASE_FIELDS_def)

lemma sent_backI:
  assumes "field_event t obj rest" and "encode_rest t rest = Inr sent"
    and "distinct (map fst sent)" and "\<And>k. k \<in> set BASE_FIELDS \<Longrightarrow> \<not> has_own sent k"
    and decodes: "\<And>decoded. (\<And>k. k \<notin> set BASE_FIELDS \<Longrightarrow> oget decoded k = oget sent k) \<Longrightarrow> decode_rest t decoded = Inr (f decoded)"
    and keys: "\<And>decoded. distinct (map fst decoded) \<Longrightarrow> distinct (map fst (f decoded))"
    and base: "\<And>decoded k. k \<in> set BASE_FIELDS \<Longrightarrow> oget (f decoded) k = oget decoded k"
    and others: "\<And>decoded k. (\<And>k. k \<notin> set BASE_FIELDS \<Longrightarrow> oget decoded k = oget sent k) \<Longrightarrow>
      k \<notin> set BASE_FIELDS \<Longrightarrow> dropUndefinedDeep (oget (f decoded) k) = oget obj k"
  shows "sent_back t obj rest"
proof -
  have "comes_back t obj sent"
    unfolding comes_back_def
  proof (intro allI impI, elim conjE)
    fix decoded
    assume d: "distinct (map fst decoded)" "\<forall>k. k \<notin> set BASE_FIELDS \<longrightarrow> oget decoded k = oget sent k"
    then have a: "\<And>k. k \<notin> set BASE_FIELDS \<Longrightarrow> oget decoded k = oget sent k" by blast
    show "\<exists>event. decode_rest t decoded = Inr event \<and> distinct (map fst event) \<and>
        (\<forall>k. dropUndefinedDeep (oget event k) =
          (if k \<in> set BASE_FIELDS then dropUndefinedDeep (oget decoded k) else oget obj k))"
      using decodes [OF a] keys [OF d(1)] base others [OF a] by (intro exI [of _ "f decoded"]) (simp del: base_fields)
  qed
  with assms(2-4) show ?thesis unfolding sent_back_def by blast
qed

lemma field_event_facts:
  assumes "field_event t obj rest"
  shows "sendable_fields t obj" and "distinct (map fst rest)" and "\<And>k. k \<in> set BASE_FIELDS \<Longrightarrow> \<not> has_own rest k"
    and "\<And>k. k \<notin> set BASE_FIELDS \<Longrightarrow> oget rest k = oget obj k"
    and "\<And>k. dropUndefinedDeep (oget obj k) = oget obj k"
  using assms clean_fields(2) [of obj] unfolding field_event_def by blast+

lemma snapshot_sent:
  assumes "field_event ''MESSAGES_SNAPSHOT'' obj rest"
  shows "sent_back ''MESSAGES_SNAPSHOT'' obj rest"
proof -
  note fe = field_event_facts [OF assms]
  from fe(1) obtain ms where ms: "oget obj ''messages'' = JArr ms" "list_all sendable_message ms"
    by (auto simp: sendable_fields_def is_array_iff)
  from messages_round_trip [OF ms(2)] obtain vs
    where vs: "from_messages (map (JObj \<circ> toWireMessage) ms) = Inr vs" "map dropUndefinedDeep vs = ms" by blast
  have "encode_rest ''MESSAGES_SNAPSHOT'' rest = Inr (oset ''messages'' (JArr (map (JObj \<circ> toWireMessage) ms)) rest)"
    using ms(1) fe(4) by (simp add: encode_rest_def)
  then show ?thesis
    by (rule sent_backI [OF assms, where f = "oset ''messages'' (JArr vs)"])
      (use fe(2-5) vs ms(1) in \<open>auto simp: decode_rest_def\<close>)
qed

lemma tool_result_sent:
  assumes "field_event ''TOOL_CALL_RESULT'' obj rest"
  shows "sent_back ''TOOL_CALL_RESULT'' obj rest"
proof -
  note fe = field_event_facts [OF assms]
  from fe(1) have own: "oget obj ''contentParts'' = JUndef" and content: "sendable_content ''tool'' (oget obj ''content'')"
    by (auto simp: sendable_fields_def)
  show ?thesis
  proof (cases "is_array (oget obj ''content'')")
    case True
    then obtain ps where ps: "oget obj ''content'' = JArr ps" by (auto simp: is_array_iff)
    with content have l: "list_all sendable_part ps"
      by (simp add: sendable_content_def MAP_CONTENT_ROLES_def PARTS_CONTENT_ROLES_def)
    have "encode_rest ''TOOL_CALL_RESULT'' rest =
        Inr (oset ''content'' JUndef (oset ''contentParts'' (JArr (to_parts ps)) rest))"
      using ps fe(4) by (simp add: encode_rest_def encode_result_content_def)
    then show ?thesis
      by (rule sent_backI [OF assms, where f = "\<lambda>decoded. odel ''contentParts'' (oset ''content'' (JArr (map (canonical_part \<circ> fields_of) ps)) decoded)"])
        (use fe(2-5) own ps parts_round_trip [OF l] parts_cleaned [OF l] in
          \<open>auto simp: decode_rest_def decode_result_content_def asArray_def\<close>)
  next
    case False
    with content have c: "oget obj ''content'' \<noteq> JUndef"
      by (simp add: sendable_content_def MAP_CONTENT_ROLES_def PARTS_CONTENT_ROLES_def)
    have "encode_rest ''TOOL_CALL_RESULT'' rest = Inr (oset ''contentParts'' (JArr []) rest)"
      using False fe(4) by (simp add: encode_rest_def encode_result_content_def)
    then show ?thesis
      by (rule sent_backI [OF assms, where f = "odel ''contentParts''"])
        (use fe(2-5) own c in \<open>auto simp: decode_rest_def decode_result_content_def asArray_def\<close>)
  qed
qed

lemma patch_sent:
  assumes "field_event t obj rest" and "k \<notin> set BASE_FIELDS"
    and "encode_rest t = encode_patch k" and "\<And>decoded. decode_rest t decoded = Inr (decode_patch k decoded)"
    and "is_array (oget obj k)" and "list_all sendable_operation (elements (oget obj k))"
  shows "sent_back t obj rest"
proof -
  note fe = field_event_facts [OF assms(1)]
  from assms(5,6) obtain xs where xs: "oget obj k = JArr xs" "list_all sendable_operation xs" by (auto simp: is_array_iff)
  have "map dropUndefinedDeep xs = xs" using fe(5) [of k] xs(1) by simp
  from operations_round_trip [OF xs(2) this] obtain ys
    where ys: "encode_operations xs = Inr ys" "map (dropUndefinedDeep \<circ> decode_operation) ys = xs" by blast
  have "encode_rest t rest = Inr (oset k (JArr ys) rest)"
    using assms(3) fe(4) [OF assms(2)] xs(1) ys(1) by (simp add: encode_patch_def)
  then show ?thesis
    by (rule sent_backI [OF assms(1), where f = "oset k (JArr (map decode_operation ys))"])
      (use fe(2-5) assms(2,4) ys(2) xs(1) in \<open>auto simp: decode_patch_def\<close>)
qed

lemma delta_sent:
  assumes "field_event t obj rest" and "t = ''STATE_DELTA'' \<or> t = ''ACTIVITY_DELTA''"
  shows "sent_back t obj rest"
  using assms(2)
proof
  assume "t = ''STATE_DELTA''"
  with assms(1) field_event_facts(1) [OF assms(1)] show ?thesis
    by (intro patch_sent [where k = "''delta''"])
      (auto simp: sendable_fields_def encode_rest_def decode_rest_def fun_eq_iff)
next
  assume "t = ''ACTIVITY_DELTA''"
  with assms(1) field_event_facts(1) [OF assms(1)] show ?thesis
    by (intro patch_sent [where k = "''patch''"])
      (auto simp: sendable_fields_def encode_rest_def decode_rest_def fun_eq_iff)
qed

lemma usage_back:
  assumes "sendable_usage u" and "dropUndefinedDeep u = u"
  shows "dropUndefinedDeep (if asArray u = [] then JUndef else JArr (asArray u)) = u"
  using assms by (auto simp: sendable_usage_def asArray_def is_array_iff)

lemma run_error_sent:
  assumes "field_event ''RUN_ERROR'' obj rest"
  shows "sent_back ''RUN_ERROR'' obj rest"
proof -
  note fe = field_event_facts [OF assms]
  have u: "dropUndefinedDeep (if asArray (oget obj ''usage'') = [] then JUndef else JArr (asArray (oget obj ''usage''))) = oget obj ''usage''"
    using usage_back [of "oget obj ''usage''"] fe(1,5) by (simp add: sendable_fields_def)
  have "encode_rest ''RUN_ERROR'' rest = Inr (oset ''usage'' (JArr (asArray (oget obj ''usage''))) rest)"
    using fe(4) by (simp add: encode_rest_def encode_usage_def)
  then show ?thesis
    by (rule sent_backI [OF assms, where f = "\<lambda>decoded. if asArray (oget obj ''usage'') = [] then odel ''usage'' decoded else decoded"])
      (use fe(2-5) u in \<open>auto simp: decode_rest_def decode_usage_def split: if_splits\<close>)
qed

lemma run_started_sent:
  assumes "field_event ''RUN_STARTED'' obj rest"
  shows "sent_back ''RUN_STARTED'' obj rest"
proof -
  note fe = field_event_facts [OF assms]
  show ?thesis
  proof (cases "oget obj ''input'' = JUndef")
    case True
    have "encode_rest ''RUN_STARTED'' rest = Inr rest" using True fe(4) by (simp add: encode_rest_def)
    then show ?thesis
      by (rule sent_backI [OF assms, where f = "\<lambda>decoded. decoded"]) (use fe(2-5) True in \<open>auto simp: decode_rest_def\<close>)
  next
    case False
    with fe(1) have "sendable_input (oget obj ''input'')" by (simp add: sendable_fields_def)
    from input_round_trip [OF this] obtain w where w:
      "fromWireRunAgentInput (toWireRunAgentInput (oget obj ''input'')) = Inr w" "dropUndefinedDeep w = oget obj ''input''"
      by blast
    have "toWireRunAgentInput (oget obj ''input'') \<noteq> JUndef"
      using \<open>sendable_input (oget obj ''input'')\<close>
      by (cases "oget obj ''input''") (simp_all add: sendable_input_def toWireRunAgentInput_def)
    have "encode_rest ''RUN_STARTED'' rest = Inr (oset ''input'' (toWireRunAgentInput (oget obj ''input'')) rest)"
      using False fe(4) by (simp add: encode_rest_def)
    then show ?thesis
      by (rule sent_backI [OF assms, where f = "oset ''input'' w"])
        (use fe(2-5) w \<open>toWireRunAgentInput (oget obj ''input'') \<noteq> JUndef\<close> in \<open>auto simp: decode_rest_def\<close>)
  qed
qed

lemma plain_sent:
  assumes "field_event t obj rest" and "t \<notin> set [''MESSAGES_SNAPSHOT'', ''RUN_FINISHED'', ''SUBAGENT_FINISHED'', ''STATE_DELTA'',
      ''ACTIVITY_DELTA'', ''RUN_ERROR'', ''TOOL_CALL_RESULT'', ''RUN_STARTED'']"
  shows "sent_back t obj rest"
proof -
  note fe = field_event_facts [OF assms(1)]
  have "encode_rest t rest = Inr rest" using assms(2) by (simp add: encode_rest_def)
  then show ?thesis
    by (rule sent_backI [OF assms(1), where f = "\<lambda>decoded. decoded"]) (use fe(2-5) assms(2) in \<open>auto simp: decode_rest_def\<close>)
qed

lemma is_object_iff: "is_object v \<longleftrightarrow> (\<exists>obj. v = JObj obj)"
  by (cases v) simp_all

lemma is_string_iff: "is_string v \<longleftrightarrow> (\<exists>s. v = JStr s)"
  by (cases v) simp_all

text \<open>The outcome travels as a name and two lists.\<close>

definition run_outcome_of :: "string \<Rightarrow> js \<Rightarrow> js \<Rightarrow> js" where
  "run_outcome_of s pending interrupts =
     (if s = [] then JUndef
      else if s = ''interrupt'' then
        JObj ([(''type'', JStr s), (''interrupts'', JArr (asArray interrupts))] @ list_field ''pendingToolCallIds'' pending)
      else JObj ((''type'', JStr s) # list_field ''pendingToolCallIds'' pending @ list_field ''interrupts'' interrupts))"

lemma asArray_JArr [simp]: "asArray (JArr xs) = xs"
  by (simp add: asArray_def)

lemma list_field_simps [simp]: "list_field k (JArr []) = []" "list_field k (JArr (asArray v)) = list_field k v"
  by (cases v; simp add: list_field_def asArray_def)+

lemma run_outcome_encoded:
  assumes "sendable_run_outcome (oget rest ''outcome'')"
  shows "\<exists>s ps is. oget (encode_run_outcome rest) ''outcome'' = JStr s \<and>
    oget (encode_run_outcome rest) ''pendingToolCallIds'' = JArr ps \<and> oget (encode_run_outcome rest) ''interrupts'' = JArr is \<and>
    run_outcome_of s (JArr ps) (JArr is) = oget rest ''outcome'' \<and> (s = [] \<longrightarrow> ps = [] \<and> is = [])"
proof (cases "oget rest ''outcome'' = JUndef")
  case True
  then show ?thesis by (simp add: encode_run_outcome_def run_outcome_of_def)
next
  case False
  with assms obtain fields s where o: "oget rest ''outcome'' = JObj fields" and s: "oget fields ''type'' = JStr s"
    by (auto simp: sendable_run_outcome_def Let_def is_object_iff is_string_iff)
  with assms have ne: "s \<noteq> []" and fs: "fields = (''type'', JStr s) #
        (if s = ''success'' then list_field ''pendingToolCallIds'' (oget fields ''pendingToolCallIds'')
         else if s = ''interrupt'' then [(''interrupts'', JArr (asArray (oget fields ''interrupts'')))] else [])"
    unfolding sendable_run_outcome_def o s Let_def fields_of.simps js.inject by blast+
  consider "s = ''success''" | "s = ''interrupt''" | "s \<noteq> ''success''" "s \<noteq> ''interrupt''" by blast
  then show ?thesis
    using o s ne fs
    by cases (simp_all add: encode_run_outcome_def run_outcome_of_def outcome_type_def outcome_name_def record_or_empty_def Let_def)
qed

lemma encode_run_outcome_other:
  assumes "k \<notin> {''outcome'', ''pendingToolCallIds'', ''interrupts''}"
  shows "oget (encode_run_outcome rest) k = oget rest k" and "has_own (encode_run_outcome rest) k = has_own rest k"
  using assms by (auto simp: encode_run_outcome_def Let_def)

lemma distinct_encode_run_outcome [simp]:
  "distinct (map fst rest) \<Longrightarrow> distinct (map fst (encode_run_outcome rest))"
  by (auto simp: encode_run_outcome_def Let_def)

text \<open>The decoded event of a finished run, and of a finished subagent.\<close>

definition finished :: "string list \<Rightarrow> js \<Rightarrow> bool \<Rightarrow> jobj \<Rightarrow> jobj" where
  "finished payload outcome no_usage decoded =
     (let rest = odel ''outcome'' (fold odel payload decoded);
          rest = (if outcome = JUndef then rest else oset ''outcome'' outcome rest) in
      if no_usage then odel ''usage'' rest else rest)"

lemma fold_odel [simp]:
  "oget (fold odel ks obj) k = (if k \<in> set ks then JUndef else oget obj k)"
  "distinct (map fst obj) \<Longrightarrow> distinct (map fst (fold odel ks obj))"
  by (induction ks arbitrary: obj) auto

lemma finished_fields:
  "''usage'' \<notin> set payload \<Longrightarrow> ''outcome'' \<notin> set payload \<Longrightarrow> oget (finished payload outcome no_usage decoded) k =
    (if k = ''usage'' then (if no_usage then JUndef else oget decoded k)
     else if k = ''outcome'' then outcome else if k \<in> set payload then JUndef else oget decoded k)"
  by (simp add: finished_def Let_def)

lemma distinct_finished: "distinct (map fst decoded) \<Longrightarrow> distinct (map fst (finished payload outcome no_usage decoded))"
  by (simp add: finished_def Let_def)

lemma decode_run_outcome_named:
  assumes "oget decoded ''outcome'' = JStr s" and "oget decoded ''pendingToolCallIds'' = JArr ps"
    and "oget decoded ''interrupts'' = JArr is" and "s = [] \<longrightarrow> ps = [] \<and> is = []"
  shows "decode_run_outcome decoded =
    finished [''pendingToolCallIds'', ''interrupts''] (run_outcome_of s (JArr ps) (JArr is)) False decoded"
  using assms by (simp add: decode_run_outcome_def wire_outcome_def run_outcome_of_def finished_def Let_def)

lemma run_finished_sent:
  assumes "field_event ''RUN_FINISHED'' obj rest"
  shows "sent_back ''RUN_FINISHED'' obj rest"
proof -
  note fe = field_event_facts [OF assms]
  have own: "oget obj ''pendingToolCallIds'' = JUndef" "oget obj ''interrupts'' = JUndef"
    using fe(1) by (auto simp: sendable_fields_def)
  let ?us = "asArray (oget obj ''usage'')"
  let ?enc = "encode_run_outcome rest"
  let ?f = "finished [''pendingToolCallIds'', ''interrupts''] (oget obj ''outcome'') (?us = [])"
  have u: "dropUndefinedDeep (if ?us = [] then JUndef else JArr ?us) = oget obj ''usage''"
    using usage_back [of "oget obj ''usage''"] fe(1,5) by (simp add: sendable_fields_def)
  have out: "oget rest ''outcome'' = oget obj ''outcome''" using fe(4) by simp
  have "sendable_run_outcome (oget rest ''outcome'')" using fe(1) unfolding out by (simp add: sendable_fields_def)
  from run_outcome_encoded [OF this, unfolded out] obtain s ps "is" where
    enc: "oget ?enc ''outcome'' = JStr s" "oget ?enc ''pendingToolCallIds'' = JArr ps" "oget ?enc ''interrupts'' = JArr is"
      "run_outcome_of s (JArr ps) (JArr is) = oget obj ''outcome''" and none: "s = [] \<longrightarrow> ps = [] \<and> is = []"
    by blast
  have e: "encode_rest ''RUN_FINISHED'' rest = Inr (oset ''usage'' (JArr ?us) ?enc)"
    using fe(4) by (simp add: encode_rest_def encode_usage_def encode_run_outcome_other)
  show ?thesis
  proof (rule sent_backI [OF assms e, where f = ?f])
    fix decoded
    assume d: "\<And>k. k \<notin> set BASE_FIELDS \<Longrightarrow> oget decoded k = oget (oset ''usage'' (JArr ?us) ?enc) k"
    have "decode_run_outcome decoded = finished [''pendingToolCallIds'', ''interrupts''] (oget obj ''outcome'') False decoded"
      unfolding enc(4) [symmetric]
      by (rule decode_run_outcome_named) (use d enc(1-3) none in auto)
    with d [of "''usage''"] show "decode_rest ''RUN_FINISHED'' decoded = Inr (?f decoded)"
      by (simp add: decode_rest_def decode_usage_def finished_fields) (simp add: finished_def Let_def)
  next
    fix decoded k
    assume d: "\<And>k. k \<notin> set BASE_FIELDS \<Longrightarrow> oget decoded k = oget (oset ''usage'' (JArr ?us) ?enc) k"
      and k: "k \<notin> set BASE_FIELDS"
    have o: "oget decoded k = oget obj k" if "k \<notin> {''outcome'', ''pendingToolCallIds'', ''interrupts'', ''usage''}"
      using d [OF k] that fe(4) [OF k] by (simp add: encode_run_outcome_other)
    show "dropUndefinedDeep (oget (?f decoded) k) = oget obj k"
      using o d [of "''usage''"] u own fe(5) [of k] by (auto simp: finished_fields split: if_splits)
  next
    fix k
    assume k: "k \<in> set BASE_FIELDS"
    from fe(3) [OF k] k show "\<not> has_own (oset ''usage'' (JArr ?us) ?enc) k" by (auto simp: encode_run_outcome_other)
  next
    fix decoded k
    assume "k \<in> set BASE_FIELDS"
    then show "oget (?f decoded) k = oget decoded k" by (auto simp: finished_fields)
  qed (simp_all add: fe(2) distinct_finished)
qed

definition subagent_outcome_of :: "string \<Rightarrow> js \<Rightarrow> js" where
  "subagent_outcome_of s ids = (if s = [] then JUndef else JObj ((''type'', JStr s) # list_field ''interruptIds'' ids))"

lemma subagent_outcome_encoded:
  assumes "sendable_subagent_outcome (oget rest ''outcome'')"
  shows "\<exists>s ids. oget (encode_subagent_outcome rest) ''outcome'' = JStr s \<and>
    oget (encode_subagent_outcome rest) ''interruptIds'' = JArr ids \<and>
    subagent_outcome_of s (JArr ids) = oget rest ''outcome'' \<and> (s = [] \<longrightarrow> ids = [])"
proof (cases "oget rest ''outcome'' = JUndef")
  case True
  then show ?thesis by (simp add: encode_subagent_outcome_def subagent_outcome_of_def)
next
  case False
  with assms obtain fields s where o: "oget rest ''outcome'' = JObj fields" and s: "oget fields ''type'' = JStr s"
    by (auto simp: sendable_subagent_outcome_def Let_def is_object_iff is_string_iff)
  with assms have ne: "s \<noteq> []" and fs: "fields = (''type'', JStr s) #
        (if s = ''suspended'' then list_field ''interruptIds'' (oget fields ''interruptIds'') else [])"
    unfolding sendable_subagent_outcome_def o s Let_def fields_of.simps js.inject by blast+
  consider "s = ''success''" | "s = ''suspended''" | "s \<noteq> ''success''" "s \<noteq> ''suspended''" by blast
  then show ?thesis
    using o s ne fs
    by cases (simp_all add: encode_subagent_outcome_def subagent_outcome_of_def outcome_type_def outcome_name_def record_or_empty_def Let_def)
qed

lemma encode_subagent_outcome_other:
  assumes "k \<notin> {''outcome'', ''interruptIds''}"
  shows "oget (encode_subagent_outcome rest) k = oget rest k" and "has_own (encode_subagent_outcome rest) k = has_own rest k"
  using assms by (auto simp: encode_subagent_outcome_def Let_def)

lemma distinct_encode_subagent_outcome [simp]:
  "distinct (map fst rest) \<Longrightarrow> distinct (map fst (encode_subagent_outcome rest))"
  by (auto simp: encode_subagent_outcome_def Let_def)

lemma decode_subagent_outcome_named:
  assumes "oget decoded ''outcome'' = JStr s" and "oget decoded ''interruptIds'' = JArr ids" and "s = [] \<longrightarrow> ids = []"
  shows "decode_subagent_outcome decoded = finished [''interruptIds''] (subagent_outcome_of s (JArr ids)) False decoded"
  using assms by (simp add: decode_subagent_outcome_def wire_outcome_def subagent_outcome_of_def finished_def Let_def)

lemma subagent_finished_sent:
  assumes "field_event ''SUBAGENT_FINISHED'' obj rest"
  shows "sent_back ''SUBAGENT_FINISHED'' obj rest"
proof -
  note fe = field_event_facts [OF assms]
  have own: "oget obj ''interruptIds'' = JUndef" using fe(1) by (auto simp: sendable_fields_def)
  let ?enc = "encode_subagent_outcome rest"
  let ?f = "finished [''interruptIds''] (oget obj ''outcome'') False"
  have out: "oget rest ''outcome'' = oget obj ''outcome''" using fe(4) by simp
  have "sendable_subagent_outcome (oget rest ''outcome'')" using fe(1) unfolding out by (simp add: sendable_fields_def)
  from subagent_outcome_encoded [OF this, unfolded out] obtain s ids where
    enc: "oget ?enc ''outcome'' = JStr s" "oget ?enc ''interruptIds'' = JArr ids"
      "subagent_outcome_of s (JArr ids) = oget obj ''outcome''" and none: "s = [] \<longrightarrow> ids = []"
    by blast
  have e: "encode_rest ''SUBAGENT_FINISHED'' rest = Inr ?enc" by (simp add: encode_rest_def)
  show ?thesis
  proof (rule sent_backI [OF assms e, where f = ?f])
    fix decoded
    assume d: "\<And>k. k \<notin> set BASE_FIELDS \<Longrightarrow> oget decoded k = oget ?enc k"
    have "decode_subagent_outcome decoded = ?f decoded"
      unfolding enc(3) [symmetric]
      by (rule decode_subagent_outcome_named) (use d enc(1,2) none in auto)
    then show "decode_rest ''SUBAGENT_FINISHED'' decoded = Inr (?f decoded)" by (simp add: decode_rest_def)
  next
    fix decoded k
    assume d: "\<And>k. k \<notin> set BASE_FIELDS \<Longrightarrow> oget decoded k = oget ?enc k" and k: "k \<notin> set BASE_FIELDS"
    have "oget decoded k = oget obj k" if "k \<notin> {''outcome'', ''interruptIds''}"
      using d [OF k] that fe(4) [OF k] by (simp add: encode_subagent_outcome_other)
    then show "dropUndefinedDeep (oget (?f decoded) k) = oget obj k"
      using own fe(5) [of k] by (auto simp: finished_fields)
  next
    fix k
    assume k: "k \<in> set BASE_FIELDS"
    from fe(3) [OF k] k show "\<not> has_own ?enc k" by (auto simp: encode_subagent_outcome_other)
  next
    fix decoded k
    assume "k \<in> set BASE_FIELDS"
    then show "oget (?f decoded) k = oget decoded k" by (auto simp: finished_fields)
  qed (simp_all add: fe(2) distinct_finished)
qed

lemma fields_sent:
  assumes "field_event t obj rest"
  shows "sent_back t obj rest"
proof (cases "t \<in> set [''MESSAGES_SNAPSHOT'', ''RUN_FINISHED'', ''SUBAGENT_FINISHED'',
      ''STATE_DELTA'', ''ACTIVITY_DELTA'', ''RUN_ERROR'', ''TOOL_CALL_RESULT'', ''RUN_STARTED'']")
  case True
  then have "t = ''MESSAGES_SNAPSHOT'' \<or> t = ''RUN_FINISHED'' \<or> t = ''SUBAGENT_FINISHED'' \<or> t = ''STATE_DELTA'' \<or>
      t = ''ACTIVITY_DELTA'' \<or> t = ''RUN_ERROR'' \<or> t = ''TOOL_CALL_RESULT'' \<or> t = ''RUN_STARTED''"
    by simp
  then show ?thesis
    using assms delta_sent [OF assms] snapshot_sent [of obj rest] tool_result_sent [of obj rest] run_error_sent [of obj rest]
      run_started_sent [of obj rest] run_finished_sent [of obj rest] subagent_finished_sent [of obj rest]
    by (elim disjE) simp_all
next
  case False
  with assms show ?thesis by (rule plain_sent)
qed

lemma oget_listed: "oget (map (\<lambda>k. (k, g k)) ks) k = (if k \<in> set ks then g k else JUndef)"
  by (induction ks) auto

lemma event_comes_back:
  assumes "sendable_event event"
  shows "\<exists>arm message decoded. event_to_wire event (fields_of event) = Inr (arm, message) \<and>
    event_from_wire arm message = Inr (JObj decoded) \<and> (\<forall>k. oget decoded k = jprop event k)"
proof -
  from assms obtain obj t where e: "event = JObj obj" and d: "distinct (map fst obj)"
    and c: "dropUndefinedDeep (JObj obj) = JObj obj" and own: "\<not> has_own obj ''baseEvent''"
    and md: "optional_object (oget obj ''metadata'')"
    and t: "t \<in> set KNOWN_EVENT_TYPES" "oget obj ''type'' = JStr t" "sendable_fields t obj"
    by (auto simp: sendable_event_def is_object_iff list_ex_iff)
  let ?rest = "odel ''metadata'' (odel ''rawEvent'' (odel ''timestamp'' (odel ''type'' obj)))"
  let ?base = "[(''type'', oget EventTypeEnum t), (''timestamp'', oget obj ''timestamp''),
    (''rawEvent'', oget obj ''rawEvent''), (''metadata'', oget obj ''metadata'')]"
  have "field_event t obj ?rest" using c t(3) d own by (auto simp: field_event_def)
  from fields_sent [OF this] obtain sent where
    sent: "encode_rest t ?rest = Inr sent" "distinct (map fst sent)" "\<And>k. k \<in> set BASE_FIELDS \<Longrightarrow> \<not> has_own sent k"
      "comes_back t obj sent"
    unfolding sent_back_def by blast
  let ?msg = "spread [(''baseEvent'', JObj ?base)] sent"
  let ?dec = "decode_base t ?base ?msg"
  have to: "event_to_wire event (fields_of event) = Inr (toCamelCase t, ?msg)"
    by (simp add: event_to_wire_def e t(2) md sent(1))
  have b: "oget ?msg ''baseEvent'' = JObj ?base" using sent(3) by (simp add: oget_spread_left)
  have o: "oget ?msg k = oget sent k" if "k \<noteq> ''baseEvent''" for k
  proof (cases "has_own sent k")
    case True
    then show ?thesis using oget_spread_right [OF sent(2)] by blast
  next
    case False
    then show ?thesis using that by (simp add: oget_spread_left)
  qed
  have dk: "distinct (map fst ?dec)" by (simp add: decode_base_def Let_def)
  have agree: "\<forall>k. k \<notin> set BASE_FIELDS \<longrightarrow> oget ?dec k = oget sent k"
    using o by (auto simp: decode_base_def Let_def)
  have basef: "oget ?dec k = oget obj k" if "k \<in> set BASE_FIELDS" for k
    using that own t(2) o [of "''metadata''"] sent(3) [of "''metadata''"] by (auto simp: decode_base_def Let_def)
  from sent(4) dk agree obtain ev where ev: "decode_rest t ?dec = Inr ev" "distinct (map fst ev)"
    "\<And>k. dropUndefinedDeep (oget ev k) = (if k \<in> set BASE_FIELDS then dropUndefinedDeep (oget ?dec k) else oget obj k)"
    unfolding comes_back_def by blast
  have from_wire: "event_from_wire (toCamelCase t) ?msg = Inr (dropUndefinedDeep (JObj ev))"
    using event_type_back [OF t(1)] ev(1) b by (simp add: event_from_wire_def del: dropUndefinedDeep_simps)
  have "oget (map (\<lambda>k. (k, dropUndefinedDeep (oget ev k))) (filter (\<lambda>k. oget ev k \<noteq> JUndef) (map fst ev))) k = oget obj k" for k
  proof -
    have "dropUndefinedDeep (oget ev k) = oget obj k" using ev(3) [of k] basef [of k] clean_fields(2) [OF c] by simp
    then show ?thesis by (auto simp: oget_listed clean_undefined has_own_iff [symmetric] dest!: oget_defined_has_own)
  qed
  with to from_wire show ?thesis unfolding clean_listed [OF ev(2)] e by auto
qed


definition demo_snapshot :: js where
  "demo_snapshot = JObj
     [(''type'', JStr ''MESSAGES_SNAPSHOT''),
      (''messages'', JArr
        [JObj [(''id'', JStr ''m1''), (''role'', JStr ''user''),
           (''content'', JArr [JObj [(''type'', JStr ''text''), (''text'', JStr ''look'')],
              JObj [(''type'', JStr ''image''), (''source'', JObj [(''type'', JStr ''url''), (''value'', JStr ''u'')])]])],
         JObj [(''id'', JStr ''m2''), (''role'', JStr ''assistant''),
           (''toolCalls'', JArr [JObj [(''id'', JStr ''t1''), (''type'', JStr ''function'')]])]]),
      (''timestamp'', JNum 5)]"


end
