(* ===== verification/AGUI_ProtoScan.thy ===== *)
theory AGUI_ProtoScan
  imports AGUI_Wire
begin

section \<open>Reading protobuf bytes\<close>

text \<open>
  The byte level of \<^verbatim>\<open>proto/src/proto.ts\<close>: the two varint readers, the duplicate scan
  \<open>assertWellFormedEnvelope\<close> with \<open>scanMessage\<close>, the walkers \<open>walksAsMessage\<close> and
  \<open>namesOnlyFutureArms\<close> that recognise an event of a later protocol, and
  \<open>mergeMessageFields\<close>.

  \<^item> A cursor into the bytes is the list of the bytes from it on; \<open>subarray\<close> is a prefix of it.
    A cursor that has moved behind the end is an error in every loop, so advancing by a fixed width
    fails when there are too few bytes left, as the check at the end of the loop body does.
  \<^item> Numbers are JavaScript numbers: exact for tags and lengths. Of a 64-bit varint only
    whether it can be read is used.
\<close>

type_synonym bytes = "8 word list"

unbundle bit_operations_syntax

subsection \<open>Varints\<close>

text \<open>
  \<open>readVarint\<close>: masks what does not fit 32 bits, as the wire reader does; \<open>None\<close> is a throw.
\<close>

fun read_varint :: "nat \<Rightarrow> nat \<Rightarrow> bytes \<Rightarrow> (nat \<times> bytes) option" where
  "read_varint shift result [] = None"
| "read_varint shift result (b # bs) =
     (let result' =
        (if shift < 28 then result + unat (b AND 0x7F) * 2 ^ shift
         else if shift = 28 then result + unat (b AND 0x0F) * 2 ^ 28
         else result)
      in if b AND 0x80 = 0 then Some (result', bs) else read_varint (shift + 7) result' bs)"

definition readVarint :: "bytes \<Rightarrow> (nat \<times> bytes) option" where
  "readVarint = read_varint 0 0"

text \<open>\<open>boundedVarint\<close>: fails on what does not fit.\<close>

fun bounded_varint :: "nat \<Rightarrow> 8 word \<Rightarrow> nat \<Rightarrow> nat \<Rightarrow> nat \<Rightarrow> bytes \<Rightarrow> (nat \<times> bytes) option" where
  "bounded_varint maxBytes lastByteMax count shift result [] = None"
| "bounded_varint maxBytes lastByteMax count shift result (b # bs) =
     (if maxBytes \<le> count then None
      else if Suc count = maxBytes \<and> lastByteMax < b then None
      else let result' = result + unat (b AND 0x7F) * 2 ^ shift
        in if b AND 0x80 = 0 then Some (result', bs)
           else bounded_varint maxBytes lastByteMax (Suc count) (shift + 7) result' bs)"

definition varint32 :: "bytes \<Rightarrow> (nat \<times> bytes) option" where
  "varint32 = bounded_varint 5 0x0F 0 0 0"

definition varint64 :: "bytes \<Rightarrow> (nat \<times> bytes) option" where
  "varint64 = bounded_varint 10 0x01 0 0 0"

lemma read_varint_shorter: "read_varint shift result bs = Some (n, rest) \<Longrightarrow> length rest < length bs"
  by (induction shift result bs rule: read_varint.induct) (fastforce simp: Let_def split: if_splits)+

lemma bounded_varint_shorter: "bounded_varint m l c shift result bs = Some (n, rest) \<Longrightarrow> length rest < length bs"
  by (induction m l c shift result bs rule: bounded_varint.induct) (fastforce simp: Let_def split: if_splits)+

lemma varint_shorter:
  "readVarint bs = Some (n, rest) \<Longrightarrow> length rest < length bs"
  "varint32 bs = Some (n, rest) \<Longrightarrow> length rest < length bs"
  "varint64 bs = Some (n, rest) \<Longrightarrow> length rest < length bs"
  using read_varint_shorter bounded_varint_shorter by (auto simp: readVarint_def varint32_def varint64_def)

definition advance :: "nat \<Rightarrow> bytes \<Rightarrow> bytes option" where
  "advance n bs = (if n \<le> length bs then Some (drop n bs) else None)"

lemma advance_shorter: "advance n bs = Some rest \<Longrightarrow> length rest \<le> length bs"
  by (auto simp: advance_def split: if_splits)

lemma byte_parts:
  fixes b :: "8 word"
  shows "unat (b AND 0x7F) = unat b mod 128" and "unat (b AND 0x0F) = unat b mod 16"
    and "b AND 0x80 = 0 \<longleftrightarrow> unat b < 128"
proof -
  have all: "list_all (\<lambda>n. unat (word_of_nat n AND 0x7F :: 8 word) = n mod 128 \<and>
      unat (word_of_nat n AND 0x0F :: 8 word) = n mod 16 \<and>
      (word_of_nat n AND 0x80 = (0 :: 8 word) \<longleftrightarrow> n < 128)) [0..<256]"
    by code_simp
  have "unat b < 256" using unsigned_less [of b] by simp
  with all have "unat (word_of_nat (unat b) AND 0x7F :: 8 word) = unat b mod 128 \<and>
      unat (word_of_nat (unat b) AND 0x0F :: 8 word) = unat b mod 16 \<and>
      (word_of_nat (unat b) AND 0x80 = (0 :: 8 word) \<longleftrightarrow> unat b < 128)"
    unfolding list_all_iff by (metis atLeastLessThan_iff set_upt zero_le)
  then show "unat (b AND 0x7F) = unat b mod 128" and "unat (b AND 0x0F) = unat b mod 16"
    and "b AND 0x80 = 0 \<longleftrightarrow> unat b < 128" by simp_all
qed

subsection \<open>The walkers\<close>

text \<open>The bytes a value of a wire type takes, for the types that are not groups.\<close>

definition skip_value :: "nat \<Rightarrow> bytes \<Rightarrow> bytes option" where
  "skip_value wireType bs =
     (if wireType = 0 then map_option snd (varint64 bs)
      else if wireType = 1 then advance 8 bs
      else if wireType = 5 then advance 4 bs
      else if wireType = 2 then (case varint32 bs of None \<Rightarrow> None | Some (len, rest) \<Rightarrow> advance len rest)
      else None)"

lemma skip_value_shorter: "skip_value wireType bs = Some rest \<Longrightarrow> length rest \<le> length bs"
  by (auto simp: skip_value_def dest: varint_shorter advance_shorter split: if_splits option.splits)
    (meson advance_shorter le_trans less_imp_le varint_shorter)

lemma step_shorter:
  "varint32 bs = Some (tag, rest) \<Longrightarrow> skip_value w rest = Some r \<Longrightarrow> length r < length bs"
  "varint32 bs = Some (tag, rest) \<Longrightarrow> varint32 rest = Some (n, rest') \<Longrightarrow> advance n rest' = Some r \<Longrightarrow>
     length r < length bs"
  by (meson varint_shorter skip_value_shorter advance_shorter le_less_trans less_trans)+

text \<open>\<open>walksAsMessage\<close>, from a cursor and the fields of the groups that are open.\<close>

function walk :: "nat list \<Rightarrow> bytes \<Rightarrow> bool" where
  "walk groups bs =
     (if bs = [] then groups = []
      else case varint32 bs of
        None \<Rightarrow> False
      | Some (tag, rest) \<Rightarrow>
          (let field = tag div 8; wireType = tag mod 8 in
           if field = 0 then False
           else if wireType = 3 then walk (field # groups) rest
           else if wireType = 4 then (case groups of g # gs \<Rightarrow> g = field \<and> walk gs rest | [] \<Rightarrow> False)
           else (case skip_value wireType rest of None \<Rightarrow> False | Some rest' \<Rightarrow> walk groups rest')))"
  by pat_completeness auto
termination
  by (relation "measure (\<lambda>(groups, bs). length bs)") (auto dest: varint_shorter step_shorter)

declare walk.simps [simp del]

definition walksAsMessage :: "bytes \<Rightarrow> bool" where
  "walksAsMessage = walk []"

text \<open>The arms of the envelope this build knows.\<close>

definition ENVELOPE_TAGS :: "nat list" where
  "ENVELOPE_TAGS = [1..<32]"

text \<open>\<open>namesOnlyFutureArms\<close>; the count of future arms is kept as the code keeps it.\<close>

function future_arms :: "nat list \<Rightarrow> nat \<Rightarrow> bytes \<Rightarrow> bool" where
  "future_arms groups future bs =
     (if bs = [] then groups = [] \<and> 0 < future
      else case varint32 bs of
        None \<Rightarrow> False
      | Some (tag, rest) \<Rightarrow>
          (let field = tag div 8; wireType = tag mod 8; known = (groups = [] \<and> field \<in> set ENVELOPE_TAGS) in
           if field = 0 then False
           else if wireType = 3 then \<not> known \<and> future_arms (field # groups) future rest
           else if wireType = 4 then (case groups of g # gs \<Rightarrow> g = field \<and> future_arms gs future rest | [] \<Rightarrow> False)
           else if wireType = 2 then
             (case varint32 rest of
                None \<Rightarrow> False
              | Some (len, rest') \<Rightarrow>
                  (case advance len rest' of
                     None \<Rightarrow> False
                   | Some after \<Rightarrow>
                       if groups = [] then \<not> known \<and> walksAsMessage (take len rest') \<and> future_arms groups (Suc future) after
                       else future_arms groups future after))
           else \<not> known \<and> (case skip_value wireType rest of None \<Rightarrow> False | Some rest' \<Rightarrow> future_arms groups future rest')))"
  by pat_completeness auto
termination
  by (relation "measure (\<lambda>(groups, future, bs). length bs)") (auto dest: varint_shorter step_shorter)

declare future_arms.simps [simp del]

definition namesOnlyFutureArms :: "bytes \<Rightarrow> bool" where
  "namesOnlyFutureArms = future_arms [] 0"

subsection \<open>Reading is local\<close>

lemma bounded_varint_append:
  "bounded_varint m l c shift result bs = Some (n, rest) \<Longrightarrow> bounded_varint m l c shift result (bs @ bs') = Some (n, rest @ bs')"
  by (induction m l c shift result bs rule: bounded_varint.induct) (auto simp: Let_def split: if_splits)

lemma bounded_varint_split:
  "bounded_varint m l c shift result bs = Some (n, rest) \<Longrightarrow>
     \<exists>v. bs = v @ rest \<and> v \<noteq> [] \<and> bounded_varint m l c shift result v = Some (n, [])"
proof (induction m l c shift result bs rule: bounded_varint.induct)
  case (2 m l c shift result b bs)
  show ?case
  proof (cases "b AND 0x80 = 0")
    case True
    with 2(2) show ?thesis by (intro exI [of _ "[b]"]) (auto simp: Let_def split: if_splits)
  next
    case False
    with 2 obtain v where "bs = v @ rest" "v \<noteq> []"
      "bounded_varint m l (Suc c) (shift + 7) (result + unat (b AND 0x7F) * 2 ^ shift) v = Some (n, [])"
      by (auto simp: Let_def split: if_splits)
    with False 2(2) show ?thesis by (intro exI [of _ "b # v"]) (auto simp: Let_def split: if_splits)
  qed
qed simp

lemma varint_append:
  "varint32 bs = Some (n, rest) \<Longrightarrow> varint32 (bs @ bs') = Some (n, rest @ bs')"
  "varint64 bs = Some (n, rest) \<Longrightarrow> varint64 (bs @ bs') = Some (n, rest @ bs')"
  by (simp_all add: varint32_def varint64_def bounded_varint_append)

lemma varint_split:
  "varint32 bs = Some (n, rest) \<Longrightarrow> \<exists>v. bs = v @ rest \<and> v \<noteq> [] \<and> varint32 v = Some (n, [])"
  "varint64 bs = Some (n, rest) \<Longrightarrow> \<exists>v. bs = v @ rest \<and> v \<noteq> [] \<and> varint64 v = Some (n, [])"
  by (simp_all add: varint32_def varint64_def bounded_varint_split)

lemma varint_nonempty [simp]: "varint32 [] = None" "varint64 [] = None"
  by (simp_all add: varint32_def varint64_def)

lemma advance_split: "advance n bs = Some rest \<longleftrightarrow> (\<exists>p. bs = p @ rest \<and> length p = n)"
  by (auto simp: advance_def intro: exI [of _ "take n bs"])

subsection \<open>The grammar of messages\<close>

text \<open>
  A message is a sequence of fields; a field is a tag followed by its value, a group the fields
  between a start tag and an end tag of the same number.
\<close>

definition tag_bytes :: "nat \<Rightarrow> nat \<Rightarrow> bytes \<Rightarrow> bool" where
  "tag_bytes field wireType t \<longleftrightarrow> 0 < field \<and> wireType < 8 \<and> varint32 t = Some (8 * field + wireType, [])"

definition value_bytes :: "nat \<Rightarrow> bytes \<Rightarrow> bool" where
  "value_bytes wireType v \<longleftrightarrow>
     (wireType = 0 \<and> (\<exists>n. varint64 v = Some (n, []))) \<or>
     (wireType = 1 \<and> length v = 8) \<or>
     (wireType = 5 \<and> length v = 4) \<or>
     (wireType = 2 \<and> (\<exists>l payload. v = l @ payload \<and> varint32 l = Some (length payload, [])))"

inductive message :: "bytes \<Rightarrow> bool" where
  empty: "message []"
| field: "tag_bytes k w t \<Longrightarrow> value_bytes w v \<Longrightarrow> message m \<Longrightarrow> message (t @ v @ m)"
| group: "tag_bytes k 3 t \<Longrightarrow> message inner \<Longrightarrow> tag_bytes k 4 t' \<Longrightarrow> message m \<Longrightarrow>
    message (t @ inner @ t' @ m)"

lemma skip_value_iff: "skip_value w bs = Some rest \<longleftrightarrow> (\<exists>v. bs = v @ rest \<and> value_bytes w v)"
proof
  assume "skip_value w bs = Some rest"
  then consider "w = 0" "\<exists>n. varint64 bs = Some (n, rest)" | "w = 1" "advance 8 bs = Some rest" | "w = 5" "advance 4 bs = Some rest"
    | n r where "w = 2" "varint32 bs = Some (n, r)" "advance n r = Some rest"
    by (auto simp: skip_value_def split: if_splits option.splits)
  then show "\<exists>v. bs = v @ rest \<and> value_bytes w v"
  proof cases
    case 4
    then obtain s p where "bs = s @ r" "varint32 s = Some (n, [])" "r = p @ rest" "length p = n"
      using varint_split(1) advance_split by metis
    with 4(1) show ?thesis by (intro exI [of _ "s @ p"]) (auto simp: value_bytes_def)
  qed (auto simp: value_bytes_def advance_split dest: varint_split(2))
next
  assume "\<exists>v. bs = v @ rest \<and> value_bytes w v"
  then obtain v where bs: "bs = v @ rest" and "value_bytes w v" by blast
  then consider "w = 0" "\<exists>n. varint64 v = Some (n, [])" | "w = 1" "length v = 8" | "w = 5" "length v = 4"
    | s p where "w = 2" "v = s @ p" "varint32 s = Some (length p, [])"
    unfolding value_bytes_def by blast
  then show "skip_value w bs = Some rest"
  proof cases
    case 1
    then show ?thesis using varint_append(2) [of v _ "[]" rest] by (auto simp: bs skip_value_def)
  next
    case 4
    then have "varint32 bs = Some (length p, p @ rest)" using varint_append(1) [of s] bs by simp
    with 4(1) show ?thesis by (simp add: skip_value_def advance_def)
  qed (auto simp: bs skip_value_def advance_def)
qed

lemma tag_read:
  assumes "varint32 bs = Some (tag, rest)" and "tag div 8 \<noteq> 0"
  shows "\<exists>t. bs = t @ rest \<and> tag_bytes (tag div 8) (tag mod 8) t"
  using varint_split(1) [OF assms(1)] assms(2) by (auto simp: tag_bytes_def)

lemma tag_written:
  assumes "tag_bytes k w t"
  shows "varint32 (t @ bs) = Some (8 * k + w, bs)" and "(8 * k + w) div 8 = k" and "(8 * k + w) mod 8 = w"
    and "k \<noteq> 0" and "t \<noteq> []"
  using assms varint_append(1) [of t "8 * k + w" "[]" bs] by (auto simp: tag_bytes_def)

lemma value_type: "value_bytes w v \<Longrightarrow> w \<in> {0, 1, 2, 5}"
  by (auto simp: value_bytes_def)

subsection \<open>The walker accepts exactly the messages\<close>

text \<open>
  What may follow when the groups \<open>gs\<close> are open, the innermost first, if \<open>P\<close> may follow
  when none is.
\<close>

fun closes :: "(bytes \<Rightarrow> bool) \<Rightarrow> nat list \<Rightarrow> bytes \<Rightarrow> bool" where
  "closes P [] bs = P bs"
| "closes P (g # gs) bs =
     (\<exists>inner t rest. bs = inner @ t @ rest \<and> message inner \<and> tag_bytes g 4 t \<and> closes P gs rest)"

lemma closesI: "message inner \<Longrightarrow> tag_bytes g 4 t \<Longrightarrow> closes P gs rest \<Longrightarrow> closes P (g # gs) (inner @ t @ rest)"
  by auto

lemma closes_inside:
  assumes "closes P (g # gs) bs" and "\<And>m. message m \<Longrightarrow> message (part @ m)"
  shows "closes P (g # gs) (part @ bs)"
proof -
  from assms(1) obtain inner t rest where bs: "bs = inner @ t @ rest" "message inner" "tag_bytes g 4 t" "closes P gs rest" by auto
  from closesI [OF assms(2) [OF bs(2)] bs(3,4)] bs(1) show ?thesis by simp
qed

lemma closes_group_inside:
  assumes "tag_bytes k 3 t" and "closes P (k # g # gs) bs"
  shows "closes P (g # gs) (t @ bs)"
proof -
  from assms(2) obtain inner t' rest where bs: "bs = inner @ t' @ rest" "message inner" "tag_bytes k 4 t'" "closes P (g # gs) rest"
    by (auto simp del: closes.simps(2) simp: closes.simps(2) [of P k])
  have "closes P (g # gs) ((t @ inner @ t') @ rest)"
    using message.group [OF assms(1) bs(2,3)] by (intro closes_inside [OF bs(4)]) simp
  then show ?thesis using bs(1) by simp
qed

lemma closes_field:
  assumes "tag_bytes k w t" and "value_bytes w v" and "closes message gs bs"
  shows "closes message gs (t @ v @ bs)"
proof (cases gs)
  case (Cons g gs')
  have "closes message (g # gs') ((t @ v) @ bs)"
    using assms(3) message.field [OF assms(1,2)] unfolding Cons by (intro closes_inside) simp_all
  then show ?thesis using Cons by simp
qed (use assms in \<open>simp add: message.field\<close>)

lemma closes_group:
  assumes "tag_bytes k 3 t" and "closes message (k # gs) bs"
  shows "closes message gs (t @ bs)"
proof (cases gs)
  case Nil
  with assms(2) obtain inner t' rest where "bs = inner @ t' @ rest" "message inner" "tag_bytes k 4 t'" "message rest" by auto
  with message.group [OF assms(1)] Nil show ?thesis by simp
qed (use assms closes_group_inside in auto)

lemma walk_step:
  assumes "tag_bytes k w t"
  shows "walk gs (t @ bs) =
    (if w = 3 then walk (k # gs) bs
     else if w = 4 then (case gs of g # gs' \<Rightarrow> g = k \<and> walk gs' bs | [] \<Rightarrow> False)
     else (case skip_value w bs of None \<Rightarrow> False | Some rest \<Rightarrow> walk gs rest))"
  using tag_written [OF assms] by (simp add: walk.simps [of gs "t @ bs"])

lemma walk_closes: "walk gs bs \<Longrightarrow> closes message gs bs"
proof (induction gs bs rule: walk.induct)
  case (1 gs bs)
  show ?case
  proof (cases "bs = []")
    case True
    with 1(4) show ?thesis by (simp add: walk.simps message.empty)
  next
    case False
    with 1(4) obtain tag rest where r: "varint32 bs = Some (tag, rest)" "tag div 8 \<noteq> 0"
      by (auto simp: walk.simps [of gs bs] Let_def split: option.splits if_splits)
    then obtain t where t: "bs = t @ rest" "tag_bytes (tag div 8) (tag mod 8) t" using tag_read by blast
    note step = 1(4) [unfolded t(1) walk_step [OF t(2)]]
    consider "tag mod 8 = 3" | "tag mod 8 = 4" | "tag mod 8 \<noteq> 3" "tag mod 8 \<noteq> 4" by blast
    then show ?thesis
    proof cases
      case 1
      then show ?thesis using step "1.IH"(1) [OF False r(1) refl refl refl r(2)] t closes_group by simp
    next
      case 2
      then obtain gs' where g: "gs = tag div 8 # gs'" "walk gs' rest" using step by (auto split: list.splits)
      then have "closes message gs' rest" using "1.IH"(2) [OF False r(1) refl refl refl r(2)] 2 by simp
      from closesI [OF message.empty _ this] t 2 g(1) show ?thesis by simp
    next
      case 3
      then obtain rest' where s: "skip_value (tag mod 8) rest = Some rest'" "walk gs rest'" using step by (auto split: option.splits)
      then have "closes message gs rest'" using "1.IH"(3) [OF False r(1) refl refl refl r(2)] 3 by simp
      moreover obtain v where "rest = v @ rest'" "value_bytes (tag mod 8) v" using s(1) skip_value_iff by blast
      ultimately show ?thesis using closes_field t by simp
    qed
  qed
qed

lemma walk_message: "message m \<Longrightarrow> walk gs (m @ bs) = walk gs bs"
proof (induction arbitrary: gs bs rule: message.induct)
  case (field k w t v m)
  have "skip_value w (v @ m @ bs) = Some (m @ bs)" using field(2) skip_value_iff by blast
  with field value_type [OF field(2)] show ?case by (auto simp: walk_step [OF field(1)])
next
  case (group k t inner t' m)
  then show ?case by (simp add: walk_step [OF group(1)] walk_step [OF group(3)])
qed simp

lemma closes_walk: "closes message gs bs \<Longrightarrow> walk gs bs"
proof (induction gs arbitrary: bs)
  case Nil
  then show ?case using walk_message [of bs "[]" "[]"] by (simp add: walk.simps)
next
  case (Cons g gs)
  then show ?case by (auto simp: walk_message walk_step)
qed

lemma walksAsMessage_iff: "walksAsMessage bs \<longleftrightarrow> message bs"
  using walk_closes [of "[]" bs] closes_walk [of "[]" bs] by (auto simp: walksAsMessage_def)

subsection \<open>Frames of a later protocol\<close>

text \<open>A frame without an arm this build knows, and the number of its length-delimited fields.\<close>

inductive later_frame :: "nat \<Rightarrow> bytes \<Rightarrow> bool" where
  empty: "later_frame 0 []"
| field: "tag_bytes k w t \<Longrightarrow> k \<notin> set ENVELOPE_TAGS \<Longrightarrow> w \<noteq> 2 \<Longrightarrow> value_bytes w v \<Longrightarrow> later_frame n m \<Longrightarrow>
    later_frame n (t @ v @ m)"
| arm: "tag_bytes k 2 t \<Longrightarrow> k \<notin> set ENVELOPE_TAGS \<Longrightarrow> varint32 l = Some (length payload, []) \<Longrightarrow> message payload \<Longrightarrow>
    later_frame n m \<Longrightarrow> later_frame (Suc n) (t @ l @ payload @ m)"
| group: "tag_bytes k 3 t \<Longrightarrow> k \<notin> set ENVELOPE_TAGS \<Longrightarrow> message inner \<Longrightarrow> tag_bytes k 4 t' \<Longrightarrow> later_frame n m \<Longrightarrow>
    later_frame n (t @ inner @ t' @ m)"

lemma future_arms_step:
  assumes "tag_bytes k w t"
  shows "future_arms gs c (t @ bs) =
    (let known = (gs = [] \<and> k \<in> set ENVELOPE_TAGS) in
     if w = 3 then \<not> known \<and> future_arms (k # gs) c bs
     else if w = 4 then (case gs of g # gs' \<Rightarrow> g = k \<and> future_arms gs' c bs | [] \<Rightarrow> False)
     else if w = 2 then
       (case varint32 bs of
          None \<Rightarrow> False
        | Some (len, rest) \<Rightarrow>
            (case advance len rest of
               None \<Rightarrow> False
             | Some after \<Rightarrow>
                 if gs = [] then \<not> known \<and> message (take len rest) \<and> future_arms gs (Suc c) after
                 else future_arms gs c after))
     else \<not> known \<and> (case skip_value w bs of None \<Rightarrow> False | Some rest \<Rightarrow> future_arms gs c rest))"
proof -
  obtain tag where "varint32 (t @ bs) = Some (tag, bs)" "tag div 8 = k" "tag mod 8 = w" "k \<noteq> 0" "t \<noteq> []"
    using tag_written [OF assms] by blast
  then show ?thesis by (simp add: future_arms.simps [of gs c "t @ bs"] walksAsMessage_iff Let_def split: option.split list.split)
qed

lemma future_inside:
  "message m \<Longrightarrow> gs \<noteq> [] \<Longrightarrow> future_arms gs c (m @ bs) = future_arms gs c bs"
proof (induction arbitrary: gs bs rule: message.induct)
  case (field k w t v m)
  have "skip_value w (v @ m @ bs) = Some (m @ bs)" using field(2) skip_value_iff by blast
  moreover have "w = 2 \<Longrightarrow> skip_value w (v @ m @ bs) =
      (case varint32 (v @ m @ bs) of None \<Rightarrow> None | Some (len, rest) \<Rightarrow> advance len rest)"
    by (simp add: skip_value_def)
  ultimately show ?case using field value_type [OF field(2)]
    by (auto simp: future_arms_step [OF field(1)] Let_def split: option.splits)
next
  case (group k t inner t' m)
  then show ?case by (simp add: future_arms_step [OF group(1)] future_arms_step [OF group(3)])
qed simp

definition later_after :: "nat \<Rightarrow> bytes \<Rightarrow> bool" where
  "later_after c bs \<longleftrightarrow> (\<exists>n. later_frame n bs \<and> 0 < c + n)"

lemma closes_field_later:
  assumes "tag_bytes k w t" and "value_bytes w v" and "w \<noteq> 2" and "gs = [] \<Longrightarrow> k \<notin> set ENVELOPE_TAGS"
    and "closes (later_after c) gs bs"
  shows "closes (later_after c) gs (t @ v @ bs)"
proof (cases gs)
  case Nil
  with assms show ?thesis by (auto simp: later_after_def intro: later_frame.field)
next
  case (Cons g gs')
  have "closes (later_after c) (g # gs') ((t @ v) @ bs)"
    using assms(5) message.field [OF assms(1,2)] unfolding Cons by (intro closes_inside) simp_all
  then show ?thesis using Cons by simp
qed

lemma closes_arm_later:
  assumes "tag_bytes k 2 t" and "varint32 l = Some (length p, [])"
    and "if gs = [] then k \<notin> set ENVELOPE_TAGS \<and> message p \<and> later_after (Suc c) bs else closes (later_after c) gs bs"
  shows "closes (later_after c) gs (t @ l @ p @ bs)"
proof (cases gs)
  case Nil
  with assms(3) obtain n where "k \<notin> set ENVELOPE_TAGS" "message p" "later_frame n bs" by (auto simp: later_after_def)
  with later_frame.arm [OF assms(1) _ assms(2)] Nil show ?thesis
    by (auto simp: later_after_def intro!: exI [of _ "Suc n"])
next
  case (Cons g gs')
  have v: "value_bytes 2 (l @ p)" using assms(2) by (auto simp: value_bytes_def)
  have "closes (later_after c) (g # gs') bs" using assms(3) Cons by simp
  then have "closes (later_after c) (g # gs') ((t @ l @ p) @ bs)"
    by (rule closes_inside) (use message.field [OF assms(1) v] in simp)
  then show ?thesis using Cons by simp
qed

lemma closes_group_later:
  assumes "tag_bytes k 3 t" and "gs = [] \<Longrightarrow> k \<notin> set ENVELOPE_TAGS" and "closes (later_after c) (k # gs) bs"
  shows "closes (later_after c) gs (t @ bs)"
proof (cases gs)
  case Nil
  with assms(3) obtain inner t' rest n where "bs = inner @ t' @ rest" "message inner" "tag_bytes k 4 t'"
    "later_frame n rest" "0 < c + n" by (auto simp: later_after_def)
  moreover from this have "later_frame n (t @ inner @ t' @ rest)"
    using later_frame.group [OF assms(1)] assms(2) Nil by blast
  ultimately show ?thesis using Nil by (auto simp: later_after_def)
qed (use assms closes_group_inside in auto)

lemma future_closes: "future_arms gs c bs \<Longrightarrow> closes (later_after c) gs bs"
proof (induction "length bs" arbitrary: gs c bs rule: less_induct)
  case less
  show ?case
  proof (cases "bs = []")
    case True
    with less(2) have "gs = []" "0 < c" by (simp_all add: future_arms.simps [of gs c "[]"])
    with True later_frame.empty show ?thesis by (auto simp: later_after_def)
  next
    case False
    note all = less(2) [unfolded future_arms.simps [of gs c bs] if_not_P [OF False] Let_def]
    then obtain tag rest where r1: "varint32 bs = Some (tag, rest)" by (cases "varint32 bs") auto
    have "tag div 8 \<noteq> 0" by (rule notI) (use all r1 in simp)
    note r = r1 this
    from r obtain t where t: "bs = t @ rest" "tag_bytes (tag div 8) (tag mod 8) t" using tag_read by blast
    note step = less(2) [unfolded t(1) future_arms_step [OF t(2)] Let_def]
    have short: "length rest < length bs" using varint_shorter(2) [OF r(1)] .
    let ?k = "tag div 8"
    consider "tag mod 8 = 3" | "tag mod 8 = 4" | "tag mod 8 = 2" | "tag mod 8 \<notin> {2, 3, 4}" by blast
    then show ?thesis
    proof cases
      case 1
      with step have "gs = [] \<Longrightarrow> ?k \<notin> set ENVELOPE_TAGS" "future_arms (?k # gs) c rest" by auto
      with closes_group_later [of ?k t gs c rest] less(1) [OF short, of "?k # gs" c] t 1 show ?thesis
        by (simp del: closes.simps)
    next
      case 2
      then obtain gs' where g: "gs = ?k # gs'" "future_arms gs' c rest" using step by (auto split: list.splits)
      from closesI [OF message.empty _ less(1) [OF short g(2)]] t 2 g(1) show ?thesis by simp
    next
      case 3
      then obtain len rest' after where l: "varint32 rest = Some (len, rest')" "advance len rest' = Some after"
        and ok: "if gs = [] then ?k \<notin> set ENVELOPE_TAGS \<and> message (take len rest') \<and> future_arms gs (Suc c) after
          else future_arms gs c after"
        using step by (auto split: option.splits if_splits)
      have "length after < length bs" using step_shorter(2) [OF r(1) l] .
      with ok less(1) have "if gs = [] then ?k \<notin> set ENVELOPE_TAGS \<and> message (take len rest') \<and> later_after (Suc c) after
          else closes (later_after c) gs after" by (metis closes.simps(1))
      moreover obtain v where "rest = v @ rest'" "varint32 v = Some (len, [])" using varint_split(1) [OF l(1)] by blast
      moreover have "rest' = take len rest' @ after" "length (take len rest') = len"
        using l(2) by (auto simp: advance_def split: if_splits)
      ultimately show ?thesis using closes_arm_later [of ?k t v "take len rest'" gs c after] t 3 by simp
    next
      case 4
      then obtain rest' where s: "skip_value (tag mod 8) rest = Some rest'" "future_arms gs c rest'"
        "gs = [] \<Longrightarrow> ?k \<notin> set ENVELOPE_TAGS" using step by (auto split: option.splits)
      have "length rest' < length bs" using step_shorter(1) [OF r(1) s(1)] .
      then have "closes (later_after c) gs rest'" using less(1) s(2) by blast
      moreover obtain v where "rest = v @ rest'" "value_bytes (tag mod 8) v" using s(1) skip_value_iff by blast
      ultimately show ?thesis using closes_field_later t s(3) 4 by simp
    qed
  qed
qed

lemma later_future: "later_frame n bs \<Longrightarrow> 0 < c + n \<Longrightarrow> future_arms [] c bs"
proof (induction arbitrary: c rule: later_frame.induct)
  case (field k w t v n m)
  have "skip_value w (v @ m) = Some m" using field(4) skip_value_iff by blast
  with field value_type [OF field(4)] show ?case by (auto simp: future_arms_step [OF field(1)] Let_def)
next
  case (arm k t l payload n m)
  have "varint32 (l @ payload @ m) = Some (length payload, payload @ m)" using varint_append(1) [OF arm(3)] by simp
  with arm show ?case by (simp add: future_arms_step [OF arm(1)] Let_def advance_def)
next
  case (group k t inner t' n m)
  then show ?case by (simp add: future_arms_step [OF group(1)] future_arms_step [OF group(4)] future_inside Let_def)
qed (simp add: future_arms.simps [of _ _ "[]"])

lemma namesOnlyFutureArms_iff: "namesOnlyFutureArms bs \<longleftrightarrow> (\<exists>n. later_frame (Suc n) bs)"
proof
  assume "namesOnlyFutureArms bs"
  then obtain n where "later_frame n bs" "0 < n"
    using future_closes [of "[]" 0 bs] by (auto simp: namesOnlyFutureArms_def later_after_def)
  then show "\<exists>n. later_frame (Suc n) bs" by (metis Suc_pred)
next
  assume "\<exists>n. later_frame (Suc n) bs"
  then show "namesOnlyFutureArms bs" using later_future by (auto simp: namesOnlyFutureArms_def)
qed

subsection \<open>Varints read what was written\<close>

text \<open>The encoding of protobuf: seven bits a byte, the low ones first.\<close>

fun write_varint :: "nat \<Rightarrow> bytes" where
  "write_varint n = (if n < 128 then [word_of_nat n] else word_of_nat (n mod 128 + 128) # write_varint (n div 128))"

declare write_varint.simps [simp del]

lemma unat_small: "n < 256 \<Longrightarrow> unat (word_of_nat n :: 8 word) = n"
  by (simp add: unat_of_nat)

lemma read_written:
  assumes "c < 5" and "n < 2 ^ (32 - 7 * c)"
  shows "bounded_varint 5 0x0F c s r (write_varint n @ rest) = Some (r + n * 2 ^ s, rest)"
  using assms
proof (induction n arbitrary: c s r rule: write_varint.induct)
  case (1 n)
  show ?case
  proof (cases "n < 128")
    case True
    have last: "\<not> (0x0F :: 8 word) < word_of_nat n" if "c = 4"
      using 1(3) that True by (simp add: word_less_nat_alt unat_small)
    have "write_varint n = [word_of_nat n]" using True by (simp add: write_varint.simps [of n])
    then show ?thesis using 1(2) True last by (auto simp: byte_parts unat_small Let_def)
  next
    case False
    then have c: "c < 4" using 1(2,3) by (cases "c = 4") auto
    then have e: "32 - 7 * c = 7 + (32 - 7 * Suc c)" by simp
    have "n div 128 < 2 ^ (32 - 7 * Suc c)"
      using 1(3) unfolding e power_add by (simp add: less_mult_imp_div_less mult.commute)
    with 1(1) [OF False, of "Suc c" "s + 7" "r + n mod 128 * 2 ^ s"] c
    have "bounded_varint 5 0x0F (Suc c) (s + 7) (r + n mod 128 * 2 ^ s) (write_varint (n div 128) @ rest) =
        Some (r + n mod 128 * 2 ^ s + n div 128 * 2 ^ (s + 7), rest)" by simp
    moreover have "n mod 128 * 2 ^ s + n div 128 * 2 ^ (s + 7) = n * 2 ^ s"
      by (simp add: power_add algebra_simps flip: distrib_left)
    moreover have "unat (word_of_nat (n mod 128 + 128) :: 8 word) = n mod 128 + 128" by (rule unat_small) simp
    moreover have "write_varint n = word_of_nat (n mod 128 + 128) # write_varint (n div 128)"
      using False by (simp add: write_varint.simps [of n])
    ultimately show ?thesis using c by (simp add: byte_parts Let_def add.assoc)
  qed
qed

lemma varint32_written: "n < 2 ^ 32 \<Longrightarrow> varint32 (write_varint n @ rest) = Some (n, rest)"
  using read_written [of 0 n 0 0 rest] by (simp add: varint32_def)

lemma seven_bits:
  fixes r x :: nat
  assumes "r < 2 ^ (7 * c)" and "x < 128"
  shows "r + x * 2 ^ (7 * c) < 2 ^ (7 * Suc c)"
proof -
  have "x * 2 ^ (7 * c) \<le> 127 * 2 ^ (7 * c)" using assms(2) by (intro mult_le_mono1) simp
  with assms(1) have "r + x * 2 ^ (7 * c) < 128 * 2 ^ (7 * c)" by linarith
  then show ?thesis by (simp add: power_add)
qed

lemma masked_agrees:
  assumes "bounded_varint 5 0x0F c (7 * c) r bs = Some (n, rest)" and "c < 5" and "r < 2 ^ (7 * c)"
  shows "n < 2 ^ 32 \<and> read_varint (7 * c) r bs = Some (n, rest)"
  using assms
proof (induction bs arbitrary: c r)
  case (Cons b bs)
  let ?r = "r + unat (b AND 0x7F) * 2 ^ (7 * c)"
  have low: "unat (b AND 0x7F) < 2 ^ 7" by (simp add: byte_parts)
  have r: "?r < 2 ^ (7 * Suc c)" by (rule seven_bits [OF Cons.prems(3)]) (use low in simp)
  show ?case
  proof (cases "c = 4")
    case True
    with Cons.prems(1) have b: "\<not> 0x0F < b" by (simp add: Let_def split: if_splits)
    then have u: "unat b < 16" by (simp add: word_less_nat_alt)
    then have "b AND 0x80 = 0" "unat (b AND 0x7F) = unat b" "unat (b AND 0x0F) = unat b" by (simp_all add: byte_parts)
    with True Cons.prems u b show ?thesis by (auto simp: Let_def)
  next
    case False
    with Cons.prems(2) have c: "Suc c < 5" "7 * c < 28" by simp_all
    show ?thesis
    proof (cases "b AND 0x80 = 0")
      case True
      have "(2::nat) ^ (7 * Suc c) \<le> 2 ^ 32" using c by (intro power_increasing) simp_all
      with True Cons.prems c r False show ?thesis by (simp add: Let_def split: if_splits)
    next
      case False
      with Cons.prems(1) c have "bounded_varint 5 0x0F (Suc c) (7 * Suc c) ?r bs = Some (n, rest)"
        by (simp add: Let_def add.commute split: if_splits)
      from Cons.IH [OF this c(1) r] False c show ?thesis by (simp add: Let_def add.commute)
    qed
  qed
qed simp

lemma varint32_masked: "varint32 bs = Some (n, rest) \<Longrightarrow> n < 2 ^ 32 \<and> readVarint bs = Some (n, rest)"
  using masked_agrees [of 0 0 bs n rest] by (simp add: varint32_def readVarint_def)

lemma masked_ends: "bounded_varint m l c s' r' bs = Some (n, rest) \<Longrightarrow> \<exists>k. read_varint s r bs = Some (k, rest)"
proof (induction bs arbitrary: c s s' r r')
  case (Cons b bs)
  show ?case
  proof (cases "b AND 0x80 = 0")
    case True
    with Cons.prems show ?thesis by (auto simp: Let_def split: if_splits)
  next
    case False
    with Cons.prems have "bounded_varint m l (Suc c) (s' + 7) (r' + unat (b AND 0x7F) * 2 ^ s') bs = Some (n, rest)"
      by (simp add: Let_def split: if_splits)
    from Cons.IH [OF this] False show ?thesis by (simp add: Let_def)
  qed
qed simp

lemma varint64_masked: "varint64 bs = Some (n, rest) \<Longrightarrow> \<exists>k. readVarint bs = Some (k, rest)"
  unfolding varint64_def readVarint_def by (rule masked_ends)

lemma masked_bound:
  assumes "read_varint s r bs = Some (n, rest)" and "s = 7 * c" and "r < 2 ^ min (7 * c) 32"
  shows "n < 2 ^ 32"
  using assms
proof (induction bs arbitrary: c s r)
  case (Cons b bs)
  let ?r = "if s < 28 then r + unat (b AND 0x7F) * 2 ^ s else if s = 28 then r + unat (b AND 0x0F) * 2 ^ 28 else r"
  have r: "?r < 2 ^ min (7 * Suc c) 32"
  proof -
    consider "c < 4" | "c = 4" | "4 < c" by linarith
    then show ?thesis
    proof cases
      case 1
      with Cons.prems(2,3) seven_bits [of r c "unat (b AND 0x7F)"] show ?thesis by (simp add: byte_parts min_def)
    next
      case 2
      have "unat (b AND 0x0F) * 2 ^ 28 \<le> 15 * 2 ^ 28" by (intro mult_le_mono1) (simp add: byte_parts)
      with 2 Cons.prems show ?thesis by (simp add: min_def)
    qed (use Cons.prems in \<open>simp add: min_def\<close>)
  qed
  show ?case
  proof (cases "b AND 0x80 = 0")
    case True
    have "(2::nat) ^ min (7 * Suc c) 32 \<le> 2 ^ 32" by (intro power_increasing) simp_all
    with r True Cons.prems(1) show ?thesis by (simp add: Let_def)
  next
    case False
    with Cons.prems(1) have "read_varint (s + 7) ?r bs = Some (n, rest)" by (simp add: Let_def)
    from Cons.IH [OF this _ r] Cons.prems(2) show ?thesis by simp
  qed
qed simp

lemma readVarint_bound: "readVarint bs = Some (n, rest) \<Longrightarrow> n < 2 ^ 32"
  using masked_bound [of 0 0 bs n rest 0] by (simp add: readVarint_def)

lemma masked_fails: "read_varint s r bs = None \<longleftrightarrow> list_all (\<lambda>b. b AND 0x80 \<noteq> 0) bs"
  by (induction bs arbitrary: s r) (simp_all add: Let_def)

section \<open>The scan of an envelope\<close>

subsection \<open>What is scanned\<close>

text \<open>
  One message level: \<open>singular\<close> fields merge, \<open>descend\<close> and \<open>google\<close> edges lead to the
  message a field holds, \<open>arms\<close> are alternatives of a oneof.
\<close>

record scan_spec =
  singular :: "nat list"
  descend :: "(nat \<times> string) list"
  google :: "(nat \<times> string) list"
  arms :: "nat list"
  armWireTypes :: "(nat \<times> nat) list"

definition plain_spec :: "nat list \<Rightarrow> (nat \<times> string) list \<Rightarrow> (nat \<times> string) list \<Rightarrow> scan_spec" where
  "plain_spec s d g = \<lparr>singular = s, descend = d, google = g, arms = [], armWireTypes = []\<rparr>"

definition SCAN_SPECS :: "(string \<times> scan_spec) list" where
  "SCAN_SPECS =
     [(''TextMessageStartEvent'', plain_spec [1] [(1, ''BaseEvent'')] []),
      (''BaseEvent'', plain_spec [3, 4] [] [(3, ''google.protobuf.Value''), (4, ''google.protobuf.Struct'')]),
      (''TextMessageContentEvent'', plain_spec [1] [(1, ''BaseEvent'')] []),
      (''TextMessageEndEvent'', plain_spec [1] [(1, ''BaseEvent'')] []),
      (''ToolCallStartEvent'', plain_spec [1] [(1, ''BaseEvent'')] []),
      (''ToolCallArgsEvent'', plain_spec [1] [(1, ''BaseEvent'')] []),
      (''ToolCallEndEvent'', plain_spec [1] [(1, ''BaseEvent'')] []),
      (''StateSnapshotEvent'', plain_spec [1, 2] [(1, ''BaseEvent'')] [(2, ''google.protobuf.Value'')]),
      (''StateDeltaEvent'', plain_spec [1] [(1, ''BaseEvent''), (2, ''JsonPatchOperation'')] []),
      (''JsonPatchOperation'', plain_spec [4] [] [(4, ''google.protobuf.Value'')]),
      (''MessagesSnapshotEvent'', plain_spec [1] [(1, ''BaseEvent''), (2, ''Message'')] []),
      (''Message'', plain_spec [9, 13] [(5, ''ToolCall''), (8, ''InputContent'')] [(9, ''google.protobuf.Struct''), (13, ''google.protobuf.Struct'')]),
      (''ToolCall'', plain_spec [3, 4] [] [(4, ''google.protobuf.Struct'')]),
      (''InputContent'', \<lparr>singular = [1, 2, 3, 4, 5], descend = [(1, ''TextInputPart''), (2, ''ImageInputPart''), (3, ''AudioInputPart''), (4, ''VideoInputPart''), (5, ''DocumentInputPart'')], google = [], arms = [1, 2, 3, 4, 5], armWireTypes = []\<rparr>),
      (''TextInputPart'', plain_spec [3] [] [(3, ''google.protobuf.Value'')]),
      (''ImageInputPart'', plain_spec [1, 2] [(1, ''InputContentSource'')] [(2, ''google.protobuf.Value'')]),
      (''InputContentSource'', \<lparr>singular = [1, 2, 3], descend = [], google = [], arms = [1, 2, 3], armWireTypes = []\<rparr>),
      (''AudioInputPart'', plain_spec [1, 2] [(1, ''InputContentSource'')] [(2, ''google.protobuf.Value'')]),
      (''VideoInputPart'', plain_spec [1, 2] [(1, ''InputContentSource'')] [(2, ''google.protobuf.Value'')]),
      (''DocumentInputPart'', plain_spec [1, 2] [(1, ''InputContentSource'')] [(2, ''google.protobuf.Value'')]),
      (''RawEvent'', plain_spec [1, 2] [(1, ''BaseEvent'')] [(2, ''google.protobuf.Value'')]),
      (''CustomEvent'', plain_spec [1, 3] [(1, ''BaseEvent'')] [(3, ''google.protobuf.Value'')]),
      (''RunStartedEvent'', plain_spec [1, 5] [(1, ''BaseEvent''), (5, ''RunAgentInput'')] []),
      (''RunAgentInput'', plain_spec [4, 8] [(5, ''Message''), (6, ''Tool''), (9, ''ResumeEntry'')] [(4, ''google.protobuf.Value''), (8, ''google.protobuf.Value'')]),
      (''Tool'', plain_spec [3, 4] [] [(3, ''google.protobuf.Value''), (4, ''google.protobuf.Struct'')]),
      (''ResumeEntry'', plain_spec [3, 4] [] [(3, ''google.protobuf.Value''), (4, ''google.protobuf.Struct'')]),
      (''RunFinishedEvent'', plain_spec [1, 4] [(1, ''BaseEvent''), (6, ''Interrupt'')] [(4, ''google.protobuf.Value'')]),
      (''Interrupt'', plain_spec [5, 7] [] [(5, ''google.protobuf.Value''), (7, ''google.protobuf.Value'')]),
      (''RunErrorEvent'', plain_spec [1] [(1, ''BaseEvent'')] []),
      (''StepStartedEvent'', plain_spec [1] [(1, ''BaseEvent'')] []),
      (''StepFinishedEvent'', plain_spec [1] [(1, ''BaseEvent'')] []),
      (''TextMessageChunkEvent'', plain_spec [1] [(1, ''BaseEvent'')] []),
      (''ToolCallChunkEvent'', plain_spec [1] [(1, ''BaseEvent'')] []),
      (''SubagentStartedEvent'', plain_spec [1] [(1, ''BaseEvent'')] []),
      (''SubagentFinishedEvent'', plain_spec [1, 3] [(1, ''BaseEvent'')] [(3, ''google.protobuf.Value'')]),
      (''SubagentErrorEvent'', plain_spec [1] [(1, ''BaseEvent'')] []),
      (''ToolCallResultEvent'', plain_spec [1] [(1, ''BaseEvent''), (7, ''InputContent'')] []),
      (''ActivitySnapshotEvent'', plain_spec [1, 5] [(1, ''BaseEvent'')] [(5, ''google.protobuf.Struct'')]),
      (''ActivityDeltaEvent'', plain_spec [1] [(1, ''BaseEvent''), (5, ''JsonPatchOperation'')] []),
      (''ReasoningStartEvent'', plain_spec [1] [(1, ''BaseEvent'')] []),
      (''ReasoningMessageStartEvent'', plain_spec [1] [(1, ''BaseEvent'')] []),
      (''ReasoningMessageContentEvent'', plain_spec [1] [(1, ''BaseEvent'')] []),
      (''ReasoningMessageEndEvent'', plain_spec [1] [(1, ''BaseEvent'')] []),
      (''ReasoningMessageChunkEvent'', plain_spec [1] [(1, ''BaseEvent'')] []),
      (''ReasoningEndEvent'', plain_spec [1] [(1, ''BaseEvent'')] []),
      (''ReasoningEncryptedValueEvent'', plain_spec [1] [(1, ''BaseEvent'')] []),
      (''google.protobuf.Struct'', plain_spec [] [(1, ''google.protobuf.Struct.FieldsEntry'')] []),
      (''google.protobuf.Struct.FieldsEntry'', plain_spec [2] [(2, ''google.protobuf.Value'')] []),
      (''google.protobuf.Value'', \<lparr>singular = [5, 6], descend = [(5, ''google.protobuf.Struct''), (6, ''google.protobuf.ListValue'')], google = [], arms = [1, 2, 3, 4, 5, 6], armWireTypes = [(1, 0), (2, 1), (3, 2), (4, 0), (5, 2), (6, 2)]\<rparr>),
      (''google.protobuf.ListValue'', plain_spec [] [(1, ''google.protobuf.Value'')] [])]"

definition ENVELOPE_SCAN :: "(nat \<times> string) list" where
  "ENVELOPE_SCAN =
     [(1, ''TextMessageStartEvent''),
      (2, ''TextMessageContentEvent''),
      (3, ''TextMessageEndEvent''),
      (4, ''ToolCallStartEvent''),
      (5, ''ToolCallArgsEvent''),
      (6, ''ToolCallEndEvent''),
      (7, ''StateSnapshotEvent''),
      (8, ''StateDeltaEvent''),
      (9, ''MessagesSnapshotEvent''),
      (10, ''RawEvent''),
      (11, ''CustomEvent''),
      (12, ''RunStartedEvent''),
      (13, ''RunFinishedEvent''),
      (14, ''RunErrorEvent''),
      (15, ''StepStartedEvent''),
      (16, ''StepFinishedEvent''),
      (17, ''TextMessageChunkEvent''),
      (18, ''ToolCallChunkEvent''),
      (19, ''SubagentStartedEvent''),
      (20, ''SubagentFinishedEvent''),
      (21, ''SubagentErrorEvent''),
      (22, ''ToolCallResultEvent''),
      (23, ''ActivitySnapshotEvent''),
      (24, ''ActivityDeltaEvent''),
      (25, ''ReasoningStartEvent''),
      (26, ''ReasoningMessageStartEvent''),
      (27, ''ReasoningMessageContentEvent''),
      (28, ''ReasoningMessageEndEvent''),
      (29, ''ReasoningMessageChunkEvent''),
      (30, ''ReasoningEndEvent''),
      (31, ''ReasoningEncryptedValueEvent'')]"

subsection \<open>Scanning\<close>

text \<open>The end of a value that is neither a group nor length-delimited.\<close>

definition skip_scanned :: "nat \<Rightarrow> bytes \<Rightarrow> bytes option" where
  "skip_scanned wireType bs =
     (if wireType = 0 then map_option snd (readVarint bs)
      else if wireType = 1 then advance 8 bs
      else if wireType = 5 then advance 4 bs
      else None)"

lemma scanned_shorter:
  "readVarint bs = Some (tag, rest) \<Longrightarrow> skip_scanned w rest = Some r \<Longrightarrow> length r < length bs"
  "readVarint bs = Some (tag, rest) \<Longrightarrow> readVarint rest = Some (n, rest') \<Longrightarrow> advance n rest' = Some r \<Longrightarrow>
     length r < length bs \<and> length (take n rest') < length bs"
proof -
  assume r: "readVarint bs = Some (tag, rest)" and "skip_scanned w rest = Some r"
  then have "length r \<le> length rest"
    by (auto simp: skip_scanned_def dest!: varint_shorter(1) advance_shorter split: if_splits)
  with varint_shorter(1) [OF r] show "length r < length bs" by simp
next
  assume "readVarint bs = Some (tag, rest)" "readVarint rest = Some (n, rest')" "advance n rest' = Some r"
  from this(1,2) [THEN varint_shorter(1)] this(3) [THEN advance_shorter]
  show "length r < length bs \<and> length (take n rest') < length bs" by auto
qed

text \<open>
  \<open>scanMessage\<close>, from a cursor, the number of open groups and the arm seen (0 for none);
  \<open>False\<close> is a throw.
\<close>

function scan_message :: "scan_spec \<Rightarrow> nat \<Rightarrow> nat \<Rightarrow> bytes \<Rightarrow> bool" where
  "scan_message spec depth seenArm bs =
     (if bs = [] then depth = 0
      else case readVarint bs of
        None \<Rightarrow> False
      | Some (tag, rest) \<Rightarrow>
          (let field = tag div 8; wireType = tag mod 8 in
           if field = 0 then False
           else if wireType = 3 then scan_message spec (Suc depth) seenArm rest
           else if wireType = 4 then depth \<noteq> 0 \<and> scan_message spec (depth - 1) seenArm rest
           else if wireType = 2 then
             (case readVarint rest of
                None \<Rightarrow> False
              | Some (len, rest') \<Rightarrow>
                  (case advance len rest' of
                     None \<Rightarrow> False
                   | Some after \<Rightarrow>
                       if depth \<noteq> 0 then scan_message spec depth seenArm after
                       else if field \<in> set (arms spec) \<and> seenArm \<noteq> 0 \<and> seenArm \<noteq> field then False
                       else (case map_of (descend spec) field of
                               None \<Rightarrow> True
                             | Some child \<Rightarrow>
                                 (case map_of SCAN_SPECS child of
                                    None \<Rightarrow> True
                                  | Some childSpec \<Rightarrow> scan_message childSpec 0 0 (take len rest'))) \<and>
                         scan_message spec depth (if field \<in> set (arms spec) then field else seenArm) after))
           else (case skip_scanned wireType rest of None \<Rightarrow> False | Some rest' \<Rightarrow> scan_message spec depth seenArm rest')))"
  by pat_completeness auto
termination
  by (relation "measure (\<lambda>(spec, depth, seenArm, bs). length bs)") (auto dest: varint_shorter scanned_shorter)

declare scan_message.simps [simp del]

definition scanMessage :: "bytes \<Rightarrow> scan_spec \<Rightarrow> bool" where
  "scanMessage data spec = scan_message spec 0 0 data"

text \<open>\<open>assertWellFormedEnvelope\<close>, with the known kinds seen so far.\<close>

function scan_envelope :: "nat \<Rightarrow> nat list \<Rightarrow> bytes \<Rightarrow> bool" where
  "scan_envelope depth seen bs =
     (if bs = [] then depth = 0
      else case readVarint bs of
        None \<Rightarrow> False
      | Some (tag, rest) \<Rightarrow>
          (let field = tag div 8; wireType = tag mod 8; known = (depth = 0 \<and> field \<in> set ENVELOPE_TAGS) in
           if field = 0 then False
           else if wireType = 3 then scan_envelope (Suc depth) seen rest
           else if wireType = 4 then depth \<noteq> 0 \<and> scan_envelope (depth - 1) seen rest
           else if known \<and> seen \<noteq> [] \<and> field \<notin> set seen then False
           else (let seen' = (if known then sadd field seen else seen) in
             if wireType = 2 then
               (case readVarint rest of
                  None \<Rightarrow> False
                | Some (len, rest') \<Rightarrow>
                    (case advance len rest' of
                       None \<Rightarrow> False
                     | Some after \<Rightarrow>
                         (depth \<noteq> 0 \<or>
                          (case map_of ENVELOPE_SCAN field of
                             None \<Rightarrow> True
                           | Some child \<Rightarrow>
                               (case map_of SCAN_SPECS child of
                                  None \<Rightarrow> True
                                | Some childSpec \<Rightarrow> scanMessage (take len rest') childSpec))) \<and>
                         scan_envelope depth seen' after))
             else (case skip_scanned wireType rest of None \<Rightarrow> False | Some rest' \<Rightarrow> scan_envelope depth seen' rest'))))"
  by pat_completeness auto
termination
  by (relation "measure (\<lambda>(depth, seen, bs). length bs)") (auto dest: varint_shorter scanned_shorter)

declare scan_envelope.simps [simp del]

definition assertWellFormedEnvelope :: "bytes \<Rightarrow> bool" where
  "assertWellFormedEnvelope = scan_envelope 0 []"

lemma every_child_has_a_spec:
  "list_all (\<lambda>(n, spec). list_all (\<lambda>(k, child). map_of SCAN_SPECS child \<noteq> None) (descend spec @ google spec)) SCAN_SPECS"
  "map fst ENVELOPE_SCAN = ENVELOPE_TAGS" "list_all (\<lambda>(k, child). map_of SCAN_SPECS child \<noteq> None) ENVELOPE_SCAN"
  by code_simp+

subsection \<open>The scan follows the grammar\<close>

lemma tag_scanned:
  assumes "tag_bytes k w t"
  obtains tag where "readVarint (t @ bs) = Some (tag, bs)" and "tag div 8 = k" and "tag mod 8 = w" and "k \<noteq> 0" and "t \<noteq> []"
  using tag_written [OF assms] varint32_masked by blast

lemma value_scanned:
  assumes "value_bytes w v" and "w \<noteq> 2"
  shows "skip_scanned w (v @ bs) = Some bs"
proof -
  from assms consider n where "w = 0" "varint64 v = Some (n, [])" | "w = 1" "length v = 8" | "w = 5" "length v = 4"
    unfolding value_bytes_def by blast
  then show ?thesis
  proof cases
    case 1
    then obtain k where "readVarint (v @ bs) = Some (k, bs)" using varint64_masked varint_append(2) by fastforce
    with 1 show ?thesis by (simp add: skip_scanned_def)
  qed (simp_all add: skip_scanned_def advance_def)
qed

lemma delimited_scanned:
  "varint32 l = Some (length p, []) \<Longrightarrow> readVarint (l @ p @ bs) = Some (length p, p @ bs)"
  using varint32_masked varint_append(1) by fastforce

lemma scan_envelope_step:
  assumes "tag_bytes k w t"
  shows "scan_envelope depth seen (t @ bs) =
    (let known = (depth = 0 \<and> k \<in> set ENVELOPE_TAGS) in
     if w = 3 then scan_envelope (Suc depth) seen bs
     else if w = 4 then depth \<noteq> 0 \<and> scan_envelope (depth - 1) seen bs
     else if known \<and> seen \<noteq> [] \<and> k \<notin> set seen then False
     else (let seen' = (if known then sadd k seen else seen) in
       if w = 2 then
         (case readVarint bs of
            None \<Rightarrow> False
          | Some (len, rest) \<Rightarrow>
              (case advance len rest of
                 None \<Rightarrow> False
               | Some after \<Rightarrow>
                   (depth \<noteq> 0 \<or>
                    (case map_of ENVELOPE_SCAN k of
                       None \<Rightarrow> True
                     | Some child \<Rightarrow>
                         (case map_of SCAN_SPECS child of
                            None \<Rightarrow> True
                          | Some childSpec \<Rightarrow> scanMessage (take len rest) childSpec))) \<and>
                   scan_envelope depth seen' after))
       else (case skip_scanned w bs of None \<Rightarrow> False | Some rest \<Rightarrow> scan_envelope depth seen' rest)))"
proof -
  obtain tag where "readVarint (t @ bs) = Some (tag, bs)" "tag div 8 = k" "tag mod 8 = w" "k \<noteq> 0" "t \<noteq> []"
    using tag_scanned [OF assms] by blast
  then show ?thesis
    by (simp add: scan_envelope.simps [of depth seen "t @ bs"] Let_def split: option.split)
qed

text \<open>Past a field or a message the kinds seen are the same, or the first one.\<close>

definition seen_grows :: "nat list \<Rightarrow> nat list \<Rightarrow> bool" where
  "seen_grows seen seen' \<longleftrightarrow> set seen' = set seen \<or> seen = [] \<and> (\<exists>k. set seen' = {k})"

lemma seen_grows_trans: "seen_grows a b \<Longrightarrow> seen_grows b c \<Longrightarrow> seen_grows a c"
  by (auto simp: seen_grows_def)

lemma scan_field:
  assumes "tag_bytes k w t" and "value_bytes w v" and "scan_envelope depth seen (t @ v @ bs)"
  shows "\<exists>seen'. seen_grows seen seen' \<and> (depth = 0 \<and> k \<in> set ENVELOPE_TAGS \<longrightarrow> k \<in> set seen') \<and> scan_envelope depth seen' bs"
proof -
  let ?seen = "if depth = 0 \<and> k \<in> set ENVELOPE_TAGS then sadd k seen else seen"
  have w: "w \<noteq> 3" "w \<noteq> 4" using value_type [OF assms(2)] by auto
  have "scan_envelope depth ?seen bs \<and> (depth = 0 \<and> k \<in> set ENVELOPE_TAGS \<longrightarrow> seen = [] \<or> k \<in> set seen)"
  proof (cases "w = 2")
    case True
    with assms(2) obtain l p where v: "v = l @ p" "varint32 l = Some (length p, [])" by (auto simp: value_bytes_def)
    from assms(3) w True delimited_scanned [OF v(2), of bs] show ?thesis
      by (auto simp: scan_envelope_step [OF assms(1)] v(1) Let_def advance_def split: if_splits)
  next
    case False
    from assms(3) w False value_scanned [OF assms(2) False, of bs] show ?thesis
      by (auto simp: scan_envelope_step [OF assms(1)] Let_def split: if_splits)
  qed
  then show ?thesis by (intro exI [of _ ?seen]) (auto simp: seen_grows_def)
qed

lemma scan_past_message:
  "message m \<Longrightarrow> scan_envelope depth seen (m @ bs) \<Longrightarrow> \<exists>seen'. seen_grows seen seen' \<and> scan_envelope depth seen' bs"
proof (induction arbitrary: depth seen bs rule: message.induct)
  case (field k w t v m)
  from field.prems obtain seen' where "seen_grows seen seen'" "scan_envelope depth seen' (m @ bs)"
    using scan_field [OF field(1,2), of depth seen "m @ bs"] by auto
  with field.IH show ?case by (meson seen_grows_trans)
next
  case (group k t inner t' m)
  from group.prems have "scan_envelope (Suc depth) seen (inner @ t' @ m @ bs)"
    by (simp add: scan_envelope_step [OF group(1)])
  from group.IH(1) [OF this] obtain s1 where s1: "seen_grows seen s1" "scan_envelope (Suc depth) s1 (t' @ m @ bs)" by blast
  then have "scan_envelope depth s1 (m @ bs)" by (simp add: scan_envelope_step [OF group(3)])
  from group.IH(2) [OF this] s1(1) show ?case by (meson seen_grows_trans)
qed (auto simp: seen_grows_def)

text \<open>
  C11. No frame that names two events is decoded: if the top level of a frame holds fields of two
  different arms, anything may surround them or follow, the duplicate scan rejects it.
\<close>

theorem second_kind_rejected:
  assumes "message pre" and "tag_bytes k w t" and "value_bytes w v" and "message mid" and "tag_bytes k' w' t'"
    and "w' \<noteq> 3" and "w' \<noteq> 4" and "k \<in> set ENVELOPE_TAGS" and "k' \<in> set ENVELOPE_TAGS" and "k \<noteq> k'"
  shows "\<not> assertWellFormedEnvelope (pre @ t @ v @ mid @ t' @ rest)"
proof
  assume "assertWellFormedEnvelope (pre @ t @ v @ mid @ t' @ rest)"
  then have "scan_envelope 0 [] (pre @ t @ v @ mid @ t' @ rest)" by (simp add: assertWellFormedEnvelope_def)
  from scan_past_message [OF assms(1) this] obtain s1
    where s1: "seen_grows [] s1" "scan_envelope 0 s1 (t @ v @ mid @ t' @ rest)" by blast
  from scan_field [OF assms(2,3) s1(2)] assms(8) obtain s2
    where s2: "seen_grows s1 s2" "k \<in> set s2" "scan_envelope 0 s2 (mid @ t' @ rest)" by auto
  from scan_past_message [OF assms(4) s2(3)] obtain s3 where s3: "seen_grows s2 s3" "scan_envelope 0 s3 (t' @ rest)" by blast
  have "seen_grows [] s3" by (rule seen_grows_trans [OF seen_grows_trans [OF s1(1) s2(1)] s3(1)])
  then have "set s3 = {} \<or> (\<exists>j. set s3 = {j})" unfolding seen_grows_def by simp
  moreover have "k \<in> set s3"
  proof -
    have "s2 \<noteq> []" using s2(2) by force
    then have "set s3 = set s2" using s3(1) unfolding seen_grows_def by blast
    with s2(2) show ?thesis by blast
  qed
  ultimately obtain j where "set s3 = {j}" by fastforce
  with \<open>k \<in> set s3\<close> have "set s3 = {k}" by simp
  then have "k' \<notin> set s3" "s3 \<noteq> []" using assms(10) by (simp, force)
  with s3(2) assms(6,7,9) show False by (simp add: scan_envelope_step [OF assms(5)] Let_def)
qed

theorem second_kind_rejected_witness:
  "\<not> assertWellFormedEnvelope [0x1A, 0x00, 0xFB, 0x01, 0xFC, 0x01, 0x0A, 0x02, 0x0A, 0x00]"
proof -
  have v: "value_bytes 2 [0x00]"
    unfolding value_bytes_def by (intro disjI2 conjI exI [of _ "[0x00]"] exI [of _ "[]"]) (simp_all add: varint32_def Let_def)
  have t: "tag_bytes 3 2 [0x1A]" "tag_bytes 31 3 [0xFB, 0x01]" "tag_bytes 31 4 [0xFC, 0x01]"
    "tag_bytes 1 2 [0x0A]"
    by (simp_all add: tag_bytes_def varint32_def Let_def)
  have "message ([0xFB, 0x01] @ [] @ [0xFC, 0x01] @ [])" by (rule message.group [OF t(2) message.empty t(3) message.empty])
  then have m: "message [0xFB, 0x01, 0xFC, 0x01]" by simp
  show ?thesis
    using second_kind_rejected [OF message.empty t(1) v m t(4), of "[0x02, 0x0A, 0x00]"] by (simp add: ENVELOPE_TAGS_def)
qed

lemma one_arm_scanned:
  assumes "tag_bytes k 2 t" and "varint32 l = Some (length p, [])" and "k \<in> set ENVELOPE_TAGS"
  shows "assertWellFormedEnvelope (t @ l @ p) \<longleftrightarrow>
    (\<exists>child spec. map_of ENVELOPE_SCAN k = Some child \<and> map_of SCAN_SPECS child = Some spec \<and> scanMessage p spec)"
proof -
  have "k \<in> fst ` set ENVELOPE_SCAN" using assms(3) every_child_has_a_spec(2) by (metis set_map)
  then obtain child where c: "map_of ENVELOPE_SCAN k = Some child" by (auto simp: map_of_eq_None_iff dest: weak_map_of_SomeI)
  have "list_all (\<lambda>(k, child). map_of SCAN_SPECS child \<noteq> None) ENVELOPE_SCAN" by (rule every_child_has_a_spec(3))
  with map_of_SomeD [OF c] obtain spec where spec: "map_of SCAN_SPECS child = Some spec"
    unfolding list_all_iff by blast
  have "readVarint (l @ p) = Some (length p, p)" using delimited_scanned [OF assms(2), of "[]"] by simp
  moreover have "scan_envelope 0 seen []" for seen by (simp add: scan_envelope.simps [of 0 seen "[]"])
  ultimately show ?thesis
    using assms(3) c spec by (simp add: assertWellFormedEnvelope_def scan_envelope_step [OF assms(1)] advance_def)
qed

text \<open>
  C12. The two varint readers agree and are exact: a number below \<open>2 ^ 32\<close> is read back from its
  encoding, whatever the strict reader accepts is below \<open>2 ^ 32\<close> and the masking reader reads the
  same, and the masking reader, which never exceeds 32 bits, fails only when the bytes run out.
\<close>

theorem varints_read_exactly:
  "(n < 2 ^ 32 \<longrightarrow> varint32 (write_varint n @ rest) = Some (n, rest)) \<and>
   (varint32 bs = Some (m, bs') \<longrightarrow> m < 2 ^ 32 \<and> readVarint bs = Some (m, bs')) \<and>
   (case readVarint bs of Some (k, r) \<Rightarrow> k < 2 ^ 32 | None \<Rightarrow> list_all (\<lambda>b. b AND 0x80 \<noteq> 0) bs)"
  using varint32_written varint32_masked [of bs m bs'] readVarint_bound [of bs] masked_fails [of 0 0 bs]
  by (auto simp: readVarint_def split: option.split)

theorem varints_read_exactly_witness:
  "varint32 (write_varint 300 @ [7]) = Some (300, [7]) \<and> readVarint [0xAC, 0x02, 7] = Some (300, [7])"
proof -
  have "varint32 [0xAC, 0x02, 7] = Some (300, [7])" by (simp add: varint32_def Let_def)
  then show ?thesis using varints_read_exactly [of 300 "[7]" "[0xAC, 0x02, 7]" 300 "[7]"] by simp
qed

text \<open>
  C10. The walkers that tell an event of a later protocol from broken bytes accept exactly the
  grammar: \<open>walksAsMessage\<close> the messages, \<open>namesOnlyFutureArms\<close> the frames that hold no arm
  this build knows and at least one unknown length-delimited field whose payload is a message.
\<close>

theorem walkers_accept_the_grammar:
  "(walksAsMessage bs \<longleftrightarrow> message bs) \<and> (namesOnlyFutureArms bs \<longleftrightarrow> (\<exists>n. later_frame (Suc n) bs))"
  by (simp add: walksAsMessage_iff namesOnlyFutureArms_iff)

end
