(* ===== verification/AGUI_ProtoMerge.thy ===== *)
theory AGUI_ProtoMerge
  imports AGUI_ProtoScan
begin

section \<open>Merging repeated messages\<close>

text \<open>
  \<open>mergeMessageFields\<close> of \<^verbatim>\<open>proto/src/proto.ts\<close>: the payloads of a singular message
  field that occurs several times are joined before the generated parser, which would replace
  instead of merge, sees them.

  \<^item> The wire reader and writer of \<^verbatim>\<open>@bufbuild/protobuf\<close> are parameters: \<open>reader\<close> reads one
    field (its number, its wire type, its payload when it is length-delimited, and the bytes after
    it) or throws, \<open>writer\<close> writes a length-delimited field.
  \<^item> Since nothing is known of the reader, the loop and the recursion take fuel; running out of it is a
    result of its own, and the theorem below says how much is enough.
  \<^item> The code compares arrays by identity: a call returns its input unless it changed something,
    so the model returns the bytes with that flag.
\<close>

datatype 'a ran = Returned 'a | Thrown | OutOfFuel

type_synonym field_reader = "bytes \<Rightarrow> ((nat \<times> nat \<times> bytes option) \<times> bytes) option"

record merge_field =
  mf_number :: nat
  mf_raw :: bytes
  mf_payloads :: "bytes list option"
  mf_child :: "scan_spec option"

record merge_state =
  ms_fields :: "merge_field option list"
  ms_positions :: "(nat \<times> nat) list"
  ms_active :: "nat option"
  ms_changed :: bool

definition initial_merge :: merge_state where
  "initial_merge = \<lparr>ms_fields = [], ms_positions = [], ms_active = None, ms_changed = False\<rparr>"

definition without_key :: "nat \<Rightarrow> (nat \<times> nat) list \<Rightarrow> (nat \<times> nat) list" where
  "without_key k = filter (\<lambda>p. fst p \<noteq> k)"

text \<open>The field at the position of a number is dropped.\<close>

definition drop_field :: "nat \<Rightarrow> merge_state \<Rightarrow> merge_state" where
  "drop_field number st =
     (case map_of (ms_positions st) number of
        None \<Rightarrow> st
      | Some p \<Rightarrow> st\<lparr>ms_fields := (ms_fields st)[p := None], ms_positions := without_key number (ms_positions st)\<rparr>)"

definition activate_arm :: "nat \<Rightarrow> merge_state \<Rightarrow> merge_state" where
  "activate_arm number st =
     (case ms_active st of
        Some active \<Rightarrow> if active \<noteq> number then (drop_field active st)\<lparr>ms_changed := True\<rparr> else st
      | None \<Rightarrow> st)\<lparr>ms_active := Some number\<rparr>"

definition merge_arm :: "scan_spec \<Rightarrow> nat \<Rightarrow> merge_state \<Rightarrow> merge_state" where
  "merge_arm spec number st =
     (let st1 = activate_arm number st in
      if number \<notin> set (singular spec) \<and> map_of (ms_positions st1) number \<noteq> None
      then (drop_field number st1)\<lparr>ms_changed := True\<rparr> else st1)"

definition payloads_at :: "nat \<Rightarrow> merge_state \<Rightarrow> (nat \<times> merge_field \<times> bytes list) option" where
  "payloads_at number st =
     (case map_of (ms_positions st) number of
        None \<Rightarrow> None
      | Some p \<Rightarrow>
          (if length (ms_fields st) \<le> p then None
           else case ms_fields st ! p of
             None \<Rightarrow> None
           | Some f \<Rightarrow> map_option (\<lambda>ps. (p, f, ps)) (mf_payloads f)))"

definition child_name :: "scan_spec \<Rightarrow> nat \<Rightarrow> string option" where
  "child_name spec number =
     (case map_of (descend spec) number of Some c \<Rightarrow> Some c | None \<Rightarrow> map_of (google spec) number)"

definition merge_step ::
    "scan_spec \<Rightarrow> nat \<Rightarrow> nat \<Rightarrow> bytes option \<Rightarrow> bytes \<Rightarrow> merge_state \<Rightarrow> merge_state" where
  "merge_step spec number wireType payload raw st =
     (let isArm = (number \<in> set (arms spec) \<and>
            wireType = (case map_of (armWireTypes spec) number of Some w \<Rightarrow> w | None \<Rightarrow> 2));
          st1 = (if isArm then merge_arm spec number st else st);
          childName = child_name spec number;
          isMessage = (payload \<noteq> None \<and> (number \<in> set (singular spec) \<or> childName \<noteq> None));
          previous = (if isMessage \<and> number \<in> set (singular spec) then payloads_at number st1 else None) in
      case previous of
        Some (p, f, ps) \<Rightarrow>
          st1\<lparr>ms_fields := (ms_fields st1)[p := Some (f\<lparr>mf_payloads := Some (ps @ [the payload])\<rparr>)], ms_changed := True\<rparr>
      | None \<Rightarrow>
          (let st2 = (if isMessage \<or> isArm
                then st1\<lparr>ms_positions := (number, length (ms_fields st1)) # without_key number (ms_positions st1)\<rparr> else st1) in
           st2\<lparr>ms_fields := ms_fields st2 @
             [Some \<lparr>mf_number = number, mf_raw = raw, mf_payloads = (if isMessage then Some [the payload] else None),
                mf_child = (case childName of None \<Rightarrow> None | Some c \<Rightarrow> map_of SCAN_SPECS c)\<rparr>]\<rparr>))"

fun read_fields :: "field_reader \<Rightarrow> scan_spec \<Rightarrow> nat \<Rightarrow> merge_state \<Rightarrow> bytes \<Rightarrow> merge_state ran" where
  "read_fields reader spec fuel st [] = Returned st"
| "read_fields reader spec 0 st (b # bs) = OutOfFuel"
| "read_fields reader spec (Suc fuel) st (b # bs) =
     (case reader (b # bs) of
        None \<Rightarrow> Thrown
      | Some ((number, wireType, payload), rest) \<Rightarrow>
          read_fields reader spec fuel
            (merge_step spec number wireType payload (take (length (b # bs) - length rest) (b # bs)) st) rest)"

text \<open>The parts in order; a joined or changed message is written anew.\<close>

fun merge_parts ::
    "(nat \<Rightarrow> bytes \<Rightarrow> bytes) \<Rightarrow> (bytes \<Rightarrow> scan_spec \<Rightarrow> (bytes \<times> bool) ran) \<Rightarrow> merge_field option list
      \<Rightarrow> (bytes list \<times> bool) ran" where
  "merge_parts writer merge [] = Returned ([], False)"
| "merge_parts writer merge (None # fs) = merge_parts writer merge fs"
| "merge_parts writer merge (Some f # fs) =
     (case mf_payloads f of
        None \<Rightarrow>
          (case merge_parts writer merge fs of
             Returned (parts, changed) \<Rightarrow> Returned (mf_raw f # parts, changed)
           | Thrown \<Rightarrow> Thrown
           | OutOfFuel \<Rightarrow> OutOfFuel)
      | Some ps \<Rightarrow>
          (case (case mf_child f of None \<Rightarrow> Returned (concat ps, False) | Some spec \<Rightarrow> merge (concat ps) spec) of
             Thrown \<Rightarrow> Thrown
           | OutOfFuel \<Rightarrow> OutOfFuel
           | Returned (merged, different) \<Rightarrow>
               (case merge_parts writer merge fs of
                  Thrown \<Rightarrow> Thrown
                | OutOfFuel \<Rightarrow> OutOfFuel
                | Returned (parts, changed) \<Rightarrow>
                    if 1 < length ps \<or> different then Returned (writer (mf_number f) merged # parts, True)
                    else Returned (mf_raw f # parts, changed))))"

fun merge_message ::
    "field_reader \<Rightarrow> (nat \<Rightarrow> bytes \<Rightarrow> bytes) \<Rightarrow> nat \<Rightarrow> bytes \<Rightarrow> scan_spec \<Rightarrow> (bytes \<times> bool) ran" where
  "merge_message reader writer 0 data spec = OutOfFuel"
| "merge_message reader writer (Suc fuel) data spec =
     (case read_fields reader spec fuel initial_merge data of
        Thrown \<Rightarrow> Thrown
      | OutOfFuel \<Rightarrow> OutOfFuel
      | Returned st \<Rightarrow>
          (case merge_parts writer (merge_message reader writer fuel) (ms_fields st) of
             Thrown \<Rightarrow> Thrown
           | OutOfFuel \<Rightarrow> OutOfFuel
           | Returned (parts, changed) \<Rightarrow>
               if ms_changed st \<or> changed then Returned (concat parts, True) else Returned (data, False)))"

definition mergeMessageFields ::
    "field_reader \<Rightarrow> (nat \<Rightarrow> bytes \<Rightarrow> bytes) \<Rightarrow> bytes \<Rightarrow> scan_spec \<Rightarrow> (bytes \<times> bool) ran" where
  "mergeMessageFields reader writer data spec = merge_message reader writer (Suc (length data)) data spec"

definition ENVELOPE_SPEC :: scan_spec where
  "ENVELOPE_SPEC = plain_spec ENVELOPE_TAGS ENVELOPE_SCAN []"

subsection \<open>How much fuel is enough\<close>

definition consuming :: "field_reader \<Rightarrow> bool" where
  "consuming reader \<longleftrightarrow>
     (\<forall>bs number wireType payload rest. reader bs = Some ((number, wireType, payload), rest) \<longrightarrow>
        (case payload of None \<Rightarrow> 0 | Some p \<Rightarrow> length p) + length rest < length bs)"

fun entry_weight :: "merge_field option \<Rightarrow> nat" where
  "entry_weight None = 0"
| "entry_weight (Some f) = (case mf_payloads f of None \<Rightarrow> 0 | Some ps \<Rightarrow> length (concat ps))"

definition weight :: "merge_state \<Rightarrow> nat" where
  "weight st = sum_list (map entry_weight (ms_fields st))"

lemma weight_set:
  assumes "p < length (ms_fields st)"
  shows "weight (st\<lparr>ms_fields := (ms_fields st)[p := e]\<rparr>) + entry_weight (ms_fields st ! p) = weight st + entry_weight e"
proof -
  have "entry_weight (ms_fields st ! p) \<le> sum_list (map entry_weight (ms_fields st))"
    using elem_le_sum_list [of p "map entry_weight (ms_fields st)"] assms by simp
  then show ?thesis using assms by (simp add: weight_def map_update sum_list_update)
qed

lemma weight_drop: "weight (drop_field k st) \<le> weight st"
proof (cases "map_of (ms_positions st) k")
  case (Some p)
  show ?thesis
  proof (cases "p < length (ms_fields st)")
    case True
    from weight_set [OF True, of None] Some show ?thesis by (simp add: drop_field_def weight_def)
  qed (use Some in \<open>simp add: drop_field_def weight_def list_update_beyond\<close>)
qed (simp add: drop_field_def)

lemma weight_simps [simp]:
  "weight (st\<lparr>ms_changed := c\<rparr>) = weight st" "weight (st\<lparr>ms_active := a\<rparr>) = weight st"
  "weight (st\<lparr>ms_positions := ps\<rparr>) = weight st" "weight initial_merge = 0"
  by (simp_all add: weight_def initial_merge_def)

lemma weight_arm: "weight (merge_arm spec k st) \<le> weight st"
proof -
  have "weight (activate_arm k st) \<le> weight st"
    by (cases "ms_active st") (simp_all add: activate_arm_def weight_drop)
  then show ?thesis using weight_drop [of k "activate_arm k st"] by (simp add: merge_arm_def Let_def)
qed

lemma payloads_at_weight:
  assumes "payloads_at k st = Some (p, f, ps)"
  shows "p < length (ms_fields st)" and "entry_weight (ms_fields st ! p) = length (concat ps)"
  using assms by (auto simp: payloads_at_def split: option.splits if_splits)

lemma weight_step:
  "weight (merge_step spec k w payload raw st) \<le> weight st + (case payload of None \<Rightarrow> 0 | Some p \<Rightarrow> length p)"
proof -
  let ?st = "if k \<in> set (arms spec) \<and> w = (case map_of (armWireTypes spec) k of Some w \<Rightarrow> w | None \<Rightarrow> 2)
    then merge_arm spec k st else st"
  have st: "weight ?st \<le> weight st" using weight_arm by simp
  show ?thesis
  proof (cases "(if (payload \<noteq> None \<and> (k \<in> set (singular spec) \<or> child_name spec k \<noteq> None)) \<and> k \<in> set (singular spec)
      then payloads_at k ?st else None)")
    case None
    then show ?thesis using st
      by (simp add: merge_step_def Let_def) (auto simp: weight_def)
  next
    case (Some a)
    then obtain p f ps where a: "a = (p, f, ps)" "payloads_at k ?st = Some (p, f, ps)" "payload \<noteq> None"
      by (cases a) (auto split: if_splits)
    have "weight (?st\<lparr>ms_fields := (ms_fields ?st)[p := Some (f\<lparr>mf_payloads := Some (ps @ [the payload])\<rparr>)]\<rparr>) =
        weight ?st + length (the payload)"
      using weight_set [OF payloads_at_weight(1) [OF a(2)], of "Some (f\<lparr>mf_payloads := Some (ps @ [the payload])\<rparr>)"]
        payloads_at_weight(2) [OF a(2)] by simp
    with Some a st show ?thesis by (simp add: merge_step_def Let_def) (auto simp: weight_def)
  qed
qed


lemma read_fields_returns:
  assumes "consuming reader"
  shows "length bs \<le> fuel \<Longrightarrow> length bs \<le> fuel' \<Longrightarrow>
    read_fields reader spec fuel st bs \<noteq> OutOfFuel \<and> read_fields reader spec fuel st bs = read_fields reader spec fuel' st bs"
proof (induction fuel arbitrary: fuel' st bs)
  case 0
  then show ?case by simp
next
  case (Suc fuel)
  show ?case
  proof (cases bs)
    case (Cons b bs')
    then obtain f where f: "fuel' = Suc f" using Suc.prems(2) by (cases fuel') simp_all
    show ?thesis
    proof (cases "reader bs")
      case (Some r)
      then obtain k w p rest where r: "reader bs = Some ((k, w, p), rest)" by (cases r) auto
      then have "length rest < length bs" using assms unfolding consuming_def by fastforce
      with Suc.prems f have "length rest \<le> fuel" "length rest \<le> f" by simp_all
      from Suc.IH [OF this, of "merge_step spec k w p (take (length bs - length rest) bs) st"] r Cons f
      show ?thesis by auto
    qed (use Cons f in simp)
  qed simp
qed

lemma read_fields_weight:
  assumes "consuming reader"
  shows "read_fields reader spec fuel st bs = Returned st' \<Longrightarrow> weight st' + (if bs = [] then 0 else 1) \<le> weight st + length bs"
proof (induction fuel arbitrary: st bs)
  case 0
  then show ?case by (cases bs) simp_all
next
  case (Suc fuel)
  show ?case
  proof (cases bs)
    case (Cons b bs')
    with Suc.prems obtain k w p rest where r: "reader bs = Some ((k, w, p), rest)" by (auto split: option.splits)
    let ?st = "merge_step spec k w p (take (length bs - length rest) bs) st"
    have "read_fields reader spec fuel ?st rest = Returned st'" using Suc.prems r Cons by simp
    from Suc.IH [OF this] have "weight st' \<le> weight ?st + length rest" by simp
    moreover have "weight ?st \<le> weight st + (case p of None \<Rightarrow> 0 | Some p \<Rightarrow> length p)" by (rule weight_step)
    moreover have "(case p of None \<Rightarrow> 0 | Some p \<Rightarrow> length p) + length rest < length bs"
      using assms r unfolding consuming_def by blast
    ultimately show ?thesis using Cons by simp
  qed (use Suc.prems in simp)
qed

text \<open>The parts of a message are shorter than it, so that its own fuel is enough for them.\<close>

lemma parts_return:
  assumes "\<And>ps spec. length (concat ps) < n \<Longrightarrow> merge (concat ps) spec \<noteq> OutOfFuel \<and> merge (concat ps) spec = merge' (concat ps) spec"
    and "\<forall>e \<in> set fs. entry_weight e < n"
  shows "merge_parts writer merge fs \<noteq> OutOfFuel \<and> merge_parts writer merge fs = merge_parts writer merge' fs"
  using assms(2)
proof (induction fs)
  case (Cons e fs)
  then have rest: "merge_parts writer merge fs \<noteq> OutOfFuel" "merge_parts writer merge fs = merge_parts writer merge' fs" by auto
  show ?case
  proof (cases e)
    case (Some f)
    show ?thesis
    proof (cases "mf_payloads f")
      case None
      with rest Some show ?thesis by (auto split: ran.split)
    next
      case (Some ps)
      then have "length (concat ps) < n" using Cons.prems \<open>e = Some f\<close> by simp
      from assms(1) [OF this] have m: "merge (concat ps) spec \<noteq> OutOfFuel" "merge' (concat ps) spec \<noteq> OutOfFuel"
        "merge (concat ps) spec = merge' (concat ps) spec" for spec by metis+
      from m rest Some \<open>e = Some f\<close> show ?thesis by (cases "mf_child f") (auto split: ran.split)
    qed
  qed (use rest in simp)
qed simp

lemma merge_returns:
  assumes "consuming reader"
  shows "length data < fuel \<Longrightarrow> length data < fuel' \<Longrightarrow>
    merge_message reader writer fuel data spec \<noteq> OutOfFuel \<and>
    merge_message reader writer fuel data spec = merge_message reader writer fuel' data spec"
proof (induction fuel arbitrary: fuel' data spec)
  case (Suc n)
  then obtain n' where f: "fuel' = Suc n'" by (cases fuel') simp_all
  with Suc.prems have n: "length data \<le> n" "length data \<le> n'" by simp_all
  from read_fields_returns [OF assms n, of spec initial_merge]
  have read: "read_fields reader spec n initial_merge data \<noteq> OutOfFuel"
    "read_fields reader spec n' initial_merge data = read_fields reader spec n initial_merge data" by auto
  show ?case
  proof (cases "read_fields reader spec n initial_merge data")
    case (Returned st)
    have w: "weight st + (if data = [] then 0 else 1) \<le> length data"
      using read_fields_weight [OF assms Returned] by simp
    have "\<forall>e \<in> set (ms_fields st). entry_weight e < length data"
    proof (cases data)
      case Nil
      with Returned show ?thesis by (auto simp: initial_merge_def)
    next
      case (Cons b bs)
      then show ?thesis using w member_le_sum_list [of _ "map entry_weight (ms_fields st)"] by (fastforce simp: weight_def)
    qed
    moreover have "merge_message reader writer n (concat ps) spec \<noteq> OutOfFuel \<and>
        merge_message reader writer n (concat ps) spec = merge_message reader writer n' (concat ps) spec"
      if "length (concat ps) < length data" for ps spec
      by (rule Suc.IH) (use that n in linarith)+
    ultimately have "merge_parts writer (merge_message reader writer n) (ms_fields st) \<noteq> OutOfFuel \<and>
        merge_parts writer (merge_message reader writer n) (ms_fields st) =
        merge_parts writer (merge_message reader writer n') (ms_fields st)"
      by (intro parts_return [where n = "length data"]) blast+
    with Returned read(2) f show ?thesis by (auto split: ran.split)
  qed (use read f in simp_all)
qed simp

text \<open>
  C13. Merging terminates: for any wire reader whose every step consumes more than the payload it
  hands out, fuel above the length of the bytes is never exhausted, however deep the messages nest,
  and more of it changes nothing.
\<close>

theorem merging_terminates:
  assumes "consuming reader"
  shows "mergeMessageFields reader writer data spec \<noteq> OutOfFuel \<and>
    (length data < fuel \<longrightarrow> merge_message reader writer fuel data spec = mergeMessageFields reader writer data spec)"
  using merge_returns [OF assms] unfolding mergeMessageFields_def by blast

text \<open>A reader and a writer that follow the grammar, and a frame with a repeated base event.\<close>

definition demo_reader :: field_reader where
  "demo_reader bs =
     (case varint32 bs of
        None \<Rightarrow> None
      | Some (tag, rest) \<Rightarrow>
          if tag mod 8 = 2 then
            (case varint32 rest of
               None \<Rightarrow> None
             | Some (len, rest') \<Rightarrow> map_option (\<lambda>after. ((tag div 8, 2, Some (take len rest')), after)) (advance len rest'))
          else map_option (\<lambda>after. ((tag div 8, tag mod 8, None), after)) (skip_value (tag mod 8) rest))"

definition demo_writer :: "nat \<Rightarrow> bytes \<Rightarrow> bytes" where
  "demo_writer number payload = write_varint (8 * number + 2) @ write_varint (length payload) @ payload"

lemma demo_consuming: "consuming demo_reader"
proof -
  have "length p + length after < length bs"
    if "varint32 bs = Some (tag, rest)" "varint32 rest = Some (len, rest')" "advance len rest' = Some after" "p = take len rest'"
    for bs tag rest len rest' after p
    using that varint_shorter(2) [OF that(1)] varint_shorter(2) [OF that(2)] by (auto simp: advance_def split: if_splits)
  then show ?thesis
    by (auto simp: consuming_def demo_reader_def dest: step_shorter(1) split: option.splits if_splits)
qed

lemma demo_merged:
  "mergeMessageFields demo_reader demo_writer [0x0A, 2, 0x0A, 0, 0x0A, 4, 0x0A, 2, 0x22, 0] ENVELOPE_SPEC =
     Returned ([0x0A, 4, 0x0A, 2, 0x22, 0], True)"
  by code_simp

theorem merging_terminates_witness:
  "merge_message demo_reader demo_writer 100 [0x0A, 2, 0x0A, 0, 0x0A, 4, 0x0A, 2, 0x22, 0] ENVELOPE_SPEC =
     Returned ([0x0A, 4, 0x0A, 2, 0x22, 0], True)"
proof -
  have "length [0x0A, 2, 0x0A, 0, 0x0A, 4, 0x0A, 2, 0x22, 0 :: 8 word] < 100" by simp
  with merging_terminates [OF demo_consuming] show ?thesis unfolding demo_merged [symmetric] by blast
qed

end
