(* ===== verification/AGUI_ProtoCodec.thy ===== *)
theory AGUI_ProtoCodec
  imports AGUI_ProtoEvents AGUI_ProtoMerge
begin

section \<open>The binary codec and its transport\<close>

text \<open>
  \<open>encode\<close> and \<open>decode\<close> of \<^verbatim>\<open>proto/src/proto.ts\<close> as a whole: validation, conversion and
  the generated encoder on one side, the scan of the bytes, the merging, the generated decoder and
  the conversion on the other, and what the client receives when a server sends encoded events.

  \<^item> The generated code and the wire library are the fields of a \<open>wire_codec\<close>: the field reader
    and writer the merging uses, \<open>Event.encode\<close> for one arm, \<open>Event.decode\<close> (\<open>Inl\<close> is the
    message of the error it throws), and the message of an error the field reader throws.
\<close>

record wire_codec =
  wc_reader :: field_reader
  wc_writer :: "nat \<Rightarrow> bytes \<Rightarrow> bytes"
  wc_encode :: "string \<Rightarrow> jobj \<Rightarrow> bytes"
  wc_decode :: "bytes \<Rightarrow> string + jobj"
  wc_fault :: string

text \<open>An event of a known kind is encoded as validation returns it, or as given when it is refused.\<close>

definition validated_event :: "(zod \<Rightarrow> js \<Rightarrow> js option) \<Rightarrow> js \<Rightarrow> js" where
  "validated_event parse event =
     (let given = omitOptionalNulls event ''Event'' in
      if isRecognizedEvent given then (case parse EventSchema given of None \<Rightarrow> given | Some v \<Rightarrow> v) else given)"

definition sent_as :: "(zod \<Rightarrow> js \<Rightarrow> js option) \<Rightarrow> js \<Rightarrow> encode_error + (string \<times> jobj)" where
  "sent_as parse event = event_to_wire (omitOptionalNulls event ''Event'') (fields_of (validated_event parse event))"

definition proto_encode :: "wire_codec \<Rightarrow> (zod \<Rightarrow> js \<Rightarrow> js option) \<Rightarrow> js \<Rightarrow> encode_error + bytes" where
  "proto_encode codec parse event =
     map_sum id (\<lambda>(arm, wire). wc_encode codec arm wire) (sent_as parse event)"

fun error_text :: "decode_error \<Rightarrow> string" where
  "error_text SeveralSources = ''Invalid event: source carries more than one arm''"
| "error_text SeveralParts = ''Invalid event: content part carries more than one arm''"
| "error_text SeveralContents = ''Invalid event: message carries more than one content form''"
| "error_text UnexpectedParts = ''Invalid event: message carries content parts for a role that has none''"
| "error_text UnexpectedActivity = ''Invalid event: message carries activity content for a non-activity role''"
| "error_text ActivityWithContent = ''Invalid event: activity content cannot ride with other content forms''"
| "error_text StringWithParts = ''Invalid event: message carries both string content and content parts''"
| "error_text EventWithBoth = ''Invalid event: content carries both string content and content parts''"
| "error_text InvalidEvent = ''Invalid event''"
| "error_text (TypeMismatch t declared) =
     ''Invalid event: envelope carries '' @ t @ '' but the base event declares '' @ js_key declared"

definition proto_decode :: "wire_codec \<Rightarrow> bytes \<Rightarrow> js decoding" where
  "proto_decode codec data =
     (if \<not> assertWellFormedEnvelope data then Undecodable (error_text InvalidEvent)
      else case mergeMessageFields (wc_reader codec) (wc_writer codec) data ENVELOPE_SPEC of
        Returned (merged, changed) \<Rightarrow>
          (case wc_decode codec merged of
             Inl msg \<Rightarrow> Undecodable msg
           | Inr envelope \<Rightarrow>
               (case defined_fields envelope of
                  [] \<Rightarrow> if namesOnlyFutureArms data then UnknownEventType else Undecodable (error_text InvalidEvent)
                | [(arm, wire)] \<Rightarrow>
                    (case event_from_wire arm (record_or_empty wire) of
                       Inl err \<Rightarrow> Undecodable (error_text err)
                     | Inr event \<Rightarrow> Decoded event)
                | _ \<Rightarrow> Undecodable (error_text InvalidEvent)))
      | _ \<Rightarrow> Undecodable (wc_fault codec))"

text \<open>The bytes of a frame; encoding throws only for what is no event.\<close>

definition frame_bytes :: "wire_codec \<Rightarrow> (zod \<Rightarrow> js \<Rightarrow> js option) \<Rightarrow> js \<Rightarrow> bytes" where
  "frame_bytes codec parse event = (case proto_encode codec parse event of Inl err \<Rightarrow> [] | Inr data \<Rightarrow> data)"

text \<open>
  What the generated encoder promises for a message: its bytes are canonical (the scan accepts
  them and the merging finds nothing to join), and the generated decoder reads the message back
  from them, the other arms absent or \<open>undefined\<close>.
\<close>

definition carries :: "wire_codec \<Rightarrow> string \<Rightarrow> jobj \<Rightarrow> bool" where
  "carries codec arm wire \<longleftrightarrow>
     (let data = wc_encode codec arm wire in
      assertWellFormedEnvelope data \<and>
      mergeMessageFields (wc_reader codec) (wc_writer codec) data ENVELOPE_SPEC = Returned (data, False) \<and>
      (case wc_decode codec data of Inl msg \<Rightarrow> False | Inr envelope \<Rightarrow> defined_fields envelope = [(arm, JObj wire)]))"

definition carried :: "wire_codec \<Rightarrow> (zod \<Rightarrow> js \<Rightarrow> js option) \<Rightarrow> js \<Rightarrow> bool" where
  "carried codec parse event \<longleftrightarrow>
     (case sent_as parse event of Inl err \<Rightarrow> False | Inr (arm, wire) \<Rightarrow> carries codec arm wire)"

text \<open>Validation keeps the kind of an event and leaves it sendable.\<close>

definition well_validated :: "(zod \<Rightarrow> js \<Rightarrow> js option) \<Rightarrow> js \<Rightarrow> bool" where
  "well_validated parse event \<longleftrightarrow> sendable_event (validated_event parse event) \<and>
     jprop (omitOptionalNulls event ''Event'') ''type'' = jprop (validated_event parse event) ''type''"

definition same_fields :: "js \<Rightarrow> js \<Rightarrow> bool" where
  "same_fields v w \<longleftrightarrow> (\<forall>k. jprop v k = jprop w k)"

lemma event_to_wire_type:
  assumes "jprop given ''type'' = jprop given' ''type''"
  shows "event_to_wire given validated = event_to_wire given' validated"
  unfolding event_to_wire_def assms ..

lemma codec_round_trip:
  assumes "well_validated parse event" and "carried codec parse event"
  shows "\<exists>v. proto_decode codec (frame_bytes codec parse event) = Decoded v \<and> same_fields v (validated_event parse event)"
proof -
  let ?v = "validated_event parse event"
  from assms(1) have s: "sendable_event ?v"
    and t: "jprop (omitOptionalNulls event ''Event'') ''type'' = jprop ?v ''type''"
    by (simp_all add: well_validated_def)
  from event_comes_back [OF s] obtain arm wire decoded where
    w: "event_to_wire ?v (fields_of ?v) = Inr (arm, wire)" "event_from_wire arm wire = Inr (JObj decoded)"
      "\<And>k. oget decoded k = jprop ?v k" by blast
  have sent: "sent_as parse event = Inr (arm, wire)"
    using w(1) event_to_wire_type [OF t] by (simp add: sent_as_def)
  with assms(2) have c: "carries codec arm wire" by (simp add: carried_def)
  have b: "frame_bytes codec parse event = wc_encode codec arm wire"
    using sent by (simp add: frame_bytes_def proto_encode_def)
  have "proto_decode codec (wc_encode codec arm wire) = Decoded (JObj decoded)"
    using c w(2) by (auto simp: carries_def proto_decode_def Let_def record_or_empty_def split: sum.splits)
  with b w(3) show ?thesis by (simp add: same_fields_def)
qed


definition demo_start :: js where
  "demo_start = JObj [(''type'', JStr ''TEXT_MESSAGE_START''), (''messageId'', JStr ''m1''), (''role'', JStr ''assistant'')]"

definition demo_wire :: jobj where
  "demo_wire = [(''baseEvent'', JObj [(''type'', JNum 0), (''timestamp'', JUndef), (''rawEvent'', JUndef), (''metadata'', JUndef)]),
     (''messageId'', JStr ''m1''), (''role'', JStr ''assistant'')]"

definition demo_codec :: wire_codec where
  "demo_codec = \<lparr>wc_reader = demo_reader, wc_writer = demo_writer, wc_encode = (\<lambda>arm m. [0x0A, 2, 0x0A, 0]),
     wc_decode = (\<lambda>bs. Inr [(''textMessageStart'', JObj demo_wire), (''raw'', JUndef)]), wc_fault = []\<rparr>"

lemma demo_start_validated: "validated_event (\<lambda>s. Some) demo_start = demo_start" "omitOptionalNulls demo_start ''Event'' = demo_start"
  by code_simp+


lemma oget_filtered:
  "oget obj k \<noteq> JUndef \<Longrightarrow> oget (map (\<lambda>(k, x). (k, dropUndefinedDeep x)) (filter (\<lambda>(k, x). x \<noteq> JUndef) obj)) k =
     dropUndefinedDeep (oget obj k)"
  by (induction obj) (auto split: if_splits)

lemma clean_idem: "dropUndefinedDeep (dropUndefinedDeep v) = dropUndefinedDeep v"
proof (induction v rule: dropUndefinedDeep.induct)
  case (1 v)
  show ?case
  proof (cases v)
    case (JArr xs)
    with 1 show ?thesis by simp
  next
    case (JObj obj)
    have "dropUndefinedDeep (dropUndefinedDeep x) = dropUndefinedDeep x" if "(k, x) \<in> set obj" "x \<noteq> JUndef" for k x
      using 1(2) [OF JObj, of "(k, x)"] that by auto
    then have "\<forall>(k, x)\<in>set (map (\<lambda>(k, x). (k, dropUndefinedDeep x)) (filter (\<lambda>(k, x). x \<noteq> JUndef) obj)).
        x \<noteq> JUndef \<and> dropUndefinedDeep x = x"
      by (auto simp: clean_undefined)
    then show ?thesis unfolding JObj dropUndefinedDeep_simps(7) [of obj] by (rule clean_entries [THEN iffD2])
  qed simp_all
qed

lemma decode_rest_type:
  assumes "decode_rest t decoded = Inr event"
  shows "oget event ''type'' = oget decoded ''type''"
  using assms
  by (auto simp: decode_rest_def decode_usage_def decode_run_outcome_def decode_subagent_outcome_def decode_patch_def
      decode_result_content_def Let_def map_sum_Inr oget_spread_left list_field_def split: if_splits js.splits sum.splits)

lemma event_from_wire_typed:
  assumes "event_from_wire arm wire = Inr v"
  shows "isRecognizedEvent v" and "dropUndefinedDeep v = v"
proof -
  from assms obtain t base decoded where t: "map_of ENVELOPE_TYPE arm = Some t"
    and d: "decode_rest t (decode_base t base wire) = Inr decoded" and v: "v = dropUndefinedDeep (JObj decoded)"
    by (auto simp: event_from_wire_def Let_def map_sum_Inr simp del: dropUndefinedDeep_simps split: option.splits if_splits)
  show "dropUndefinedDeep v = v" unfolding v by (rule clean_idem)
  have "oget decoded ''type'' = JStr t" using decode_rest_type [OF d] by (simp add: decode_base_def Let_def)
  then have "jprop v ''type'' = JStr t" unfolding v using oget_filtered [of decoded "''type''"] by simp
  moreover have "t \<in> set KNOWN_EVENT_TYPES"
    unfolding envelope_arms(2) [symmetric] using map_of_SomeD [OF t] by force
  ultimately show "isRecognizedEvent v" by (auto simp: isRecognizedEvent_def list_ex_iff)
qed



end
