(* ===== verification/Spec2Isabelle.thy ===== *)
theory Spec2Isabelle
  imports AGUI_Verify AGUI_Chunks AGUI_Conversation AGUI_Compact AGUI_Enforce AGUI_Wire AGUI_Http AGUI_ProtoCodec
begin

text \<open>
  A verification of the AG-UI TypeScript client: the packages \<^verbatim>\<open>client\<close>, \<^verbatim>\<open>encoder\<close>
  and \<^verbatim>\<open>proto\<close> and the validators and serialization of \<^verbatim>\<open>core\<close>, all below
  \<^verbatim>\<open>src/sdks/typescript/packages\<close>.

  An agent answers a run input with a stream of events. In the client such a stream passes, in this
  order: the transport (bytes of an HTTP response, framed as server-sent events or as length-prefixed
  protobuf messages, to raw events), the compatibility boundary and the middleware chain (retired
  shapes are upgraded, peers of an older version are shielded), enforcement (unknown material is
  stripped, malformed events end the run), expansion (chunk events become start, content and end
  events), verification (the event grammar of messages, tool calls, reasoning, steps and
  subagents), and the reducer (events become the conversation and the state of the agent). Each
  of these is an RxJS operator there and a \<open>stage\<close> here: a step function from a state and
  an input to an error or to outputs and the next state.

  Theories and the code they model:

  \<^item> \<open>AGUI_Prelude\<close>: JavaScript values and objects, maps and sets, stages and their
    locales (\<open>js_map\<close>, \<open>invariant_stage\<close>, \<open>bracketed_stage\<close>,
    \<open>simulated_stage\<close>); each locale is interpreted in the theory that provides its operations.
  \<^item> \<open>AGUI_Events\<close>: events and metadata (\<^verbatim>\<open>core/src/metadata.ts\<close>).
  \<^item> \<open>AGUI_Verify\<close>: \<open>verifyEvents\<close> (\<^verbatim>\<open>verify/verify.ts\<close>). Accepted streams are well
    bracketed, tags agree, the run life cycle is refined, and the verdict on a streaming event is
    characterised.
  \<^item> \<open>AGUI_Chunks\<close>: \<open>transformChunks\<close> (\<^verbatim>\<open>chunks/transform.ts\<close>). Lanes are
    isolated, text is kept, open lanes are closed.
  \<^item> \<open>AGUI_Apply\<close>, \<open>AGUI_Refine\<close>, \<open>AGUI_Conversation\<close>: the reducer
    \<open>defaultApplyEvents\<close> with its subscribers (\<^verbatim>\<open>apply/default.ts\<close>,
    \<^verbatim>\<open>agent/subscriber.ts\<close>, \<^verbatim>\<open>activity-history.ts\<close>) over an explicit
    heap of message objects; the reference \<open>chat_step\<close> on plain lists and the simulation; what
    a run does to messages, tool calls, results, snapshots and activities.
  \<^item> \<open>AGUI_Compact\<close>: \<open>compactEvents\<close> (\<^verbatim>\<open>compact/compact.ts\<close>), against the
    reducer's reference.
  \<^item> \<open>AGUI_Schema\<close>, \<open>AGUI_Enforce\<close>: the generated validators as values of a schema type
    (\<^verbatim>\<open>core/src/generated/schemas.ts\<close>), stripping, serialization and enforcement
    (\<^verbatim>\<open>enforce/*.ts\<close>, \<^verbatim>\<open>core/src/generated/serialization.ts\<close>).
  \<^item> \<open>AGUI_Wire\<close>: the encoder and the transports (\<^verbatim>\<open>encoder/src/encoder.ts\<close>,
    \<^verbatim>\<open>transform/*.ts\<close>) with UTF-8 decoding by bytes. Encoded events arrive, however the
    bytes are cut; the buffers are bounded.
  \<^item> \<open>AGUI_ProtoScan\<close>, \<open>AGUI_ProtoMerge\<close>: the byte level of
    \<^verbatim>\<open>proto/src/proto.ts\<close>. The walkers accept exactly the protobuf grammar, the varint
    readers are exact, two kinds in one frame are rejected, merging terminates.
  \<^item> \<open>AGUI_ProtoConvert\<close>, \<open>AGUI_ProtoEvents\<close>, \<open>AGUI_ProtoCodec\<close>: the
    value level of the same file (sources, content parts, messages, run inputs, all event kinds) and
    \<open>encode\<close> and \<open>decode\<close> as a whole. No content is lost in silence, every well shaped event
    comes back with its fields, also through the transport, and whatever is decoded is typed.
  \<^item> \<open>AGUI_Middleware\<close>: the middlewares, version shims and the compatibility boundary
    (\<^verbatim>\<open>middleware/*.ts\<close>).
  \<^item> \<open>AGUI_Pipeline\<close>, \<open>AGUI_Agent\<close>, \<open>AGUI_Http\<close>: the stages together, the
    agent around them with its interrupt rules (\<^verbatim>\<open>agent/agent.ts\<close>,
    \<^verbatim>\<open>interrupts/index.ts\<close>) and the agent behind HTTP (\<^verbatim>\<open>agent/http.ts\<close>,
    \<^verbatim>\<open>run/http-request.ts\<close>). What reaches the reducer is checked, the agent ends where the
    reference says, served events are the run, and only checked input leaves.

  Parameters, since they are not code of this repository: \<open>JSON\<close>, \<open>fast-json-patch\<close>,
  the parsing half of zod (a hypothesis says that a result has the structure of its schema), the
  protobuf wire reader and writer, the generated message codec, \<open>fetch\<close>, dates, version
  comparison, fresh identifiers, and the application's subscribers. Numbers are only carried, so they
  are \<open>int\<close>; tags, lengths and varints are computed with and are \<open>nat\<close> over bytes of
  \<open>8 word\<close>, frame lengths are \<open>32 word\<close>. All loops are total functions except
  \<open>mergeMessageFields\<close>, which recurses over what a parameter returns and takes fuel: one more than
  the number of bytes, which \<open>merging_terminates\<close> shows to be enough.

  Not modelled: timing and cancellation (a stream is the list of its events and how it ended; a
  detached or aborted run, the clone of an agent and the teardown of a reader are left out), console
  output and debug logging, the legacy event bridge, content negotiation, the files ts-proto
  generates, the A2UI toolkit, the command line, and the framework integrations and adapters
  under \<^verbatim>\<open>src/integrations\<close> and \<^verbatim>\<open>src/middlewares\<close>, which translate
  the streams of third-party frameworks whose code is not here.
\<close>

end
